(* ===== verification/GF_Prelude.thy ===== *)
theory GF_Prelude
  imports Main "HOL-Library.Signed_Division"
begin

text \<open>
  Shared material of the development: the machine-integer conventions of the Rust sources
  (truncating \<open>/\<close> and \<open>%\<close>, checked narrowing casts) and the generic lemmas on them.

  Rust's \<open>/\<close> and \<open>%\<close> on signed integers truncate towards zero; they are \<open>sdiv\<close> and \<open>smod\<close>
  here. \<open>div_euclid\<close> and \<open>rem_euclid\<close> with a positive divisor are \<open>div\<close> and \<open>mod\<close> on \<^typ>\<open>int\<close>.
\<close>

named_theorems rust_arith

section \<open>Machine integers\<close>

type_synonym i64 = int
type_synonym i32 = int
type_synonym u32 = int

definition i64_ok :: "int \<Rightarrow> bool" where
  "i64_ok x \<longleftrightarrow> - (2 ^ 63) \<le> x \<and> x < 2 ^ 63"

text \<open>Two's complement wrap-around of the \<open>i64\<close> operators in a build without overflow checks.\<close>

definition wrap64 :: "int \<Rightarrow> i64" where
  "wrap64 x = (x + 2 ^ 63) mod 2 ^ 64 - 2 ^ 63"

definition to_u32 :: "int \<Rightarrow> u32 option" where
  "to_u32 x = (if 0 \<le> x \<and> x < 2 ^ 32 then Some x else None)"

definition to_i64 :: "int \<Rightarrow> i64 option" where
  "to_i64 x = (if i64_ok x then Some x else None)"

lemma to_u32_Some [simp]: "to_u32 x = Some y \<longleftrightarrow> y = x \<and> 0 \<le> x \<and> x < 2 ^ 32"
  by (auto simp: to_u32_def)

lemma to_i64_Some [simp]: "to_i64 x = Some y \<longleftrightarrow> y = x \<and> i64_ok x"
  by (auto simp: to_i64_def)

lemma wrap64_id: "i64_ok x \<Longrightarrow> wrap64 x = x"
  by (simp add: i64_ok_def wrap64_def)

lemma wrap64_ok [simp]: "i64_ok (wrap64 x)"
  by (simp add: i64_ok_def wrap64_def)

lemma wrap64_mod: "wrap64 x mod 2 ^ 64 = x mod 2 ^ 64"
  unfolding wrap64_def by (metis add_diff_cancel_right' mod_diff_left_eq)

lemma wrap64_cong: "x mod 2 ^ 64 = y mod 2 ^ 64 \<Longrightarrow> wrap64 x = wrap64 y"
  unfolding wrap64_def by (metis mod_add_left_eq)

text \<open>Wrap-around is a ring homomorphism, so it may be done once, at the end.\<close>

lemma wrap64_ring:
  "wrap64 (wrap64 x + y) = wrap64 (x + y)" "wrap64 (x + wrap64 y) = wrap64 (x + y)"
  "wrap64 (wrap64 x - y) = wrap64 (x - y)" "wrap64 (x - wrap64 y) = wrap64 (x - y)"
  "wrap64 (wrap64 x * y) = wrap64 (x * y)" "wrap64 (wrap64 x) = wrap64 x"
  by (rule wrap64_cong; metis wrap64_mod mod_add_eq mod_diff_eq mod_mult_eq)+

lemma sdiv_nonneg [rust_arith]: "0 \<le> a \<Longrightarrow> 0 < b \<Longrightarrow> a sdiv b = a div b" for a b :: int
  by (simp add: signed_divide_int_def sgn_if)

lemma smod_nonneg [rust_arith]: "0 \<le> a \<Longrightarrow> 0 < b \<Longrightarrow> a smod b = a mod b" for a b :: int
  by (simp add: smod_mod_positive)

lemma sdiv_neg: "a < 0 \<Longrightarrow> 0 < b \<Longrightarrow> a sdiv b = - ((- a) div b)" for a b :: int
  by (simp add: signed_divide_int_def sgn_if)

lemma smod_eq_0_iff [rust_arith]: "a smod b = 0 \<longleftrightarrow> b dvd a" for a b :: int
  by (simp add: smod_int_alt_def mod_eq_0_iff_dvd sgn_0_0) auto

text \<open>
  The idiom \<open>(if a >= 0 { a } else { a - (b - 1) }) / b\<close> is floor division.
\<close>

lemma trunc_floor_div:
  fixes a b :: int
  assumes "0 < b"
  shows "(if 0 \<le> a then a else a - (b - 1)) sdiv b = a div b"
proof (cases "0 \<le> a")
  case True
  with assms show ?thesis by (simp add: rust_arith)
next
  case False
  let ?q = "a div b" and ?r = "a mod b"
  have r: "0 \<le> ?r" "?r < b" using assms by simp_all
  have "b - 1 - a = b * (- ?q) + (b - 1 - ?r)"
    by (metis add_diff_eq diff_diff_add minus_add_distrib mult_div_mod_eq mult_minus_right
        uminus_add_conv_diff add.commute)
  then have "(b - 1 - a) div b = - ?q"
    using r by (intro int_div_pos_eq [where r = "b - 1 - ?r"]) auto
  with False assms show ?thesis by (simp add: sdiv_neg)
qed

lemma div_plus1:
  fixes y k :: int
  assumes "1 < k"
  shows "(y + 1) div k = y div k + (if k dvd y + 1 then 1 else 0)"
proof (cases "k dvd y + 1")
  case True
  then obtain q where q: "y + 1 = k * q" by (rule dvdE)
  then have "y = k * (q - 1) + (k - 1)" by (simp add: algebra_simps)
  then have "y div k = q - 1" using assms by (intro int_div_pos_eq [where r = "k - 1"]) auto
  with q True assms show ?thesis by simp
next
  case False
  have "y mod k + 1 \<noteq> k"
  proof
    assume "y mod k + 1 = k"
    then have "y + 1 = k * (y div k + 1)"
      by (metis add.assoc distrib_left mult.right_neutral mult_div_mod_eq)
    with False show False by simp
  qed
  then have "y mod k + 1 < k" using assms pos_mod_bound [of k y] by linarith
  then have "(y + 1) div k = y div k"
    using assms by (intro int_div_pos_eq [where r = "y mod k + 1"]) auto
  with False show ?thesis by simp
qed

lemma divmod_plus1:
  fixes k n :: int
  assumes "1 < n"
  shows "k mod n = n - 1 \<Longrightarrow> (k + 1) div n = k div n + 1 \<and> (k + 1) mod n = 0"
    and "k mod n \<noteq> n - 1 \<Longrightarrow> (k + 1) div n = k div n \<and> (k + 1) mod n = k mod n + 1"
proof -
  have k: "k + 1 = n * (k div n) + (k mod n + 1)" by simp
  { assume m: "k mod n = n - 1"
    then have "k + 1 = n * (k div n + 1) + 0" using k by (simp add: algebra_simps)
    then show "(k + 1) div n = k div n + 1 \<and> (k + 1) mod n = 0"
      using assms int_div_pos_eq int_mod_pos_eq by (metis order.refl zero_less_one less_trans) }
  { assume "k mod n \<noteq> n - 1"
    then have "0 \<le> k mod n + 1" "k mod n + 1 < n"
      using assms pos_mod_bound [of n k] pos_mod_sign [of n k] by linarith+
    then show "(k + 1) div n = k div n \<and> (k + 1) mod n = k mod n + 1"
      using k int_div_pos_eq int_mod_pos_eq by blast }
qed

lemma le_div_iff:
  fixes p x k :: int
  assumes "0 < k"
  shows "p \<le> x div k \<longleftrightarrow> p * k \<le> x"
proof
  assume "p \<le> x div k"
  then have "p * k \<le> x div k * k" using assms by (simp add: mult_right_mono)
  also have "\<dots> \<le> x" using pos_mod_sign [OF assms, of x] div_mult_mod_eq [of x k] by linarith
  finally show "p * k \<le> x" .
next
  assume "p * k \<le> x"
  then show "p \<le> x div k" using zdiv_mono1 [of "p * k" x k] assms by simp
qed

lemma seven_cases:
  assumes "0 \<le> e" "e < (7::int)"
  obtains "e = 0" | "e = 1" | "e = 2" | "e = 3" | "e = 4" | "e = 5" | "e = 6"
proof -
  have "e \<in> set [0..6]" using assms by simp
  then have "e \<in> {0, 1, 2, 3, 4, 5, 6}" by (simp add: upto.simps)
  with that show thesis by auto
qed

end
