(* ===== verification/Calendar.thy ===== *)
theory Calendar
  imports GF_Prelude
begin

text \<open>
  The proleptic Gregorian calendar of \<open>crates/graphforge-rel/src/calendar.rs\<close>: dates as \<open>i64\<close> days
  since 1970-01-01, their civil, ordinal and ISO-week views, and month arithmetic.

  The operations are stated on unbounded \<^typ>\<open>int\<close> with the truncating division of the source. They agree with the
  \<open>i64\<close> code only where that does not overflow: \<open>days_from_civil_chk\<close> and \<open>civil_from_days_chk\<close> repeat the two
  conversions with every intermediate result checked against the \<open>i64\<close> range, so that the absence of overflow on the
  supported years is a theorem. Outside it (years beyond about 2.5e16, and the last 719468 days of \<open>i64\<close>) the code
  panics or wraps around, depending on the build, and the definitions here do not follow it.
  The reference the conversions are compared with is \<open>next_day\<close>, the calendar as one turns its pages.
\<close>

section \<open>Operations\<close>

definition EPOCH_ISO_WEEKDAY_OFFSET :: i64 where
  "EPOCH_ISO_WEEKDAY_OFFSET = 3"

definition days_from_civil :: "i64 \<Rightarrow> u32 \<Rightarrow> u32 \<Rightarrow> i64" where
  "days_from_civil y m d =
     (let y = (if m \<le> 2 then y - 1 else y);
          era = (if 0 \<le> y then y else y - 399) sdiv 400;
          yoe = y - era * 400;
          doy = (153 * (if m > 2 then m - 3 else m + 9) + 2) sdiv 5 + d - 1;
          doe = yoe * 365 + yoe sdiv 4 - yoe sdiv 100 + doy
      in era * 146097 + doe - 719468)"

definition civil_from_days :: "i64 \<Rightarrow> i64 \<times> u32 \<times> u32" where
  "civil_from_days z =
     (let z = z + 719468;
          era = (if 0 \<le> z then z else z - 146096) sdiv 146097;
          doe = z - era * 146097;
          yoe = (doe - doe sdiv 1460 + doe sdiv 36524 - doe sdiv 146096) sdiv 365;
          y = yoe + era * 400;
          doy = doe - (365 * yoe + yoe sdiv 4 - yoe sdiv 100);
          mp = (5 * doy + 2) sdiv 153;
          d = doy - (153 * mp + 2) sdiv 5 + 1;
          m = (if mp < 10 then mp + 3 else mp - 9)
      in (if m \<le> 2 then y + 1 else y, m, d))"

definition is_leap :: "i64 \<Rightarrow> bool" where
  "is_leap year \<longleftrightarrow> year smod 4 = 0 \<and> year smod 100 \<noteq> 0 \<or> year smod 400 = 0"

definition days_in_month :: "i64 \<Rightarrow> u32 \<Rightarrow> u32" where
  "days_in_month year month =
     (if month \<in> {1, 3, 5, 7, 8, 10, 12} then 31
      else if month \<in> {4, 6, 9, 11} then 30
      else if month = 2 then (if is_leap year then 29 else 28)
      else 0)"

definition days_in_year :: "i64 \<Rightarrow> u32" where
  "days_in_year year = (if is_leap year then 366 else 365)"

definition ymd_to_days :: "i64 \<Rightarrow> u32 \<Rightarrow> u32 \<Rightarrow> i64 option" where
  "ymd_to_days y m d =
     (if \<not> (1 \<le> m \<and> m \<le> 12) \<or> d < 1 \<or> d > days_in_month y m then None
      else Some (days_from_civil y m d))"

definition from_ordinal :: "i64 \<Rightarrow> u32 \<Rightarrow> i64 option" where
  "from_ordinal year ord =
     (if ord < 1 \<or> ord > days_in_year year then None
      else Some (days_from_civil year 1 1 + ord - 1))"

definition ordinal :: "i64 \<Rightarrow> u32" where
  "ordinal z = (let (y, _, _) = civil_from_days z in z - days_from_civil y 1 1 + 1)"

definition iso_weekday :: "i64 \<Rightarrow> u32" where
  "iso_weekday z = (z + EPOCH_ISO_WEEKDAY_OFFSET) mod 7 + 1"

definition num_days_from_monday :: "i64 \<Rightarrow> u32" where
  "num_days_from_monday z = (z + EPOCH_ISO_WEEKDAY_OFFSET) mod 7"

definition iso_weeks_in_year :: "i64 \<Rightarrow> u32" where
  "iso_weeks_in_year iso_year =
     (let jan1 = days_from_civil iso_year 1 1; wd = iso_weekday jan1
      in if wd = 4 \<or> (wd = 3 \<and> is_leap iso_year) then 53 else 52)"

definition iso_week :: "i64 \<Rightarrow> i64 \<times> u32" where
  "iso_week z =
     (let (y, _, _) = civil_from_days z;
          ord = ordinal z;
          wd = iso_weekday z;
          week = (ord - wd + 10) sdiv 7
      in if week < 1 then (y - 1, iso_weeks_in_year (y - 1))
         else if week > iso_weeks_in_year y then (y + 1, 1)
         else (y, week))"

definition from_iso_ywd :: "i64 \<Rightarrow> u32 \<Rightarrow> u32 \<Rightarrow> i64 option" where
  "from_iso_ywd iso_year week weekday =
     (if \<not> (1 \<le> weekday \<and> weekday \<le> 7) \<or> week < 1 \<or> week > iso_weeks_in_year iso_year then None
      else
        let jan4 = days_from_civil iso_year 1 4;
            week1_monday = jan4 - (iso_weekday jan4 - 1)
        in Some (week1_monday + (week - 1) * 7 + (weekday - 1)))"

definition add_months :: "i64 \<Rightarrow> u32 \<Rightarrow> u32 \<Rightarrow> i64 \<Rightarrow> i64 \<times> u32 \<times> u32" where
  "add_months y m d months =
     (let total = y * 12 + (m - 1) + months;
          ny = total div 12;
          nm = total mod 12 + 1;
          nd = min d (days_in_month ny nm)
      in (ny, nm, nd))"

definition add_months_to_days :: "i64 \<Rightarrow> i64 \<Rightarrow> i64" where
  "add_months_to_days z months =
     (let (y, m, d) = civil_from_days z;
          (ny, nm, nd) = add_months y m d months
      in days_from_civil ny nm nd)"

definition quarter_of_month :: "u32 \<Rightarrow> u32" where
  "quarter_of_month month = (month - 1) sdiv 3 + 1"

text \<open>
  The conversions with the overflow checks of a debug build: \<open>None\<close> where the source panics.
\<close>

definition days_from_civil_chk :: "i64 \<Rightarrow> u32 \<Rightarrow> u32 \<Rightarrow> i64 option" where
  "days_from_civil_chk y m d =
     Option.bind (to_i64 (if m \<le> 2 then y - 1 else y)) (\<lambda>y.
     Option.bind (to_i64 (if 0 \<le> y then y else y - 399)) (\<lambda>num.
     Option.bind (to_i64 (num sdiv 400)) (\<lambda>era.
     Option.bind (to_i64 (era * 400)) (\<lambda>e400.
     Option.bind (to_i64 (y - e400)) (\<lambda>yoe.
     Option.bind (to_i64 ((153 * (if m > 2 then m - 3 else m + 9) + 2) sdiv 5 + d - 1)) (\<lambda>doy.
     Option.bind (to_i64 (yoe * 365 + yoe sdiv 4 - yoe sdiv 100 + doy)) (\<lambda>doe.
     Option.bind (to_i64 (era * 146097)) (\<lambda>base.
     Option.bind (to_i64 (base + doe)) (\<lambda>s.
     to_i64 (s - 719468))))))))))"

definition civil_from_days_chk :: "i64 \<Rightarrow> (i64 \<times> u32 \<times> u32) option" where
  "civil_from_days_chk z =
     Option.bind (to_i64 (z + 719468)) (\<lambda>z.
     Option.bind (to_i64 (if 0 \<le> z then z else z - 146096)) (\<lambda>num.
     Option.bind (to_i64 (num sdiv 146097)) (\<lambda>era.
     Option.bind (to_i64 (era * 146097)) (\<lambda>base.
     Option.bind (to_i64 (z - base)) (\<lambda>doe.
     Option.bind (to_i64 ((doe - doe sdiv 1460 + doe sdiv 36524 - doe sdiv 146096) sdiv 365)) (\<lambda>yoe.
     Option.bind (to_i64 (era * 400)) (\<lambda>e400.
     Option.bind (to_i64 (yoe + e400)) (\<lambda>y.
     Option.bind (to_i64 (doe - (365 * yoe + yoe sdiv 4 - yoe sdiv 100))) (\<lambda>doy.
     Option.bind (to_i64 ((5 * doy + 2) sdiv 153)) (\<lambda>mp.
     let d = doy - (153 * mp + 2) sdiv 5 + 1;
         m = (if mp < 10 then mp + 3 else mp - 9)
     in Option.bind (to_i64 (if m \<le> 2 then y + 1 else y)) (\<lambda>y. Some (y, m, d))))))))))))"

section \<open>Reference calendar\<close>

text \<open>A civil date of the calendar, and the date on the next page.\<close>

definition valid_date :: "i64 \<times> u32 \<times> u32 \<Rightarrow> bool" where
  "valid_date = (\<lambda>(y, m, d). 1 \<le> m \<and> m \<le> 12 \<and> 1 \<le> d \<and> d \<le> days_in_month y m)"

definition next_day :: "i64 \<times> u32 \<times> u32 \<Rightarrow> i64 \<times> u32 \<times> u32" where
  "next_day = (\<lambda>(y, m, d).
     if d < days_in_month y m then (y, m, d + 1)
     else if m < 12 then (y, m + 1, 1)
     else (y + 1, 1, 1))"

section \<open>The shifted year\<close>

text \<open>
  Both conversions work on a year that starts on March 1. \<open>mdoy\<close> is the day of that year,
  \<open>mdays\<close> the first day of it, counted from 0000-03-01.
\<close>

definition mdays :: "int \<Rightarrow> int" where
  "mdays y = 365 * y + y div 4 - y div 100 + y div 400"

definition mdoy :: "int \<Rightarrow> int" where
  "mdoy mp = (153 * mp + 2) div 5"

lemma is_leap_alt: "is_leap y \<longleftrightarrow> y mod 4 = 0 \<and> y mod 100 \<noteq> 0 \<or> y mod 400 = 0"
  by (simp add: is_leap_def rust_arith mod_eq_0_iff_dvd)

lemma mdays_Suc: "mdays (y + 1) = mdays y + (if is_leap (y + 1) then 366 else 365)"
proof -
  have "4 dvd y + 1" if "100 dvd y + 1" using that by (rule dvd_trans [rotated]) simp
  moreover have "100 dvd y + 1" if "400 dvd y + 1" using that by (rule dvd_trans [rotated]) simp
  ultimately show ?thesis
    by (auto simp: mdays_def is_leap_alt div_plus1 mod_eq_0_iff_dvd)
qed

lemma era_split: "y = 400 * (y div 400) + y mod 400" for y :: int
  by simp

lemma mdays_era:
  "146097 * (y div 400) + ((y mod 400) * 365 + (y mod 400) div 4 - (y mod 400) div 100) = mdays y"
proof -
  define e r where "e = y div 400" and "r = y mod 400"
  have y: "y = 400 * e + r" and r: "0 \<le> r" "r < 400" by (simp_all add: e_def r_def)
  have d4: "y div 4 = 100 * e + r div 4"
    using div_mult_self2 [of 4 r "100 * e"] by (simp add: y algebra_simps)
  have d100: "y div 100 = 4 * e + r div 100"
    using div_mult_self2 [of 100 r "4 * e"] by (simp add: y algebra_simps)
  have "mdays y = 365 * (400 * e + r) + (100 * e + r div 4) - (4 * e + r div 100) + e"
    unfolding mdays_def d4 d100 e_def [symmetric] using y by (simp only:)
  then show ?thesis unfolding e_def [symmetric] r_def [symmetric] by (simp only: algebra_simps)
qed

lemma days_from_civil_alt:
  assumes "1 \<le> m" "m \<le> 12"
  shows "days_from_civil y m d =
    (if m \<le> 2 then mdays (y - 1) + mdoy (m + 9) else mdays y + mdoy (m - 3)) + d - 1 - 719468"
proof -
  let ?y = "if m \<le> 2 then y - 1 else y"
  have era: "(if 0 \<le> ?y then ?y else ?y - 399) sdiv 400 = ?y div 400"
    using trunc_floor_div [of 400 ?y] by (simp only: split: if_split) auto
  have yoe: "?y - ?y div 400 * 400 = ?y mod 400"
    by (simp add: minus_div_mult_eq_mod)
  have "0 \<le> ?y mod 400" by simp
  note q = this [THEN sdiv_nonneg, of 4] this [THEN sdiv_nonneg, of 100]
  have doy: "(153 * (if m > 2 then m - 3 else m + 9) + 2) sdiv 5
      = mdoy (if m \<le> 2 then m + 9 else m - 3)"
    using assms by (simp add: mdoy_def rust_arith)
  have "days_from_civil y m d = (?y div 400) * 146097
      + ((?y mod 400) * 365 + (?y mod 400) div 4 - (?y mod 400) div 100
         + (mdoy (if m \<le> 2 then m + 9 else m - 3) + d - 1)) - 719468"
    unfolding days_from_civil_def Let_def era yoe doy using q by simp
  also have "\<dots> = mdays ?y + mdoy (if m \<le> 2 then m + 9 else m - 3) + d - 1 - 719468"
    using mdays_era [of ?y] by simp
  finally show ?thesis by simp
qed

lemma year_of_era:
  fixes c q r doy :: int
  assumes c: "0 \<le> c" "c \<le> 3" and q: "0 \<le> q" "q \<le> 24" and r: "0 \<le> r" "r \<le> 3"
    and doy: "0 \<le> doy" "doy \<le> 365" and leap: "doy = 365 \<Longrightarrow> r = 3 \<and> (q = 24 \<longrightarrow> c = 3)"
    and doe: "doe = 36524 * c + 1461 * q + 365 * r + doy"
  shows "(doe - doe div 1460 + doe div 36524 - doe div 146096) div 365 = 100 * c + 4 * q + r"
proof -
  define e where "e = 365 * r + doy"
  define carry :: int where "carry = (if 24 * c + q + e \<ge> 1460 then 1 else 0)"
  have e: "0 \<le> e" "e \<le> 1460" and top: "e = 1460 \<Longrightarrow> q = 24 \<Longrightarrow> c = 3"
    using r doy leap by (auto simp: e_def)
  have eq: "doe = 36524 * c + 1461 * q + e" by (simp add: doe e_def)
  have centuries: "doe div 36524 - doe div 146096 = c"
  proof (cases "q = 24 \<and> e = 1460")
    case True
    with top have "doe = 146096" by (simp add: eq)
    with True top show ?thesis by simp
  next
    case False
    then have "1461 * q + e < 36524" using q e by linarith
    then have "doe div 36524 = c" using q e eq by (intro int_div_pos_eq [where r = "1461 * q + e"]) auto
    moreover have "doe div 146096 = 0" using \<open>1461 * q + e < 36524\<close> c q e eq by simp
    ultimately show ?thesis by simp
  qed
  have quads: "doe div 1460 = 25 * c + q + carry"
    using c q e eq by (intro int_div_pos_eq [where r = "24 * c + q + e - 1460 * carry"])
      (auto simp: carry_def)
  have "doy \<le> 364 \<or> r = 3" using doy leap by (cases "doy = 365") auto
  then have "(e - carry) div 365 = r"
    using c q r doy e
    by (intro int_div_pos_eq [where r = "e - carry - 365 * r"]) (auto simp: carry_def e_def split: if_splits)
  moreover have "doe - doe div 1460 + doe div 36524 - doe div 146096
      = (100 * c + 4 * q) * 365 + (e - carry)"
    using centuries quads eq by simp
  ultimately show ?thesis by simp
qed

lemma is_leap_next:
  fixes y :: int
  defines "n \<equiv> y mod 400"
  shows "is_leap (y + 1) \<longleftrightarrow> n mod 4 = 3 \<and> ((n mod 100) div 4 = 24 \<longrightarrow> n div 100 = 3)"
proof -
  have n: "0 \<le> n" "n < 400" by (simp_all add: n_def)
  have red: "(y + 1) mod k = (n + 1) mod k" if "k dvd 400" for k
    using that unfolding n_def by (metis mod_add_left_eq mod_mod_cancel)
  from red [of 4] red [of 100] red [of 400]
  have "is_leap (y + 1) \<longleftrightarrow> (n + 1) mod 4 = 0 \<and> (n + 1) mod 100 \<noteq> 0 \<or> (n + 1) mod 400 = 0"
    by (simp add: is_leap_alt)
  also have "(n + 1) mod 400 = 0 \<longleftrightarrow> n = 399" using n by (cases "n = 399") auto
  finally have leap: "is_leap (y + 1) \<longleftrightarrow> (n + 1) mod 4 = 0 \<and> (n + 1) mod 100 \<noteq> 0 \<or> n = 399" .
  define a b where "a = n div 100" and "b = n mod 100"
  have nab: "n = 100 * a + b" and b: "0 \<le> b" "b < 100" by (simp_all add: a_def b_def)
  have a: "0 \<le> a" "a \<le> 3" using n nab b by linarith+
  have n100: "(n + 1) mod 100 = 0 \<longleftrightarrow> b = 99"
  proof -
    have "(n + 1) mod 100 = (b + 1) mod 100" by (simp add: b_def mod_add_left_eq)
    then show ?thesis using b by (cases "b = 99") auto
  qed
  have n4: "n mod 4 = b mod 4" by (simp add: b_def mod_mod_cancel)
  have "(n + 1) mod 4 = 0 \<longleftrightarrow> b mod 4 = 3" unfolding n4 [symmetric] by presburger
  moreover have "b mod 4 = 3 \<Longrightarrow> b div 4 = 24 \<longleftrightarrow> b = 99" using b by presburger
  moreover have "n = 399 \<longleftrightarrow> a = 3 \<and> b = 99" using nab a b by linarith
  ultimately show ?thesis unfolding leap n100 n4 a_def [symmetric] b_def [symmetric] by auto
qed

definition year_len :: "int \<Rightarrow> int" where
  "year_len y = (if is_leap (y + 1) then 366 else 365)"

lemma year_len_bounds: "365 \<le> year_len y" "year_len y \<le> 366"
  by (simp_all add: year_len_def)

lemma mdays_step: "mdays (y + 1) = mdays y + year_len y"
  by (simp add: mdays_Suc year_len_def)

lemma mdays_cover: "\<exists>y doy. z = mdays y + doy \<and> 0 \<le> doy \<and> doy < year_len y"
proof (induction z rule: int_induct [where k = 0])
  case base
  have "0 = mdays 0 + 0" by (simp add: mdays_def)
  then show ?case using year_len_bounds [of 0] by force
next
  case (step1 z)
  then obtain y doy where z: "z = mdays y + doy" "0 \<le> doy" "doy < year_len y" by blast
  show ?case
  proof (cases "doy + 1 < year_len y")
    case True
    with z show ?thesis by (intro exI [of _ y] exI [of _ "doy + 1"]) auto
  next
    case False
    with z have "z + 1 = mdays (y + 1) + 0" by (simp add: mdays_step)
    then show ?thesis using year_len_bounds [of "y + 1"] by (intro exI [of _ "y + 1"] exI [of _ 0]) auto
  qed
next
  case (step2 z)
  then obtain y doy where z: "z = mdays y + doy" "0 \<le> doy" "doy < year_len y" by blast
  show ?case
  proof (cases "0 < doy")
    case True
    with z show ?thesis by (intro exI [of _ y] exI [of _ "doy - 1"]) auto
  next
    case False
    with z have "z - 1 = mdays (y - 1) + (year_len (y - 1) - 1)" using mdays_step [of "y - 1"] by simp
    then show ?thesis using year_len_bounds [of "y - 1"]
      by (intro exI [of _ "y - 1"] exI [of _ "year_len (y - 1) - 1"]) auto
  qed
qed

lemma era_of_mdays:
  assumes "0 \<le> doy" "doy < year_len y"
  defines "doe \<equiv> (y mod 400) * 365 + (y mod 400) div 4 - (y mod 400) div 100 + doy"
  shows "(mdays y + doy) div 146097 = y div 400"
    and "mdays y + doy - (y div 400) * 146097 = doe"
    and "0 \<le> doe"
    and "(doe - doe div 1460 + doe div 36524 - doe div 146096) div 365 = y mod 400"
proof -
  define n c q r where "n = y mod 400" and "c = n div 100" and "q = (n mod 100) div 4" and "r = n mod 4"
  have n: "0 \<le> n" "n < 400" by (simp_all add: n_def)
  have "n mod 4 = (n mod 100) mod 4" by (simp add: mod_mod_cancel)
  then have split: "n = 100 * c + 4 * q + r" by (simp add: c_def q_def r_def)
  have r: "0 \<le> r" "r \<le> 3" using pos_mod_bound [of 4 n] by (simp_all add: r_def)
  have c: "0 \<le> c" "c \<le> 3" using n by (simp_all add: c_def pos_imp_zdiv_nonneg_iff)
  have q: "0 \<le> q" "q \<le> 24" using pos_mod_bound [of 100 n] by (simp_all add: q_def pos_imp_zdiv_nonneg_iff)
  have doy: "doy \<le> 365" "doy = 365 \<Longrightarrow> r = 3 \<and> (q = 24 \<longrightarrow> c = 3)"
    using assms(2) is_leap_next [of y] unfolding n_def [symmetric] r_def q_def c_def
    by (auto simp: year_len_def split: if_splits)
  have "n div 4 = 25 * c + q" and "n div 100 = c" using split r q by (auto simp: c_def q_def) linarith+
  then have doe: "doe = 36524 * c + 1461 * q + 365 * r + doy"
    unfolding doe_def n_def [symmetric] by (simp add: split)
  show "(doe - doe div 1460 + doe div 36524 - doe div 146096) div 365 = y mod 400"
    using year_of_era [OF c q r assms(1) doy doe] split by (simp add: n_def)
  show "0 \<le> doe" using doe c q r assms(1) by simp
  have eq: "mdays y + doy = 146097 * (y div 400) + doe" by (simp add: mdays_era [symmetric] doe_def)
  have "doe < 146097" using doe c q r doy by (cases "doy = 365") auto
  with eq \<open>0 \<le> doe\<close> show "(mdays y + doy) div 146097 = y div 400" by (intro int_div_pos_eq) auto
  show "mdays y + doy - (y div 400) * 146097 = doe" using eq by simp
qed

lemma civil_from_days_shifted:
  assumes "0 \<le> doy" "doy < year_len y"
  shows "civil_from_days (mdays y + doy - 719468) =
    (let mp = (5 * doy + 2) div 153; m = (if mp < 10 then mp + 3 else mp - 9)
     in (if m \<le> 2 then y + 1 else y, m, doy - mdoy mp + 1))"
proof -
  note era = era_of_mdays [OF assms]
  let ?n = "y mod 400" and ?z = "mdays y + doy"
  define doe where "doe = ?n * 365 + ?n div 4 - ?n div 100 + doy"
  have e: "(if 0 \<le> ?z then ?z else ?z - 146096) sdiv 146097 = y div 400"
    using trunc_floor_div [of 146097 ?z] era(1) by (simp only: split: if_split) auto
  have doe: "?z - (y div 400) * 146097 = doe" "0 \<le> doe" using era(2,3) by (simp_all add: doe_def)
  have nn: "0 \<le> ?n" by simp
  have f: "0 \<le> doe - doe div 1460 + doe div 36524 - doe div 146096"
    using era(4) nn unfolding doe_def [symmetric] by (simp add: pos_imp_zdiv_nonneg_iff [symmetric])
  have yoe: "(doe - doe sdiv 1460 + doe sdiv 36524 - doe sdiv 146096) sdiv 365 = ?n"
    using era(4) f doe(2) unfolding doe_def [symmetric] by (simp add: rust_arith)
  have doy: "doe - (365 * ?n + ?n sdiv 4 - ?n sdiv 100) = doy"
    using nn by (simp add: doe_def rust_arith)
  have mp: "(5 * doy + 2) sdiv 153 = (5 * doy + 2) div 153" using assms(1) by (simp add: rust_arith)
  have "0 \<le> (5 * doy + 2) div 153" using assms(1) by (simp add: pos_imp_zdiv_nonneg_iff)
  then have md: "(153 * ((5 * doy + 2) div 153) + 2) sdiv 5 = mdoy ((5 * doy + 2) div 153)"
    by (simp add: mdoy_def rust_arith)
  have year: "?n + (y div 400) * 400 = y" by simp
  have z: "?z - 719468 + 719468 = ?z" by simp
  show ?thesis
    unfolding civil_from_days_def Let_def z e doe(1) yoe doy mp md year ..
qed

section \<open>Civil dates and day counts\<close>

lemma month_cases:
  assumes "1 \<le> m" "m \<le> (12::int)"
  obtains "m = 1" | "m = 2" | "m = 3" | "m = 4" | "m = 5" | "m = 6"
    | "m = 7" | "m = 8" | "m = 9" | "m = 10" | "m = 11" | "m = 12"
proof -
  have "m \<in> set [1..12]" using assms by simp
  then have "m \<in> {1, 2, 3, 4, 5, 6, 7, 8, 9, 10, 11, 12}" by (simp add: upto.simps)
  with that show thesis by auto
qed

lemma mp_of_doy:
  assumes "1 \<le> m" "m \<le> 12" "1 \<le> d" "d \<le> days_in_month y m"
  defines "mp \<equiv> (if m \<le> 2 then m + 9 else m - 3)"
  shows "(5 * (mdoy mp + d - 1) + 2) div 153 = mp"
    and "0 \<le> mdoy mp + d - 1"
    and "mdoy mp + d - 1 < year_len (if m \<le> 2 then y - 1 else y)"
proof -
  note d = assms(3,4)
  show "(5 * (mdoy mp + d - 1) + 2) div 153 = mp"
    by (rule month_cases [OF assms(1,2)]) (use d in \<open>auto simp: mp_def days_in_month_def mdoy_def split: if_splits\<close>)
  show "0 \<le> mdoy mp + d - 1"
    using assms(1,2) d by (auto simp: mp_def mdoy_def pos_imp_zdiv_nonneg_iff)
  show "mdoy mp + d - 1 < year_len (if m \<le> 2 then y - 1 else y)"
    by (rule month_cases [OF assms(1,2)])
      (use d in \<open>auto simp: mp_def days_in_month_def mdoy_def year_len_def split: if_splits\<close>)
qed

lemma civil_days_civil:
  assumes "valid_date (y, m, d)"
  shows "civil_from_days (days_from_civil y m d) = (y, m, d)"
proof -
  let ?y = "if m \<le> 2 then y - 1 else y" and ?mp = "if m \<le> 2 then m + 9 else m - 3"
  have v: "1 \<le> m" "m \<le> 12" "1 \<le> d" "d \<le> days_in_month y m"
    using assms by (simp_all add: valid_date_def)
  note mp = mp_of_doy [OF v]
  have "days_from_civil y m d = mdays ?y + (mdoy ?mp + d - 1) - 719468"
    using v by (simp add: days_from_civil_alt)
  then have "civil_from_days (days_from_civil y m d) =
      (let m' = (if ?mp < 10 then ?mp + 3 else ?mp - 9)
       in (if m' \<le> 2 then ?y + 1 else ?y, m', d))"
    using civil_from_days_shifted [OF mp(2,3)] mp(1) by (simp add: Let_def)
  then show ?thesis using v by (auto simp: Let_def split: if_splits)
qed

lemma doy_cover:
  assumes "0 \<le> doy" "doy < year_len y"
  obtains m d where "1 \<le> m" "m \<le> 12" "1 \<le> d" "d \<le> days_in_month (if m \<le> 2 then y + 1 else y) m"
    "doy = mdoy (if m \<le> 2 then m + 9 else m - 3) + d - 1"
proof -
  define mp where "mp = (5 * doy + 2) div 153"
  have lo: "153 * mp \<le> 5 * doy + 2" and hi: "5 * doy + 2 < 153 * mp + 153"
    unfolding mp_def by linarith+
  have le: "doy \<le> 365" using assms(2) year_len_bounds(2) [of y] by simp
  have mp: "0 \<le> mp" "mp \<le> 11" using lo hi le assms(1) by linarith+
  have start: "mdoy mp \<le> doy" using lo unfolding mdoy_def by linarith
  have "5 * (doy + 1) div 5 \<le> mdoy (mp + 1)"
    unfolding mdoy_def by (rule zdiv_mono1) (use hi in simp_all)
  then have stop: "doy < mdoy (mp + 1)" by simp
  define m where "m = (if mp < 10 then mp + 3 else mp - 9)"
  have m: "1 \<le> m" "m \<le> 12" and mp_m: "mp = (if m \<le> 2 then m + 9 else m - 3)"
    using mp by (auto simp: m_def)
  have full: "mdoy (mp + 1) \<le> mdoy mp + days_in_month y' m" if "m \<noteq> 2" for y'
    by (rule month_cases [OF m]) (use that in \<open>simp_all add: mp_m mdoy_def days_in_month_def\<close>)
  have feb: "doy < mdoy mp + days_in_month (y + 1) m" if "m = 2"
    using that assms(2) by (auto simp: mp_m mdoy_def days_in_month_def year_len_def split: if_splits)
  have "doy < mdoy mp + days_in_month (if m \<le> 2 then y + 1 else y) m"
  proof (cases "m = 2")
    case True
    with feb show ?thesis by simp
  next
    case False
    from stop full [OF this] show ?thesis by (rule less_le_trans)
  qed
  with that [of m "doy - mdoy mp + 1"] m start show thesis by (simp add: mp_m)
qed

lemma civil_from_days_ex:
  "\<exists>y m d. valid_date (y, m, d) \<and> days_from_civil y m d = z"
proof -
  obtain y doy where z: "z + 719468 = mdays y + doy" and doy: "0 \<le> doy" "doy < year_len y"
    using mdays_cover by blast
  obtain m d where md: "1 \<le> m" "m \<le> 12" "1 \<le> d" "d \<le> days_in_month (if m \<le> 2 then y + 1 else y) m"
    and eq: "doy = mdoy (if m \<le> 2 then m + 9 else m - 3) + d - 1"
    using doy_cover [OF doy] .
  have "days_from_civil (if m \<le> 2 then y + 1 else y) m d = z"
    using md z eq by (auto simp: days_from_civil_alt split: if_splits)
  with md show ?thesis by (auto simp: valid_date_def)
qed

lemma valid_civil [simp, intro]: "valid_date (civil_from_days z)"
  using civil_from_days_ex [of z] by (auto simp: civil_days_civil)

lemma days_civil_days:
  "civil_from_days z = (y, m, d) \<Longrightarrow> days_from_civil y m d = z"
  using civil_from_days_ex [of z] by (auto simp: civil_days_civil)

lemma civil_from_days_inj: "civil_from_days z = civil_from_days z' \<Longrightarrow> z = z'"
  by (metis days_civil_days prod_cases3)

lemma is_leap_div: "is_leap y \<Longrightarrow> year_len (y - 1) = 366" "\<not> is_leap y \<Longrightarrow> year_len (y - 1) = 365"
  by (simp_all add: year_len_def)

lemma next_day_valid: "valid_date (y, m, d) \<Longrightarrow> valid_date (next_day (y, m, d))"
proof -
  have "1 \<le> days_in_month y' m'" if "1 \<le> m'" "m' \<le> 12" for y' m'
    by (rule month_cases [OF that]) (simp_all add: days_in_month_def)
  then show "valid_date (y, m, d) \<Longrightarrow> valid_date (next_day (y, m, d))"
    by (auto simp: valid_date_def next_day_def)
qed

lemma days_from_civil_next_day:
  assumes "valid_date (y, m, d)"
  shows "(case next_day (y, m, d) of (y', m', d') \<Rightarrow> days_from_civil y' m' d') = days_from_civil y m d + 1"
proof -
  have v: "1 \<le> m" "m \<le> 12" "1 \<le> d" "d \<le> days_in_month y m"
    using assms by (simp_all add: valid_date_def)
  consider (same) "d < days_in_month y m" | (last) "d = days_in_month y m" using v(4) by linarith
  then show ?thesis
  proof cases
    case same
    with v show ?thesis by (simp add: next_day_def days_from_civil_alt)
  next
    case last
    have leap: "mdays y = mdays (y - 1) + (if is_leap y then 366 else 365)"
      using mdays_Suc [of "y - 1"] by simp
    show ?thesis
      by (rule month_cases [OF v(1,2)])
        (use last leap in \<open>simp_all add: next_day_def days_from_civil_alt mdoy_def days_in_month_def\<close>)
  qed
qed

lemma civil_from_days_Suc: "civil_from_days (z + 1) = next_day (civil_from_days z)"
proof -
  obtain y m d where c: "civil_from_days z = (y, m, d)" by (metis prod_cases3)
  have v: "valid_date (y, m, d)" using valid_civil [of z] by (simp add: c)
  obtain y' m' d' where n: "next_day (y, m, d) = (y', m', d')" by (metis prod_cases3)
  have "days_from_civil y' m' d' = z + 1"
    using days_from_civil_next_day [OF v] days_civil_days [OF c] by (simp add: n)
  moreover have "valid_date (y', m', d')" using next_day_valid [OF v] by (simp add: n)
  ultimately show ?thesis using civil_days_civil by (metis c n)
qed

lemma days_from_civil_epoch: "days_from_civil 1970 1 1 = 0"
  by (simp add: days_from_civil_alt mdays_def mdoy_def)

text \<open>The order of day counts is the lexicographic order of civil dates.\<close>

lemma jan1_Suc: "days_from_civil (y + 1) 1 1 = days_from_civil y 1 1 + days_in_year y"
  using mdays_Suc [of "y - 1"] by (simp add: days_from_civil_alt days_in_year_def)

lemma civil_year_bounds:
  assumes "civil_from_days z = (y, m, d)"
  shows "days_from_civil y 1 1 \<le> z" "z < days_from_civil (y + 1) 1 1"
proof -
  have v: "1 \<le> m" "m \<le> 12" "1 \<le> d" "d \<le> days_in_month y m"
    using valid_civil [of z] by (simp_all add: assms valid_date_def)
  have z: "z = days_from_civil y m d" using days_civil_days [OF assms] by simp
  have leap: "mdays y = mdays (y - 1) + (if is_leap y then 366 else 365)"
    using mdays_Suc [of "y - 1"] by simp
  show "days_from_civil y 1 1 \<le> z"
    by (rule month_cases [OF v(1,2)])
      (use v leap in \<open>simp_all add: z days_from_civil_alt mdoy_def days_in_month_def\<close>)
  show "z < days_from_civil (y + 1) 1 1"
    by (rule month_cases [OF v(1,2)])
      (use v leap in \<open>auto simp: z days_from_civil_alt mdoy_def days_in_month_def split: if_splits\<close>)
qed


section \<open>Months as a single index\<close>

definition month_start :: "int \<Rightarrow> int" where
  "month_start k = days_from_civil (k div 12) (k mod 12 + 1) 1"

definition month_len :: "int \<Rightarrow> int" where
  "month_len k = days_in_month (k div 12) (k mod 12 + 1)"

definition month_index :: "i64 \<Rightarrow> int" where
  "month_index z = (case civil_from_days z of (y, m, _) \<Rightarrow> 12 * y + (m - 1))"

definition day_of_month :: "i64 \<Rightarrow> u32" where
  "day_of_month z = (case civil_from_days z of (_, _, d) \<Rightarrow> d)"

lemma month_split:
  fixes y m :: int
  assumes "1 \<le> m" "m \<le> 12"
  shows "(12 * y + (m - 1)) div 12 = y" "(12 * y + (m - 1)) mod 12 + 1 = m"
  using assms by simp_all

lemma month_len_pos: "28 \<le> month_len k" "month_len k \<le> 31"
proof -
  have "1 \<le> k mod 12 + 1" "k mod 12 + 1 \<le> 12" by simp_all
  then show "28 \<le> month_len k" "month_len k \<le> 31"
    unfolding month_len_def by (rule month_cases; simp add: days_in_month_def)+
qed

lemma month_start_Suc: "month_start (k + 1) = month_start k + month_len k"
proof -
  let ?y = "k div 12" and ?m = "k mod 12 + 1"
  have v: "1 \<le> ?m" "?m \<le> 12" by simp_all
  have "days_from_civil ?y ?m (month_len k) + 1 = month_start (k + 1)"
  proof -
    have "valid_date (?y, ?m, month_len k)"
      using month_len_pos(1) [of k] v by (simp add: valid_date_def month_len_def)
    note nd = days_from_civil_next_day [OF this]
    show ?thesis
    proof (cases "?m = 12")
      case True
      then have "(k + 1) div 12 = ?y + 1" "(k + 1) mod 12 = 0" using divmod_plus1(1) [of 12 k] by simp_all
      with nd True show ?thesis by (simp add: next_day_def month_len_def month_start_def)
    next
      case False
      then have "(k + 1) div 12 = ?y" "(k + 1) mod 12 = k mod 12 + 1" using divmod_plus1(2) [of 12 k] by simp_all
      with nd False v show ?thesis by (simp add: next_day_def month_len_def month_start_def add.commute)
    qed
  qed
  then show ?thesis unfolding month_start_def [of k] using v by (simp add: days_from_civil_alt)
qed

lemma month_start_mono: "i \<le> j \<Longrightarrow> month_start i \<le> month_start j"
proof (induction j rule: int_ge_induct)
  case (step j)
  then show ?case using month_len_pos(1) [of j] by (simp add: month_start_Suc)
qed simp

lemma month_index_bounds:
  "month_start (month_index z) \<le> z" "z < month_start (month_index z + 1)"
  "z = month_start (month_index z) + day_of_month z - 1"
  "1 \<le> day_of_month z" "day_of_month z \<le> month_len (month_index z)"
proof -
  obtain y m d where c: "civil_from_days z = (y, m, d)" by (metis prod_cases3)
  have v: "1 \<le> m" "m \<le> 12" "1 \<le> d" "d \<le> days_in_month y m"
    using valid_civil [of z] by (simp_all add: c valid_date_def)
  note ms = month_split [OF v(1,2), of y]
  show z: "z = month_start (month_index z) + day_of_month z - 1"
    using days_civil_days [OF c] v ms
    by (simp add: c month_index_def day_of_month_def month_start_def days_from_civil_alt)
  show d: "1 \<le> day_of_month z" "day_of_month z \<le> month_len (month_index z)"
    using v ms by (simp_all add: c month_index_def day_of_month_def month_len_def)
  show "month_start (month_index z) \<le> z" using z d by linarith
  show "z < month_start (month_index z + 1)" using z d unfolding month_start_Suc by linarith
qed

lemma month_index_unique:
  assumes "month_start k \<le> z" "z < month_start (k + 1)"
  shows "month_index z = k"
proof (rule antisym)
  show "month_index z \<le> k"
    using month_start_mono [of "k + 1" "month_index z"] month_index_bounds(1) [of z] assms(2) by linarith
  show "k \<le> month_index z"
    using month_start_mono [of "month_index z + 1" k] month_index_bounds(2) [of z] assms(1) by linarith
qed

lemma month_index_mono: "z \<le> z' \<Longrightarrow> month_index z \<le> month_index z'"
  using month_start_mono [of "month_index z' + 1" "month_index z"] month_index_bounds(1) [of z]
    month_index_bounds(2) [of z'] by linarith

lemma add_months_to_days_alt:
  "add_months_to_days z n =
     month_start (month_index z + n) + min (day_of_month z) (month_len (month_index z + n)) - 1"
proof -
  obtain y m d where c: "civil_from_days z = (y, m, d)" by (metis prod_cases3)
  let ?k = "y * 12 + (m - 1) + n"
  have "1 \<le> ?k mod 12 + 1" "?k mod 12 + 1 \<le> 12" by simp_all
  then show ?thesis
    by (simp add: add_months_to_days_def add_months_def c month_index_def day_of_month_def
        month_start_def month_len_def Let_def days_from_civil_alt algebra_simps)
qed

lemma month_index_add_months: "month_index (add_months_to_days z n) = month_index z + n"
proof (rule month_index_unique)
  let ?k = "month_index z + n"
  have "1 \<le> min (day_of_month z) (month_len ?k)" using month_index_bounds(4) [of z] month_len_pos(1) [of ?k] by simp
  then show "month_start ?k \<le> add_months_to_days z n" by (simp add: add_months_to_days_alt)
  show "add_months_to_days z n < month_start (?k + 1)"
    unfolding month_start_Suc by (simp add: add_months_to_days_alt)
qed

lemma day_of_month_add_months:
  "day_of_month (add_months_to_days z n) = min (day_of_month z) (month_len (month_index z + n))"
  using month_index_bounds(3) [of "add_months_to_days z n"]
  by (simp add: month_index_add_months) (simp add: add_months_to_days_alt)

lemma add_months_mono: "n \<le> k \<Longrightarrow> add_months_to_days z n \<le> add_months_to_days z k"
proof (cases "n = k")
  case False
  assume "n \<le> k"
  with False have "month_index z + n + 1 \<le> month_index z + k" by simp
  then have "month_start (month_index z + n + 1) \<le> month_start (month_index z + k)" by (rule month_start_mono)
  then show ?thesis
    using month_index_bounds(2) [of "add_months_to_days z n"] month_index_bounds(1) [of "add_months_to_days z k"]
    by (simp add: month_index_add_months)
qed simp

lemma add_months_0 [simp]: "add_months_to_days z 0 = z"
  using month_index_bounds(3,5) [of z] by (simp add: add_months_to_days_alt)

section \<open>Ordinal days and ISO weeks\<close>

lemma jan1_mono: "y \<le> y' \<Longrightarrow> days_from_civil y 1 1 \<le> days_from_civil y' 1 1"
proof (induction y' rule: int_ge_induct)
  case (step y')
  then show ?case by (simp add: jan1_Suc days_in_year_def)
qed simp

lemma civil_year_unique:
  assumes "days_from_civil y 1 1 \<le> z" "z < days_from_civil (y + 1) 1 1"
  shows "fst (civil_from_days z) = y"
proof -
  obtain y' m d where c: "civil_from_days z = (y', m, d)" by (metis prod_cases3)
  note b = civil_year_bounds [OF c]
  have "y' \<le> y" using jan1_mono [of "y + 1" y'] b assms by linarith
  moreover have "y \<le> y'" using jan1_mono [of "y' + 1" y] b assms by linarith
  ultimately show ?thesis by (simp add: c)
qed

lemma ordinal_bounds: "1 \<le> ordinal z" "ordinal z \<le> days_in_year (fst (civil_from_days z))"
proof -
  obtain y m d where c: "civil_from_days z = (y, m, d)" by (metis prod_cases3)
  show "1 \<le> ordinal z" "ordinal z \<le> days_in_year (fst (civil_from_days z))"
    using civil_year_bounds [OF c] jan1_Suc [of y] by (simp_all add: ordinal_def c)
qed

lemma from_ordinal_ordinal: "from_ordinal (fst (civil_from_days z)) (ordinal z) = Some z"
  using ordinal_bounds [of z] by (auto simp: from_ordinal_def ordinal_def split: prod.splits)

lemma ordinal_from_ordinal:
  assumes "from_ordinal y n = Some z"
  shows "fst (civil_from_days z) = y" "ordinal z = n"
proof -
  from assms have z: "z = days_from_civil y 1 1 + n - 1" and n: "1 \<le> n" "n \<le> days_in_year y"
    by (auto simp: from_ordinal_def split: if_splits)
  then show y: "fst (civil_from_days z) = y" by (intro civil_year_unique) (simp_all add: jan1_Suc)
  then show "ordinal z = n" by (auto simp: ordinal_def z split: prod.splits)
qed

text \<open>The Monday of ISO week 1, as \<open>from_iso_ywd\<close> computes it.\<close>

definition week1_monday :: "i64 \<Rightarrow> i64" where
  "week1_monday y = days_from_civil y 1 4 - (iso_weekday (days_from_civil y 1 4) - 1)"

lemma week1_monday_alt:
  "week1_monday y = days_from_civil y 1 1 + 3 - (days_from_civil y 1 1 + 6) mod 7"
proof -
  have "days_from_civil y 1 4 = days_from_civil y 1 1 + 3" by (simp add: days_from_civil_alt)
  then show ?thesis by (simp add: week1_monday_def iso_weekday_def EPOCH_ISO_WEEKDAY_OFFSET_def add.commute)
qed

lemma week1_monday_is_monday: "(week1_monday y + 3) mod 7 = 0"
  unfolding week1_monday_alt by presburger

lemma week1_monday_near:
  "days_from_civil y 1 1 - 3 \<le> week1_monday y" "week1_monday y \<le> days_from_civil y 1 1 + 3"
  unfolding week1_monday_alt by presburger+

lemma week1_monday_Suc: "week1_monday (y + 1) = week1_monday y + 7 * iso_weeks_in_year y"
proof -
  define J where "J = days_from_civil y 1 1"
  have J': "days_from_civil (y + 1) 1 1 = J + (if is_leap y then 366 else 365)"
    by (simp add: jan1_Suc days_in_year_def J_def)
  have w: "iso_weeks_in_year y = (if (J + 3) mod 7 = 3 \<or> (J + 3) mod 7 = 2 \<and> is_leap y then 53 else 52)"
    by (simp add: iso_weeks_in_year_def iso_weekday_def EPOCH_ISO_WEEKDAY_OFFSET_def J_def)
  define c e where "c = (J - 1) div 7" and "e = (J - 1) mod 7"
  have J: "J = 7 * c + e + 1" and e: "0 \<le> e" "e < 7" by (simp_all add: c_def e_def)
  show ?thesis
    unfolding week1_monday_alt J' w J_def [symmetric] J
    by (rule seven_cases [OF e]) simp_all
qed

lemma iso_weeks_bounds: "52 \<le> iso_weeks_in_year y" "iso_weeks_in_year y \<le> 53"
  by (simp_all add: iso_weeks_in_year_def Let_def)

lemma week1_monday_mono: "y \<le> y' \<Longrightarrow> week1_monday y \<le> week1_monday y'"
proof (induction y' rule: int_ge_induct)
  case (step y')
  then show ?case using iso_weeks_bounds [of y'] by (simp add: week1_monday_Suc)
qed simp

lemma iso_week_bounds:
  assumes "iso_week z = (iy, w)"
  shows "week1_monday iy \<le> z" "z < week1_monday (iy + 1)" "w = (z - week1_monday iy) div 7 + 1"
proof -
  obtain y m d where c: "civil_from_days z = (y, m, d)" by (metis prod_cases3)
  note b = civil_year_bounds [OF c]
  define J M where "J = days_from_civil y 1 1" and "M = week1_monday y"
  have MJ: "M = J + 3 - (J + 6) mod 7" by (simp add: M_def J_def week1_monday_alt)
  have "0 \<le> ordinal z - iso_weekday z + 10"
    using ordinal_bounds(1) [of z] by (simp add: iso_weekday_def)
  then have trunc: "(ordinal z - iso_weekday z + 10) sdiv 7 = (ordinal z - iso_weekday z + 10) div 7"
    by (simp add: rust_arith)
  have ord: "ordinal z - iso_weekday z + 10 = z - J + 10 - (z + 3) mod 7"
    by (simp add: ordinal_def c J_def iso_weekday_def EPOCH_ISO_WEEKDAY_OFFSET_def)
  have "(z - J + 10 - (z + 3) mod 7) div 7 = (z - M) div 7 + 1"
  proof -
    define a b c e where "a = (z + 3) div 7" and "b = (z + 3) mod 7"
      and "c = (J + 6) div 7" and "e = (J + 6) mod 7"
    have z: "z = 7 * a + b - 3" and J: "J = 7 * c + e - 6" by (simp_all add: a_def b_def c_def e_def)
    have r: "0 \<le> b" "b < 7" "0 \<le> e" "e < 7" by (simp_all add: b_def e_def)
    have "(z - J + 10 - b) div 7 = a - c + 1"
      using z J r by (intro int_div_pos_eq [where r = "6 - e"]) simp_all
    moreover have "(z - M) div 7 = a - c"
      using z J r MJ by (intro int_div_pos_eq [where r = b]) (simp_all flip: e_def)
    ultimately have "(z - J + 10 - b) div 7 = (z - M) div 7 + 1" by simp
    then show ?thesis by (simp add: b_def)
  qed
  then have week: "(ordinal z - iso_weekday z + 10) sdiv 7 = (z - M) div 7 + 1"
    unfolding trunc unfolding ord .
  note near = week1_monday_near [of y] week1_monday_near [of "y + 1"]
  consider (before) "z < M" | (after) "week1_monday (y + 1) \<le> z" | (inside) "M \<le> z" "z < week1_monday (y + 1)"
    by linarith
  then have "week1_monday iy \<le> z \<and> z < week1_monday (iy + 1) \<and> w = (z - week1_monday iy) div 7 + 1"
  proof cases
    case before
    then have neg: "(z - M) div 7 + 1 < 1" by (simp add: M_def div_int_pos_iff)
    with week assms have iy: "iy = y - 1" "w = iso_weeks_in_year (y - 1)"
      by (auto simp: iso_week_def c Let_def)
    have prev: "M = week1_monday (y - 1) + 7 * iso_weeks_in_year (y - 1)"
      using week1_monday_Suc [of "y - 1"] by (simp add: M_def)
    have "M - 7 \<le> z" using near b by (simp add: M_def)
    with before prev have "z - week1_monday (y - 1) = 7 * (iso_weeks_in_year (y - 1) - 1) + (z - M + 7)"
      "0 \<le> z - M + 7" "z - M + 7 < 7" by simp_all
    then have "(z - week1_monday (y - 1)) div 7 = iso_weeks_in_year (y - 1) - 1" by (rule int_div_pos_eq)
    with before prev \<open>M - 7 \<le> z\<close> iso_weeks_bounds [of "y - 1"] show ?thesis by (simp add: iy M_def)
  next
    case after
    then have "7 * iso_weeks_in_year y \<le> z - M" using week1_monday_Suc [of y] by (simp add: M_def)
    then have "iso_weeks_in_year y < (z - M) div 7 + 1" by simp
    with week assms iso_weeks_bounds [of y] have iy: "iy = y + 1" "w = 1"
      by (simp_all add: iso_week_def c Let_def)
    have "z < week1_monday (y + 1) + 7" using near b by simp
    with after iso_weeks_bounds [of "y + 1"] show ?thesis
      using week1_monday_Suc [of "y + 1"] by (simp add: iy)
  next
    case inside
    then have "z - M < 7 * iso_weeks_in_year y" using week1_monday_Suc [of y] by (simp add: M_def)
    then have "(z - M) div 7 < iso_weeks_in_year y" by linarith
    moreover have "0 \<le> (z - M) div 7" using inside by (simp add: pos_imp_zdiv_nonneg_iff)
    ultimately have "iy = y" "w = (z - M) div 7 + 1"
      using week assms by (simp_all add: iso_week_def c Let_def)
    with inside show ?thesis by (simp add: M_def)
  qed
  then show "week1_monday iy \<le> z" "z < week1_monday (iy + 1)" "w = (z - week1_monday iy) div 7 + 1"
    by blast+
qed

lemma from_iso_ywd_alt:
  "from_iso_ywd y w wd = (if 1 \<le> wd \<and> wd \<le> 7 \<and> 1 \<le> w \<and> w \<le> iso_weeks_in_year y
     then Some (week1_monday y + (w - 1) * 7 + (wd - 1)) else None)"
  by (auto simp: from_iso_ywd_def week1_monday_def Let_def)

lemma iso_week_in_range:
  assumes "iso_week z = (iy, w)"
  shows "1 \<le> w" "w \<le> iso_weeks_in_year iy"
proof -
  note b = iso_week_bounds [OF assms]
  show "1 \<le> w" using b(1,3) by (simp add: pos_imp_zdiv_nonneg_iff)
  have "z - week1_monday iy < 7 * iso_weeks_in_year iy" using b(2) by (simp add: week1_monday_Suc)
  then show "w \<le> iso_weeks_in_year iy" using b(3) by linarith
qed

lemma iso_roundtrip:
  "from_iso_ywd (fst (iso_week z)) (snd (iso_week z)) (iso_weekday z) = Some z"
proof -
  obtain iy w where i: "iso_week z = (iy, w)" by (metis prod.exhaust)
  note b = iso_week_bounds [OF i] and r = iso_week_in_range [OF i]
  define a t c where "a = (z + 3) div 7" and "t = (z + 3) mod 7" and "c = (week1_monday iy + 3) div 7"
  have z: "z = 7 * a + t - 3" and t: "0 \<le> t" "t < 7" by (simp_all add: a_def t_def)
  have M: "week1_monday iy = 7 * c - 3"
    using week1_monday_is_monday [of iy] div_mult_mod_eq [of "week1_monday iy + 3" 7] by (simp add: c_def)
  have "(z - week1_monday iy) div 7 = a - c" using z M t by (intro int_div_pos_eq [where r = t]) simp_all
  then have "week1_monday iy + 7 * ((z - week1_monday iy) div 7) + (z + 3) mod 7 = z"
    unfolding t_def [symmetric] using z M by simp
  then show ?thesis
    using b r by (simp add: i from_iso_ywd_alt iso_weekday_def EPOCH_ISO_WEEKDAY_OFFSET_def zle_add1_eq_le)
qed

lemma iso_of_from_iso_ywd:
  assumes "from_iso_ywd y w wd = Some z"
  shows "iso_week z = (y, w)" "iso_weekday z = wd"
proof -
  from assms have z: "z = week1_monday y + (w - 1) * 7 + (wd - 1)"
    and r: "1 \<le> wd" "wd \<le> 7" "1 \<le> w" "w \<le> iso_weeks_in_year y"
    by (auto simp: from_iso_ywd_alt split: if_splits)
  obtain iy w' where i: "iso_week z = (iy, w')" by (metis prod.exhaust)
  note b = iso_week_bounds [OF i]
  have lo: "week1_monday y \<le> z" using z r by simp
  have hi: "z < week1_monday (y + 1)" using z r by (simp add: week1_monday_Suc)
  have "iy \<le> y" using week1_monday_mono [of "y + 1" iy] b hi by linarith
  moreover have "y \<le> iy" using week1_monday_mono [of "iy + 1" y] b lo by linarith
  ultimately have iy: "iy = y" by simp
  have "(z - week1_monday y) div 7 = w - 1"
    using r by (intro int_div_pos_eq [where r = "wd - 1"]) (simp_all add: z)
  with b iy i show "iso_week z = (y, w)" by simp
  have "(z + 3) mod 7 = wd - 1"
    using week1_monday_is_monday [of y] r unfolding z by presburger
  then show "iso_weekday z = wd" by (simp add: iso_weekday_def EPOCH_ISO_WEEKDAY_OFFSET_def)
qed


section \<open>Order and range\<close>

lemma days_less_iff:
  "z < z' \<longleftrightarrow> month_index z < month_index z' \<or> month_index z = month_index z' \<and> day_of_month z < day_of_month z'"
proof (cases "month_index z" "month_index z'" rule: linorder_cases)
  case less
  then have "month_start (month_index z + 1) \<le> month_start (month_index z')" by (intro month_start_mono) simp
  with less show ?thesis using month_index_bounds(2) [of z] month_index_bounds(1) [of z'] by simp
next
  case equal
  then show ?thesis using month_index_bounds(3) [of z] month_index_bounds(3) [of z'] by auto
next
  case greater
  then have "month_start (month_index z' + 1) \<le> month_start (month_index z)" by (intro month_start_mono) simp
  with greater show ?thesis using month_index_bounds(2) [of z'] month_index_bounds(1) [of z] by simp
qed

lemma mdays_bounds: "\<bar>mdays y\<bar> \<le> 366 * \<bar>y\<bar> + 3"
proof -
  have "0 \<le> y div 4 - y div 100" if "0 \<le> y" using that by linarith
  moreover have "y div 4 - y div 100 \<le> 0" if "y < 0" using that by linarith
  ultimately show ?thesis unfolding mdays_def by (cases "0 \<le> y") linarith+
qed

lemma days_from_civil_chk_ok:
  assumes y: "- 20000000000000000 \<le> y" "y \<le> 20000000000000000"
    and m: "1 \<le> m" "m \<le> 12" and d: "1 \<le> d" "d \<le> 31"
  shows "days_from_civil_chk y m d = Some (days_from_civil y m d)"
proof -
  define y' where "y' = (if m \<le> 2 then y - 1 else y)"
  define n where "n = y' mod 400"
  define doy where "doy = (153 * (if m > 2 then m - 3 else m + 9) + 2) sdiv 5 + d - 1"
  have n: "0 \<le> n" "n < 400" by (simp_all add: n_def)
  have era: "(if 0 \<le> y' then y' else y' - 399) sdiv 400 = y' div 400"
    using trunc_floor_div [of 400 y'] by (simp only: split: if_split) auto
  have yoe: "y' - y' div 400 * 400 = n" by (simp add: n_def minus_div_mult_eq_mod)
  have y': "- 20000000000000001 \<le> y'" "y' \<le> 20000000000000000" using y by (auto simp: y'_def)
  then have e: "- 50000000000001 \<le> y' div 400" "y' div 400 \<le> 50000000000000" by linarith+
  have doy: "0 \<le> doy" "doy \<le> 367"
    using m d by (auto simp: doy_def rust_arith pos_imp_zdiv_nonneg_iff)
  have doe: "0 \<le> n * 365 + n sdiv 4 - n sdiv 100 + doy" "n * 365 + n sdiv 4 - n sdiv 100 + doy \<le> 147000"
    using n doy by (simp_all add: rust_arith)
  show ?thesis
    unfolding days_from_civil_chk_def days_from_civil_def Let_def y'_def [symmetric] doy_def [symmetric]
    using y' e doy doe n
    by (simp add: to_i64_def i64_ok_def era yoe)
qed

lemma civil_from_days_chk_ok:
  assumes "i64_ok z"
  shows "civil_from_days_chk z = (if z \<le> 2 ^ 63 - 1 - 719468 then Some (civil_from_days z) else None)"
proof (cases "z \<le> 2 ^ 63 - 1 - 719468")
  case False
  then show ?thesis by (simp add: civil_from_days_chk_def to_i64_def i64_ok_def)
next
  case True
  define w where "w = z + 719468"
  have w: "- (2 ^ 63) + 719468 \<le> w" "w < 2 ^ 63" using True assms by (simp_all add: w_def i64_ok_def)
  define era where "era = w div 146097"
  have era: "(if 0 \<le> w then w else w - 146096) sdiv 146097 = era"
    using trunc_floor_div [of 146097 w] by (simp only: era_def split: if_split) auto
  define doe where "doe = w mod 146097"
  have doe: "0 \<le> doe" "doe < 146097" "w - era * 146097 = doe"
    by (simp_all add: doe_def era_def minus_div_mult_eq_mod)
  have eb: "- (2 ^ 63) \<le> era * 146097" "era * 146097 < 2 ^ 63" using w doe by linarith+
  then have "- 9223372036854775808 \<le> era * 146097" "era * 146097 < 9223372036854775808" by simp_all
  then have es: "- 70000000000000 \<le> era" "era \<le> 70000000000000" by linarith+
  define yoe where "yoe = (doe - doe sdiv 1460 + doe sdiv 36524 - doe sdiv 146096) sdiv 365"
  have yoe: "0 \<le> yoe" "yoe < 500"
    using doe by (auto simp: yoe_def rust_arith pos_imp_zdiv_nonneg_iff intro!: sdiv_nonneg)
  define doy where "doy = doe - (365 * yoe + yoe sdiv 4 - yoe sdiv 100)"
  have doy: "- 200000 \<le> doy" "doy \<le> 200000" using doe yoe by (simp_all add: doy_def rust_arith)
  define mp where "mp = (5 * doy + 2) sdiv 153"
  have mp: "\<bar>mp\<bar> \<le> 10000" using doy by (cases "0 \<le> 5 * doy + 2") (simp_all add: mp_def rust_arith sdiv_neg)
  have i: "i64_ok w" "i64_ok (if 0 \<le> w then w else w - 146096)" using w by (auto simp: i64_ok_def)
  show ?thesis
    unfolding civil_from_days_chk_def civil_from_days_def Let_def w_def [symmetric]
    using i True eb es doe yoe doy mp
    by (simp add: to_i64_def era doe(3) yoe_def [symmetric] doy_def [symmetric] mp_def [symmetric]) (simp add: i64_ok_def, linarith)
qed

section \<open>Properties\<close>

text \<open>C15. \<open>civil_from_days\<close> and \<open>days_from_civil\<close> are inverse bijections between the integers and the valid
  civil dates: a day count has the civil date (y, m, d) exactly when that date exists in the calendar
  (30 February does not) and \<open>days_from_civil\<close> gives the count back.
\<close>

theorem calendar_bijection:
  "civil_from_days z = (y, m, d) \<longleftrightarrow> valid_date (y, m, d) \<and> days_from_civil y m d = z"
  using valid_civil [of z] days_civil_days [of z y m d] civil_days_civil [of y m d] by metis

text \<open>C37. The conversion counts days: day 0 is 1970-01-01, and one more day is the next page of the
  proleptic Gregorian calendar (end of month, end of February in leap and common years, end of year).
\<close>

theorem calendar_counts_days:
  "civil_from_days 0 = (1970, 1, 1) \<and> civil_from_days (z + 1) = next_day (civil_from_days z)"
proof -
  have "valid_date (1970, 1, 1)" by (simp add: valid_date_def days_in_month_def)
  then have "civil_from_days 0 = (1970, 1, 1)"
    using civil_days_civil [of 1970 1 1] by (simp add: days_from_civil_epoch)
  then show ?thesis by (simp add: civil_from_days_Suc)
qed

text \<open>C38. ISO week dates and ordinal dates are two more coordinate systems. \<open>from_iso_ywd\<close> accepts (year, week, weekday)
  and yields z exactly when \<open>iso_week\<close> and \<open>iso_weekday\<close> of z are these coordinates; in particular week 53
  is accepted exactly in the years that have one. \<open>from_ordinal\<close> yields z exactly for the civil year of z
  and its day of the year.
\<close>

theorem iso_and_ordinal_bijection:
  "(from_iso_ywd y w wd = Some z \<longleftrightarrow> iso_week z = (y, w) \<and> iso_weekday z = wd) \<and>
   (from_ordinal y n = Some z \<longleftrightarrow> fst (civil_from_days z) = y \<and> ordinal z = n)"
  using iso_of_from_iso_ywd [of y w wd z] iso_roundtrip [of z] ordinal_from_ordinal [of y n z] from_ordinal_ordinal [of z] by auto

text \<open>Adding n months moves the month index by exactly n and keeps the day of the month, clamped to the
  length of the target month.
\<close>

lemma add_months_clamps:
  "month_index (add_months_to_days z n) = month_index z + n
   \<and> day_of_month (add_months_to_days z n) = min (day_of_month z) (month_len (month_index z + n))"
  by (simp add: month_index_add_months day_of_month_add_months)

text \<open>C39. Overflow of the civil conversions. For a date of a year up to 2e16 in magnitude, far beyond the years openCypher
  allows, no intermediate result of \<open>days_from_civil\<close> leaves the \<open>i64\<close> range, so the checked evaluation returns the
  value the unbounded one has. For a day in \<open>i64\<close> the checked evaluation of \<open>civil_from_days\<close> returns the value of the
  unbounded one exactly up to \<open>i64::MAX - 719468\<close>, and overflows above.
\<close>

theorem days_from_civil_no_overflow:
  assumes "\<bar>y\<bar> \<le> 20000000000000000" "valid_date (y, m, d)" "i64_ok z"
  shows "days_from_civil_chk y m d = Some (days_from_civil y m d) \<and>
    civil_from_days_chk z = (if z \<le> 2 ^ 63 - 1 - 719468 then Some (civil_from_days z) else None)"
proof
  have "d \<le> month_len (12 * y + (m - 1))"
    using assms(2) month_split [of m y] by (simp add: valid_date_def month_len_def)
  then have "d \<le> 31" using month_len_pos(2) [of "12 * y + (m - 1)"] by linarith
  with assms(1,2) show "days_from_civil_chk y m d = Some (days_from_civil y m d)"
    by (intro days_from_civil_chk_ok) (auto simp: valid_date_def)
qed (rule civil_from_days_chk_ok [OF assms(3)])

theorem days_from_civil_no_overflow_witness:
  "days_from_civil_chk (- 999999999) 2 28 = Some (days_from_civil (- 999999999) 2 28) \<and>
   civil_from_days_chk 365241780471 = Some (civil_from_days 365241780471)"
  using days_from_civil_no_overflow [of "- 999999999" 2 28 365241780471]
  by (simp add: valid_date_def days_in_month_def i64_ok_def)

end
