(* ===== verification/Rust_Text.thy ===== *)
theory Rust_Text
  imports GF_Prelude
begin

text \<open>
  The parts of Rust's string library the sources use. A \<open>&str\<close> is its UTF-8 byte sequence
  (\<^typ>\<open>string\<close>), so \<open>len\<close> is \<^const>\<open>length\<close> and searching for an ASCII character is searching for
  its byte. \<open>str::parse\<close> for the integer types, zero-padded decimal formatting and \<open>trim\<close> (Unicode
  white space) follow the standard library.
\<close>

named_theorems text_simps

section \<open>Digits\<close>

definition is_ascii_digit :: "char \<Rightarrow> bool" where
  "is_ascii_digit c \<longleftrightarrow> 48 \<le> (of_char c :: nat) \<and> (of_char c :: nat) \<le> 57"

definition digit_val :: "char \<Rightarrow> nat" where
  "digit_val c = of_char c - 48"

definition digit_char :: "nat \<Rightarrow> char" where
  "digit_char n = char_of (n + 48)"

definition all_digits :: "string \<Rightarrow> bool" where
  "all_digits s = list_all is_ascii_digit s"

definition digits_val :: "string \<Rightarrow> nat" where
  "digits_val s = foldl (\<lambda>a c. 10 * a + digit_val c) 0 s"

definition parse_nat :: "string \<Rightarrow> nat option" where
  "parse_nat s = (if s \<noteq> [] \<and> all_digits s then Some (digits_val s) else None)"

fun show_nat :: "nat \<Rightarrow> string" where
  "show_nat n = (if n < 10 then [digit_char n] else show_nat (n div 10) @ [digit_char (n mod 10)])"

declare show_nat.simps [simp del]

text \<open>\<open>{:0w}\<close> of an unsigned number.\<close>

definition pad0 :: "nat \<Rightarrow> nat \<Rightarrow> string" where
  "pad0 w n = replicate (w - length (show_nat n)) (CHR ''0'') @ show_nat n"

section \<open>\<open>str::parse\<close> for integers\<close>

definition parse_i64 :: "string \<Rightarrow> i64 option" where
  "parse_i64 s =
     (case s of
        [] \<Rightarrow> None
      | c # cs \<Rightarrow>
          if c = CHR ''-'' then Option.bind (parse_nat cs) (\<lambda>n. to_i64 (- int n))
          else if c = CHR ''+'' then Option.bind (parse_nat cs) (\<lambda>n. to_i64 (int n))
          else Option.bind (parse_nat s) (\<lambda>n. to_i64 (int n)))"

definition parse_u32 :: "string \<Rightarrow> u32 option" where
  "parse_u32 s =
     (case s of
        [] \<Rightarrow> None
      | c # cs \<Rightarrow>
          if c = CHR ''+'' then Option.bind (parse_nat cs) (\<lambda>n. to_u32 (int n))
          else Option.bind (parse_nat s) (\<lambda>n. to_u32 (int n)))"

definition to_i32 :: "int \<Rightarrow> i32 option" where
  "to_i32 x = (if - (2 ^ 31) \<le> x \<and> x < 2 ^ 31 then Some x else None)"

definition parse_i32 :: "string \<Rightarrow> i32 option" where
  "parse_i32 s =
     (case s of
        [] \<Rightarrow> None
      | c # cs \<Rightarrow>
          if c = CHR ''-'' then Option.bind (parse_nat cs) (\<lambda>n. to_i32 (- int n))
          else if c = CHR ''+'' then Option.bind (parse_nat cs) (\<lambda>n. to_i32 (int n))
          else Option.bind (parse_nat s) (\<lambda>n. to_i32 (int n)))"

text \<open>Decimal formatting of a signed number.\<close>

definition show_int :: "int \<Rightarrow> string" where
  "show_int x = (if x < 0 then CHR ''-'' # show_nat (nat (- x)) else show_nat (nat x))"

section \<open>Searching and splitting\<close>

definition split_once :: "char \<Rightarrow> string \<Rightarrow> (string \<times> string) option" where
  "split_once c s =
     (if c \<in> set s then Some (takeWhile (\<lambda>x. x \<noteq> c) s, tl (dropWhile (\<lambda>x. x \<noteq> c) s)) else None)"

fun split_on :: "char \<Rightarrow> string \<Rightarrow> string list" where
  "split_on c [] = [[]]"
| "split_on c (x # xs) =
     (if x = c then [] # split_on c xs
      else case split_on c xs of [] \<Rightarrow> [[x]] | p # ps \<Rightarrow> (x # p) # ps)"

definition strip_prefix_char :: "char \<Rightarrow> string \<Rightarrow> string option" where
  "strip_prefix_char c s = (case s of x # xs \<Rightarrow> if x = c then Some xs else None | [] \<Rightarrow> None)"

definition strip_suffix_char :: "char \<Rightarrow> string \<Rightarrow> string option" where
  "strip_suffix_char c s = (if s \<noteq> [] \<and> last s = c then Some (butlast s) else None)"

definition trim_end_matches :: "char \<Rightarrow> string \<Rightarrow> string" where
  "trim_end_matches c s = rev (dropWhile (\<lambda>x. x = c) (rev s))"

section \<open>\<open>str::trim\<close>\<close>

text \<open>The UTF-8 encodings of the characters with the Unicode property \<open>White_Space\<close>.\<close>

definition white_space :: "string list" where
  "white_space = map (map char_of)
     ([[9], [10], [11], [12], [13], [32], [194, 133], [194, 160], [225, 154, 128]]
      @ map (\<lambda>k. [226, 128, k]) [128 ..< 139]
      @ [[226, 128, 168], [226, 128, 169], [226, 128, 175], [226, 129, 159], [227, 128, 128 :: nat]])"

function strip_start :: "string list \<Rightarrow> string \<Rightarrow> string" where
  "strip_start ws s =
     (case find (\<lambda>w. w \<noteq> [] \<and> take (length w) s = w) ws of
        None \<Rightarrow> s
      | Some w \<Rightarrow> strip_start ws (drop (length w) s))"
  by pat_completeness auto
termination
proof (relation "measure (\<lambda>(ws, s). length s)")
  fix ws :: "string list" and s w
  assume "find (\<lambda>w. w \<noteq> [] \<and> take (length w) s = w) ws = Some w"
  then have "w \<noteq> []" "take (length w) s = w" by (auto simp: find_Some_iff)
  then have "s \<noteq> []" "0 < length w" by auto
  then show "((ws, drop (length w) s), (ws, s)) \<in> measure (\<lambda>(ws, s). length s)" by simp
qed simp

declare strip_start.simps [simp del]

definition trim :: "string \<Rightarrow> string" where
  "trim s = rev (strip_start (map rev white_space) (rev (strip_start white_space s)))"

section \<open>Lemmas\<close>

lemma digit_char_val [simp]: "n < 10 \<Longrightarrow> digit_val (digit_char n) = n"
  by (simp add: digit_val_def digit_char_def of_char_of)

lemma digit_char_is_digit [simp]: "n < 10 \<Longrightarrow> is_ascii_digit (digit_char n)"
  by (simp add: is_ascii_digit_def digit_char_def of_char_of)

lemma all_digits_simps [simp]:
  "all_digits []" "all_digits (c # s) \<longleftrightarrow> is_ascii_digit c \<and> all_digits s"
  "all_digits (s @ t) \<longleftrightarrow> all_digits s \<and> all_digits t"
  "all_digits (replicate k c) \<longleftrightarrow> k = 0 \<or> is_ascii_digit c"
  by (auto simp: all_digits_def list_all_iff)

lemma is_digit_0 [simp]: "is_ascii_digit (CHR ''0'')" "digit_val (CHR ''0'') = 0"
  by (simp_all add: is_ascii_digit_def digit_val_def)

lemma digits_val_append: "digits_val (s @ t) = digits_val s * 10 ^ length t + digits_val t"
proof (induction t rule: rev_induct)
  case Nil
  then show ?case by (simp add: digits_val_def)
next
  case (snoc c t)
  have "digits_val (s @ t @ [c]) = 10 * digits_val (s @ t) + digit_val c"
    and "digits_val (t @ [c]) = 10 * digits_val t + digit_val c"
    by (simp_all add: digits_val_def)
  with snoc show ?case by simp
qed

lemma digits_val_simps [simp]:
  "digits_val [] = 0" "digits_val [c] = digit_val c" "digits_val (replicate k (CHR ''0'')) = 0"
proof -
  show "digits_val (replicate k (CHR ''0'')) = 0"
    by (induction k) (simp_all add: digits_val_def)
qed (simp_all add: digits_val_def)

lemma show_nat_nonempty [simp]: "show_nat n \<noteq> []"
  by (subst show_nat.simps) simp

lemma show_nat_digits [simp]: "all_digits (show_nat n)"
proof (induction n rule: show_nat.induct)
  case (1 n)
  then show ?case by (subst show_nat.simps) simp
qed

lemma digits_val_show [simp]: "digits_val (show_nat n) = n"
proof (induction n rule: show_nat.induct)
  case (1 n)
  then show ?case by (subst show_nat.simps) (simp add: digits_val_append)
qed

lemma parse_show [simp]: "parse_nat (show_nat n) = Some n"
  by (simp add: parse_nat_def)

lemma pad0_props [simp]:
  "all_digits (pad0 w n)" "pad0 w n \<noteq> []" "parse_nat (pad0 w n) = Some n"
  by (simp_all add: pad0_def parse_nat_def digits_val_append)

lemma length_show_nat: "n < 10 ^ k \<Longrightarrow> 0 < k \<Longrightarrow> length (show_nat n) \<le> k"
proof (induction n arbitrary: k rule: show_nat.induct)
  case (1 n)
  show ?case
  proof (cases "n < 10")
    case True
    with 1 show ?thesis by (subst show_nat.simps) simp
  next
    case False
    with 1 have "k \<noteq> 1" "k \<noteq> 0" by auto
    then obtain k' where k: "k = Suc k'" "0 < k'" by (cases k) auto
    with 1 False have "length (show_nat (n div 10)) \<le> k'" by auto
    with False k show ?thesis by (subst show_nat.simps) simp
  qed
qed

lemma length_pad0: "n < 10 ^ w \<Longrightarrow> 0 < w \<Longrightarrow> length (pad0 w n) = w"
  using length_show_nat [of n w] by (simp add: pad0_def)

lemma not_digit [simp]:
  "\<not> is_ascii_digit (CHR ''-'')" "\<not> is_ascii_digit (CHR ''+'')" "\<not> is_ascii_digit (CHR '':'')"
  "\<not> is_ascii_digit (CHR ''.'')" "\<not> is_ascii_digit (CHR ''W'')" "\<not> is_ascii_digit (CHR ''Z'')"
  "\<not> is_ascii_digit (CHR ''T'')" "\<not> is_ascii_digit (CHR ''['')"
  by (simp_all add: is_ascii_digit_def)

lemma all_digits_notin: "all_digits s \<Longrightarrow> \<not> is_ascii_digit c \<Longrightarrow> c \<notin> set s"
  by (auto simp: all_digits_def list_all_iff)

lemma parse_u32_digits:
  assumes "parse_nat s = Some n"
  shows "parse_u32 s = to_u32 (int n)" "parse_i64 s = to_i64 (int n)" "parse_i32 s = to_i32 (int n)"
proof -
  obtain c cs where s: "s = c # cs" and c: "is_ascii_digit c"
    using assms by (cases s) (auto simp: parse_nat_def split: if_splits)
  then show "parse_u32 s = to_u32 (int n)" "parse_i64 s = to_i64 (int n)" "parse_i32 s = to_i32 (int n)"
    using assms not_digit(1,2) by (auto simp: parse_u32_def parse_i64_def parse_i32_def simp del: not_digit)
qed

lemma split_once_append:
  "c \<notin> set a \<Longrightarrow> split_once c (a @ c # b) = Some (a, b)"
  by (induction a) (auto simp: split_once_def)

lemma split_once_None: "c \<notin> set s \<Longrightarrow> split_once c s = None"
  by (simp add: split_once_def)

lemma split_on_no: "c \<notin> set s \<Longrightarrow> split_on c s = [s]"
  by (induction s) auto

lemma split_on_append: "c \<notin> set a \<Longrightarrow> split_on c (a @ c # b) = a # split_on c b"
  by (induction a) auto

text \<open>\<open>trim\<close> leaves a string alone when it starts and ends with a graphic ASCII character.\<close>

definition graphic :: "char \<Rightarrow> bool" where
  "graphic c \<longleftrightarrow> 33 \<le> (of_char c :: nat) \<and> (of_char c :: nat) \<le> 126"

lemma white_space_ends:
  "w \<in> set white_space \<Longrightarrow> w \<noteq> [] \<and> \<not> graphic (hd w) \<and> \<not> graphic (last w)"
  by (auto simp: white_space_def graphic_def upt_rec)

lemma strip_start_graphic:
  assumes "\<And>w. w \<in> set ws \<Longrightarrow> \<not> graphic (hd w)" and "s = [] \<or> graphic (hd s)"
  shows "strip_start ws s = s"
proof -
  have "find (\<lambda>w. w \<noteq> [] \<and> take (length w) s = w) ws = None"
    unfolding find_None_iff
  proof safe
    fix w assume w: "w \<in> set ws" "w \<noteq> []" "take (length w) s = w"
    then have "s \<noteq> []" "hd w = hd s" by (metis take_Nil, metis hd_take length_greater_0_conv)
    with assms(2) assms(1) [OF w(1)] show False by simp
  qed
  then show ?thesis by (subst strip_start.simps) simp
qed

lemma trim_graphic:
  assumes "s \<noteq> []" "graphic (hd s)" "graphic (last s)"
  shows "trim s = s"
proof -
  have "strip_start white_space s = s"
    using white_space_ends assms by (intro strip_start_graphic) auto
  moreover have "strip_start (map rev white_space) (rev s) = rev s"
    using white_space_ends assms by (intro strip_start_graphic) (auto simp: hd_rev)
  ultimately show ?thesis by (simp add: trim_def)
qed

lemma digit_graphic: "is_ascii_digit c \<Longrightarrow> graphic c"
  by (simp add: is_ascii_digit_def graphic_def)

lemma graphic_signs [simp]: "graphic (CHR ''-'')" "graphic (CHR ''+'')" "graphic (CHR ''Z'')" "graphic (CHR '']'')"
  by (simp_all add: graphic_def)

lemma all_digits_ends: "all_digits s \<Longrightarrow> s \<noteq> [] \<Longrightarrow> is_ascii_digit (hd s) \<and> is_ascii_digit (last s)"
  by (auto simp: all_digits_def list_all_iff)

end
