(* ===== verification/Temporal_Text.thy ===== *)
theory Temporal_Text
  imports Calendar Rust_Text "HOL-Library.Monad_Syntax"
begin

text \<open>
  The textual side of \<open>crates/graphforge-rel/src/temporal.rs\<close> and the renderers of \<open>calendar.rs\<close>: ISO
  dates, times of day, UTC offsets and their combinations, parsed from and rendered to strings.

  The third-party crates \<open>chrono\<close> and \<open>chrono_tz\<close> are the parameter \<open>chrono_env\<close> of the operations
  that call them. A \<open>NaiveDate\<close> is represented by its day count and a \<open>NaiveTime\<close> by its fields.
\<close>

section \<open>Data\<close>

datatype time_precision = Minute | Second | SubSecond

record time_parts =
  hour :: u32
  minute :: u32
  second :: u32
  nanos :: u32
  precision :: time_precision

record offset =
  off_seconds :: i32
  off_has_seconds :: bool

text \<open>
  What is used of \<open>chrono\<close>: \<open>from_hms_nano_ok h m s n\<close> is \<open>NaiveTime::from_hms_nano_opt(h, m, s, n).is_some()\<close>;
  \<open>date_in_range d\<close> says that the day \<open>d\<close> is a \<open>NaiveDate\<close>; \<open>tz_known z\<close> is \<open>z.parse::<Tz>().is_ok()\<close>;
  \<open>tz_local_offset z d t\<close> is the offset of \<open>from_local_datetime\<close> (of the earlier instant when ambiguous,
  \<^const>\<open>None\<close> in a gap); \<open>tz_utc_offset z d n\<close> is the offset of \<open>from_utc_datetime\<close> at day \<open>d\<close> and
  nanosecond \<open>n\<close> of the day.
\<close>

record chrono_env =
  from_hms_nano_ok :: "u32 \<Rightarrow> u32 \<Rightarrow> u32 \<Rightarrow> u32 \<Rightarrow> bool"
  date_in_range :: "i64 \<Rightarrow> bool"
  tz_known :: "string \<Rightarrow> bool"
  tz_local_offset :: "string \<Rightarrow> i64 \<Rightarrow> time_parts \<Rightarrow> i32 option"
  tz_utc_offset :: "string \<Rightarrow> i64 \<Rightarrow> i64 \<Rightarrow> i32"

type_synonym date_time_parts = "i64 \<times> i64 \<times> i32 \<times> string option"

section \<open>Dates\<close>

definition format_year :: "i64 \<Rightarrow> string" where
  "format_year y =
     (if 0 \<le> y \<and> y \<le> 9999 then pad0 4 (nat y)
      else if y < 0 then CHR ''-'' # pad0 4 (nat (- y))
      else CHR ''+'' # show_nat (nat y))"

definition format_date :: "i64 \<Rightarrow> string" where
  "format_date z =
     (let (y, m, d) = civil_from_days z
      in format_year y @ ''-'' @ pad0 2 (nat m) @ ''-'' @ pad0 2 (nat d))"

definition parse_date_string :: "string \<Rightarrow> i64 option" where
  "parse_date_string input =
     (let s = trim input;
          (neg, had_sign, s) =
            (case strip_prefix_char (CHR ''-'') s of
               Some r \<Rightarrow> (True, True, r)
             | None \<Rightarrow> (case strip_prefix_char (CHR ''+'') s of
                          Some r \<Rightarrow> (False, True, r)
                        | None \<Rightarrow> (False, False, s)));
          signed = (\<lambda>y. if neg then - y else y)
      in case split_once (CHR ''W'') s of
           Some (before, after) \<Rightarrow>
             do { year \<leftarrow> parse_i64 (trim_end_matches (CHR ''-'') before);
                  let rest = filter (\<lambda>c. c \<noteq> CHR ''-'') after in
                  if length rest < 2 \<or> \<not> all_digits rest then None
                  else do { week \<leftarrow> parse_u32 (take 2 rest);
                            weekday \<leftarrow> (if length rest > 2 then parse_u32 (drop 2 rest) else Some 1);
                            from_iso_ywd (signed year) week weekday } }
         | None \<Rightarrow>
             (case split_once (CHR ''-'') s of
                Some (head, tail) \<Rightarrow>
                  do { year \<leftarrow> parse_i64 head;
                       case split_once (CHR ''-'') tail of
                         Some (month, day) \<Rightarrow>
                           do { m \<leftarrow> parse_u32 month; d \<leftarrow> parse_u32 day; ymd_to_days (signed year) m d }
                       | None \<Rightarrow>
                           if length tail = 3 then do { n \<leftarrow> parse_u32 tail; from_ordinal (signed year) n }
                           else do { m \<leftarrow> parse_u32 tail; ymd_to_days (signed year) m 1 } }
              | None \<Rightarrow>
                  if \<not> had_sign \<and> s \<noteq> [] \<and> all_digits s then
                    if length s < 4 then None
                    else do { year \<leftarrow> parse_i64 (take 4 s);
                              if length s = 8 then
                                do { m \<leftarrow> parse_u32 (take 2 (drop 4 s)); d \<leftarrow> parse_u32 (drop 6 s);
                                     ymd_to_days (signed year) m d }
                              else if length s = 7 then
                                do { n \<leftarrow> parse_u32 (drop 4 s); from_ordinal (signed year) n }
                              else if length s = 6 then
                                do { m \<leftarrow> parse_u32 (drop 4 s); ymd_to_days (signed year) m 1 }
                              else if length s = 4 then ymd_to_days (signed year) 1 1
                              else None }
                  else None))"

definition parse_date_or_datetime_prefix :: "string \<Rightarrow> i64 option" where
  "parse_date_or_datetime_prefix s =
     parse_date_string (case split_once (CHR ''T'') s of Some (d, _) \<Rightarrow> d | None \<Rightarrow> s)"

definition render_date :: "string \<Rightarrow> string option" where
  "render_date s = do { z \<leftarrow> parse_date_string (trim s); Some (format_date z) }"

section \<open>Times of day\<close>

definition nanos_of_day :: "time_parts \<Rightarrow> i64" where
  "nanos_of_day t = (hour t * 3600 + minute t * 60 + second t) * 1000000000 + nanos t"

definition time_parts_from_nanos :: "i64 \<Rightarrow> time_parts" where
  "time_parts_from_nanos n =
     (let n = n mod 86400000000000;
          secs = n sdiv 1000000000;
          sub = n smod 1000000000
      in \<lparr>hour = secs sdiv 3600, minute = (secs smod 3600) sdiv 60, second = secs smod 60, nanos = sub,
          precision = (if sub \<noteq> 0 then SubSecond else if secs smod 60 \<noteq> 0 then Second else Minute)\<rparr>)"

definition parse_time_fields :: "string \<Rightarrow> (u32 \<times> u32 \<times> u32 \<times> time_precision) option" where
  "parse_time_fields main =
     (if CHR '':'' \<in> set main then
        (case split_on (CHR '':'') main of
           [h, m] \<Rightarrow> do { h \<leftarrow> parse_u32 h; m \<leftarrow> parse_u32 m; Some (h, m, 0, Minute) }
         | [h, m, sec] \<Rightarrow>
             do { h \<leftarrow> parse_u32 h; m \<leftarrow> parse_u32 m; sec \<leftarrow> parse_u32 sec; Some (h, m, sec, Second) }
         | _ \<Rightarrow> None)
      else if \<not> all_digits main then None
      else if length main = 2 then do { h \<leftarrow> parse_u32 main; Some (h, 0, 0, Minute) }
      else if length main = 4 then
        do { h \<leftarrow> parse_u32 (take 2 main); m \<leftarrow> parse_u32 (drop 2 main); Some (h, m, 0, Minute) }
      else if length main = 6 then
        do { h \<leftarrow> parse_u32 (take 2 main); m \<leftarrow> parse_u32 (take 2 (drop 2 main));
             sec \<leftarrow> parse_u32 (drop 4 main); Some (h, m, sec, Second) }
      else None)"

definition parse_time_fraction :: "time_precision \<Rightarrow> string option \<Rightarrow> (u32 \<times> time_precision) option" where
  "parse_time_fraction base frac =
     (case frac of
        Some f \<Rightarrow>
          if f \<noteq> [] \<and> length f \<le> 9 \<and> all_digits f then
            do { n \<leftarrow> parse_u32 (f @ replicate (9 - length f) (CHR ''0'')); Some (n, SubSecond) }
          else None
      | None \<Rightarrow> Some (0, base))"

definition parse_time_of_day :: "chrono_env \<Rightarrow> string \<Rightarrow> time_parts option" where
  "parse_time_of_day E s =
     (let (main, frac) = (case split_once (CHR ''.'') s of Some (m, f) \<Rightarrow> (m, Some f) | None \<Rightarrow> (s, None))
      in do {
        (h, m, sec, base) \<leftarrow> parse_time_fields main;
        (ns, prec) \<leftarrow> parse_time_fraction base frac;
        if from_hms_nano_ok E h m sec ns then
          Some \<lparr>hour = h, minute = m, second = sec, nanos = ns, precision = prec\<rparr>
        else None })"

definition format_time :: "time_parts \<Rightarrow> string" where
  "format_time t =
     (let hm = pad0 2 (nat (hour t)) @ '':'' @ pad0 2 (nat (minute t));
          hms = hm @ '':'' @ pad0 2 (nat (second t))
      in case precision t of
           Minute \<Rightarrow> hm
         | Second \<Rightarrow> hms
         | SubSecond \<Rightarrow>
             (let frac = trim_end_matches (CHR ''0'') (pad0 9 (nat (nanos t)))
              in if frac = [] then hms else hms @ ''.'' @ frac))"

definition split_time_offset :: "string \<Rightarrow> string \<times> string option" where
  "split_time_offset s =
     (case s of
        [] \<Rightarrow> (s, None)
      | c # cs \<Rightarrow>
          (let time = takeWhile (\<lambda>x. x \<notin> {CHR ''Z'', CHR ''+'', CHR ''-''}) cs;
               off = dropWhile (\<lambda>x. x \<notin> {CHR ''Z'', CHR ''+'', CHR ''-''}) cs
           in if off = [] then (s, None) else (c # time, Some off)))"

definition localtime_nanos_from_str :: "chrono_env \<Rightarrow> string \<Rightarrow> i64 option" where
  "localtime_nanos_from_str E s =
     (let s = trim s; (_, off) = split_time_offset s
      in if off \<noteq> None then None
         else do { t \<leftarrow> parse_time_of_day E s; Some (nanos_of_day t) })"

definition render_local_time :: "chrono_env \<Rightarrow> string \<Rightarrow> string option" where
  "render_local_time E s =
     (let s = trim s; (_, off) = split_time_offset s
      in if off \<noteq> None then None
         else do { t \<leftarrow> parse_time_of_day E s; Some (format_time t) })"

definition render_localtime_nanos :: "i64 \<Rightarrow> string" where
  "render_localtime_nanos n = format_time (time_parts_from_nanos n)"

definition time_of_day_nanos_any :: "chrono_env \<Rightarrow> string \<Rightarrow> i64 option" where
  "time_of_day_nanos_any E s =
     (let s = trim s;
          s = (case split_once (CHR ''['') s of Some (head, _) \<Rightarrow> head | None \<Rightarrow> s);
          s = (case split_once (CHR ''T'') s of Some (_, time) \<Rightarrow> time | None \<Rightarrow> s);
          (time, _) = split_time_offset s
      in do { t \<leftarrow> parse_time_of_day E time; Some (nanos_of_day t) })"

section \<open>UTC offsets\<close>

definition parse_offset_fields :: "string \<Rightarrow> (i32 \<times> i32 \<times> i32 \<times> bool) option" where
  "parse_offset_fields rest =
     (if CHR '':'' \<in> set rest then
        (let parts = split_on (CHR '':'') rest
         in if \<not> list_all (\<lambda>p. p \<noteq> [] \<and> all_digits p) parts then None
            else case parts of
                   [h, m] \<Rightarrow> do { h \<leftarrow> parse_i32 h; m \<leftarrow> parse_i32 m; Some (h, m, 0, False) }
                 | [h, m, sec] \<Rightarrow>
                     do { h \<leftarrow> parse_i32 h; m \<leftarrow> parse_i32 m; sec \<leftarrow> parse_i32 sec; Some (h, m, sec, True) }
                 | _ \<Rightarrow> None)
      else if \<not> all_digits rest then None
      else if length rest = 2 then do { h \<leftarrow> parse_i32 rest; Some (h, 0, 0, False) }
      else if length rest = 4 then
        do { h \<leftarrow> parse_i32 (take 2 rest); m \<leftarrow> parse_i32 (drop 2 rest); Some (h, m, 0, False) }
      else if length rest = 6 then
        do { h \<leftarrow> parse_i32 (take 2 rest); m \<leftarrow> parse_i32 (take 2 (drop 2 rest));
             sec \<leftarrow> parse_i32 (drop 4 rest); Some (h, m, sec, True) }
      else None)"

definition parse_offset_sign :: "string \<Rightarrow> (i32 \<times> string) option" where
  "parse_offset_sign s =
     (case strip_prefix_char (CHR ''+'') s of
        Some rest \<Rightarrow> Some (1, rest)
      | None \<Rightarrow> do { rest \<leftarrow> strip_prefix_char (CHR ''-'') s; Some (- 1, rest) })"

definition parse_offset :: "string \<Rightarrow> offset option" where
  "parse_offset s =
     (if s = ''Z'' then Some \<lparr>off_seconds = 0, off_has_seconds = False\<rparr>
      else do {
        (sign, rest) \<leftarrow> parse_offset_sign s;
        (hours, minutes, secs, has_seconds) \<leftarrow> parse_offset_fields rest;
        if hours \<ge> 24 \<or> minutes \<ge> 60 \<or> secs \<ge> 60 then None
        else Some \<lparr>off_seconds = sign * (hours * 3600 + minutes * 60 + secs), off_has_seconds = has_seconds\<rparr> })"

definition parse_offset_seconds :: "string \<Rightarrow> i32 option" where
  "parse_offset_seconds s = map_option off_seconds (parse_offset s)"

definition format_offset :: "offset \<Rightarrow> string" where
  "format_offset off =
     (if off_seconds off = 0 then ''Z''
      else
        let sign = (if off_seconds off < 0 then CHR ''-'' else CHR ''+'');
            a = \<bar>off_seconds off\<bar>;
            hours = a sdiv 3600; minutes = (a smod 3600) sdiv 60; secs = a smod 60;
            hm = sign # pad0 2 (nat hours) @ '':'' @ pad0 2 (nat minutes)
        in if off_has_seconds off \<and> secs \<noteq> 0 then hm @ '':'' @ pad0 2 (nat secs) else hm)"

definition epoch_days_to_date :: "chrono_env \<Rightarrow> i64 \<Rightarrow> i64 option" where
  "epoch_days_to_date E days = (if date_in_range E days then Some days else None)"

definition resolve_zone_offset :: "chrono_env \<Rightarrow> i64 \<Rightarrow> time_parts \<Rightarrow> string \<Rightarrow> offset option" where
  "resolve_zone_offset E days time zone =
     (if \<not> tz_known E zone then None
      else do { date \<leftarrow> epoch_days_to_date E days;
                if \<not> from_hms_nano_ok E (hour time) (minute time) (second time) (nanos time) then None
                else do { s \<leftarrow> tz_local_offset E zone date time;
                          Some \<lparr>off_seconds = s, off_has_seconds = True\<rparr> } })"

section \<open>Zoned times, local date-times, date-times\<close>

definition value_offset :: "i32 \<Rightarrow> offset" where
  "value_offset s = \<lparr>off_seconds = s, off_has_seconds = (s smod 60 \<noteq> 0)\<rparr>"

definition render_time :: "chrono_env \<Rightarrow> string \<Rightarrow> string option" where
  "render_time E s =
     (let (time, off) = split_time_offset (trim s)
      in do { t \<leftarrow> parse_time_of_day E time; off \<leftarrow> off; off \<leftarrow> parse_offset off;
              Some (format_time t @ format_offset off) })"

definition time_value_from_str :: "chrono_env \<Rightarrow> string \<Rightarrow> (i64 \<times> i32) option" where
  "time_value_from_str E s =
     (let (time, off) = split_time_offset (trim s)
      in do { off_secs \<leftarrow> (case off of Some off \<Rightarrow> do { off \<leftarrow> parse_offset off; Some (off_seconds off) }
                          | None \<Rightarrow> Some 0);
              t \<leftarrow> parse_time_of_day E time;
              Some (nanos_of_day t, off_secs) })"

definition time_of_day_with_offset :: "chrono_env \<Rightarrow> string \<Rightarrow> (i64 \<times> i32 option) option" where
  "time_of_day_with_offset E s =
     (let s = trim s;
          s = (case split_once (CHR ''['') s of Some (head, _) \<Rightarrow> head | None \<Rightarrow> s);
          s = (case split_once (CHR ''T'') s of Some (_, time) \<Rightarrow> time | None \<Rightarrow> s);
          (time, off) = split_time_offset s
      in do { t \<leftarrow> parse_time_of_day E time;
              off \<leftarrow> (case off of Some off \<Rightarrow> do { off \<leftarrow> parse_offset off; Some (Some (off_seconds off)) }
                     | None \<Rightarrow> Some None);
              Some (nanos_of_day t, off) })"

definition render_time_value :: "i64 \<Rightarrow> i32 \<Rightarrow> string" where
  "render_time_value n off_secs = render_localtime_nanos n @ format_offset (value_offset off_secs)"

definition localdatetime_parts_from_str :: "chrono_env \<Rightarrow> string \<Rightarrow> (i64 \<times> i64) option" where
  "localdatetime_parts_from_str E s =
     (let s = trim s
      in case split_once (CHR ''T'') s of
           None \<Rightarrow> do { d \<leftarrow> parse_date_string s; Some (d, 0) }
         | Some (date_str, time_str) \<Rightarrow>
             do { d \<leftarrow> parse_date_string date_str;
                  let (_, off) = split_time_offset time_str in
                  if off \<noteq> None then None
                  else do { t \<leftarrow> parse_time_of_day E time_str; Some (d, nanos_of_day t) } })"

definition render_local_date_time :: "chrono_env \<Rightarrow> string \<Rightarrow> string option" where
  "render_local_date_time E s =
     do { (date, time) \<leftarrow> split_once (CHR ''T'') (trim s);
          d \<leftarrow> parse_date_string date;
          let (_, off) = split_time_offset time in
          if off \<noteq> None then None
          else do { t \<leftarrow> parse_time_of_day E time; Some (format_date d @ ''T'' @ format_time t) } }"

definition render_localdatetime :: "i64 \<Rightarrow> i64 \<Rightarrow> string" where
  "render_localdatetime d n = format_date d @ ''T'' @ render_localtime_nanos n"

definition datetime_value_from_str :: "chrono_env \<Rightarrow> string \<Rightarrow> date_time_parts option" where
  "datetime_value_from_str E s =
     (let s = trim s
      in case split_once (CHR ''['') s of
           Some (head, tail) \<Rightarrow>
             do { zone \<leftarrow> strip_suffix_char (CHR '']'') tail;
                  (date_str, time_offset) \<leftarrow> split_once (CHR ''T'') head;
                  d \<leftarrow> parse_date_string date_str;
                  let (time_str, offset_str) = split_time_offset time_offset in
                  do { t \<leftarrow> parse_time_of_day E time_str;
                       off \<leftarrow> (case offset_str of Some off \<Rightarrow> parse_offset off
                              | None \<Rightarrow> resolve_zone_offset E d t zone);
                       Some (d, nanos_of_day t, off_seconds off, Some zone) } }
         | None \<Rightarrow>
             do { (date_str, time_offset) \<leftarrow> split_once (CHR ''T'') s;
                  d \<leftarrow> parse_date_string date_str;
                  let (time_str, offset_str) = split_time_offset time_offset in
                  do { t \<leftarrow> parse_time_of_day E time_str;
                       off \<leftarrow> offset_str;
                       off \<leftarrow> parse_offset off;
                       Some (d, nanos_of_day t, off_seconds off, None) } })"

definition time_offset_zone :: "chrono_env \<Rightarrow> string \<Rightarrow> (i64 \<times> i32 option \<times> string option) option" where
  "time_offset_zone E s =
     (let s = trim s;
          (head, zone) = (case split_once (CHR ''['') s of
                            Some (h, z) \<Rightarrow> (h, strip_suffix_char (CHR '']'') z)
                          | None \<Rightarrow> (s, None));
          body = (case split_once (CHR ''T'') head of Some (_, t) \<Rightarrow> t | None \<Rightarrow> head);
          (time, off) = split_time_offset body
      in do { t \<leftarrow> parse_time_of_day E time;
              off \<leftarrow> (case off of Some off \<Rightarrow> do { off \<leftarrow> parse_offset off; Some (Some (off_seconds off)) }
                     | None \<Rightarrow> Some None);
              Some (nanos_of_day t, off, zone) })"

definition render_datetime_value :: "i64 \<Rightarrow> i64 \<Rightarrow> i32 \<Rightarrow> string option \<Rightarrow> string" where
  "render_datetime_value d n off_secs zone =
     (let out = format_date d @ ''T'' @ render_localtime_nanos n @ format_offset (value_offset off_secs)
      in case zone of Some z \<Rightarrow> out @ ''['' @ z @ '']'' | None \<Rightarrow> out)"

definition render_date_time_named :: "chrono_env \<Rightarrow> string \<Rightarrow> string \<Rightarrow> string option" where
  "render_date_time_named E head tail =
     do { zone \<leftarrow> strip_suffix_char (CHR '']'') tail;
          (date_str, time_offset) \<leftarrow> split_once (CHR ''T'') head;
          d \<leftarrow> parse_date_string date_str;
          let (time_str, offset_str) = split_time_offset time_offset in
          do { t \<leftarrow> parse_time_of_day E time_str;
               off \<leftarrow> (case offset_str of Some off \<Rightarrow> parse_offset off
                      | None \<Rightarrow> resolve_zone_offset E d t zone);
               Some (format_date d @ ''T'' @ format_time t @ format_offset off @ ''['' @ zone @ '']'') } }"

definition render_date_time :: "chrono_env \<Rightarrow> string \<Rightarrow> string option" where
  "render_date_time E s =
     (let s = trim s
      in case split_once (CHR ''['') s of
           Some (head, tail) \<Rightarrow> render_date_time_named E head tail
         | None \<Rightarrow>
             do { (date_str, time_offset) \<leftarrow> split_once (CHR ''T'') s;
                  d \<leftarrow> parse_date_string date_str;
                  let (time_str, offset_str) = split_time_offset time_offset in
                  do { t \<leftarrow> parse_time_of_day E time_str;
                       off \<leftarrow> offset_str;
                       off \<leftarrow> parse_offset off;
                       Some (format_date d @ ''T'' @ format_time t @ format_offset off) } })"

section \<open>Contracts and well-formed values\<close>

text \<open>
  The documentation of \<open>NaiveTime::from_hms_nano_opt\<close>: \<open>None\<close> on an invalid hour, minute, second or
  nanosecond; the nanosecond may exceed 1,000,000,000 for a leap second, only when the second is 59.
\<close>

definition hms_contract :: "chrono_env \<Rightarrow> bool" where
  "hms_contract E \<longleftrightarrow>
     (\<forall>h m s n. 0 \<le> h \<and> 0 \<le> m \<and> 0 \<le> s \<and> 0 \<le> n \<longrightarrow>
        from_hms_nano_ok E h m s n =
          (h < 24 \<and> m < 60 \<and> s < 60 \<and> (n < 1000000000 \<or> s = 59 \<and> n < 2000000000)))"

definition valid_time :: "time_parts \<Rightarrow> bool" where
  "valid_time t \<longleftrightarrow>
     0 \<le> hour t \<and> hour t < 24 \<and> 0 \<le> minute t \<and> minute t < 60 \<and> 0 \<le> second t \<and> second t < 60 \<and>
     0 \<le> nanos t \<and> nanos t < 1000000000 \<and>
     (precision t = Minute \<longrightarrow> second t = 0 \<and> nanos t = 0) \<and> (precision t = Second \<longrightarrow> nanos t = 0)"

text \<open>A subsecond time with no fraction is rendered, and so read back, at second precision.\<close>

definition shown_time :: "time_parts \<Rightarrow> time_parts" where
  "shown_time t = (if precision t = SubSecond \<and> nanos t = 0 then t\<lparr>precision := Second\<rparr> else t)"

definition day_nanos :: i64 where
  "day_nanos = 86400000000000"

section \<open>Decimal fields\<close>

lemma parse_pad0:
  "parse_u32 (pad0 w n) = to_u32 (int n)" "parse_i64 (pad0 w n) = to_i64 (int n)"
  "parse_i32 (pad0 w n) = to_i32 (int n)"
  by (rule parse_u32_digits, simp)+

lemma pad0_chars [simp]:
  "CHR '':'' \<notin> set (pad0 w n)" "CHR ''.'' \<notin> set (pad0 w n)" "CHR ''-'' \<notin> set (pad0 w n)"
  "CHR ''+'' \<notin> set (pad0 w n)" "CHR ''Z'' \<notin> set (pad0 w n)" "CHR ''W'' \<notin> set (pad0 w n)"
  "CHR ''T'' \<notin> set (pad0 w n)" "CHR ''['' \<notin> set (pad0 w n)"
  by (rule all_digits_notin; simp)+

lemma trim_end_decomp:
  "trim_end_matches c s @ replicate (length s - length (trim_end_matches c s)) c = s"
proof -
  let ?t = "takeWhile (\<lambda>x. x = c) (rev s)"
  have "?t = replicate (length ?t) c"
    by (metis (mono_tags, lifting) replicate_length_same set_takeWhileD)
  then have r: "rev ?t = replicate (length ?t) c" by (metis rev_replicate)
  have "rev s = ?t @ dropWhile (\<lambda>x. x = c) (rev s)" by simp
  then have s: "s = trim_end_matches c s @ rev ?t"
    by (metis rev_append rev_rev_ident trim_end_matches_def)
  then have "length s - length (trim_end_matches c s) = length ?t"
    by (metis add_diff_cancel_left' length_append length_rev)
  with s r show ?thesis by metis
qed

lemma show_nat_0: "show_nat 0 = ''0''"
  by code_simp

lemma frac_digits:
  assumes "n < 1000000000"
  defines "f \<equiv> trim_end_matches (CHR ''0'') (pad0 9 n)"
  shows "f @ replicate (9 - length f) (CHR ''0'') = pad0 9 n" "length f \<le> 9" "all_digits f"
    "f = [] \<longleftrightarrow> n = 0"
proof -
  have l: "length (pad0 9 n) = 9" using assms by (intro length_pad0) auto
  show p: "f @ replicate (9 - length f) (CHR ''0'') = pad0 9 n"
    using trim_end_decomp [of "CHR ''0''" "pad0 9 n"] by (simp add: f_def l)
  show "length f \<le> 9" using p l by (metis le_add1 length_append)
  show "all_digits f" using p pad0_props(1) all_digits_simps(3) by metis
  have v: "digits_val (pad0 9 n) = n" by (simp add: pad0_def digits_val_append)
  show "f = [] \<longleftrightarrow> n = 0"
  proof
    assume "f = []"
    with p have "pad0 9 n = replicate 9 (CHR ''0'')" by simp
    with v show "n = 0" using digits_val_simps(3) by metis
  next
    assume "n = 0"
    then have "pad0 9 n = replicate 9 (CHR ''0'')"
      by (simp add: pad0_def show_nat_0 replicate_append_same [symmetric] numeral_eq_Suc)
    then show "f = []" by (simp add: f_def trim_end_matches_def)
  qed
qed

section \<open>Times of day\<close>

lemmas parse_time_defs = parse_time_of_day_def parse_time_fields_def parse_time_fraction_def

lemmas time_text = split_once_append split_once_None split_on_append split_on_no parse_pad0

lemma parse_hm:
  assumes "hms_contract E" "0 \<le> h" "h < 24" "0 \<le> m" "m < 60"
  shows "parse_time_of_day E (pad0 2 (nat h) @ '':'' @ pad0 2 (nat m)) =
    Some \<lparr>hour = h, minute = m, second = 0, nanos = 0, precision = Minute\<rparr>"
  using assms by (simp add: parse_time_defs time_text to_u32_def hms_contract_def)

lemma parse_hms:
  assumes "hms_contract E" "0 \<le> h" "h < 24" "0 \<le> m" "m < 60" "0 \<le> s" "s < 60"
  shows "parse_time_of_day E (pad0 2 (nat h) @ '':'' @ pad0 2 (nat m) @ '':'' @ pad0 2 (nat s)) =
    Some \<lparr>hour = h, minute = m, second = s, nanos = 0, precision = Second\<rparr>"
  using assms by (simp add: parse_time_defs time_text to_u32_def hms_contract_def)

lemma parse_hms_frac:
  assumes "hms_contract E" "0 \<le> h" "h < 24" "0 \<le> m" "m < 60" "0 \<le> s" "s < 60" "0 < n" "n < 1000000000"
  shows "parse_time_of_day E (pad0 2 (nat h) @ '':'' @ pad0 2 (nat m) @ '':'' @ pad0 2 (nat s) @ ''.''
           @ trim_end_matches (CHR ''0'') (pad0 9 (nat n))) =
    Some \<lparr>hour = h, minute = m, second = s, nanos = n, precision = SubSecond\<rparr>"
proof -
  let ?hms = "pad0 2 (nat h) @ CHR '':'' # pad0 2 (nat m) @ CHR '':'' # pad0 2 (nat s)"
  let ?f = "trim_end_matches (CHR ''0'') (pad0 9 (nat n))"
  have "nat n < 1000000000" using assms by simp
  note f = frac_digits [OF this]
  have "split_once (CHR ''.'') (?hms @ CHR ''.'' # ?f) = Some (?hms, ?f)"
    by (rule split_once_append) simp
  with assms f show ?thesis by (simp add: parse_time_defs time_text to_u32_def hms_contract_def)
qed

lemma parse_format_time:
  assumes "hms_contract E" "valid_time t"
  shows "parse_time_of_day E (format_time t) = Some (shown_time t)"
proof (cases "precision t")
  case SubSecond
  have "trim_end_matches (CHR ''0'') (pad0 9 (nat (nanos t))) = [] \<longleftrightarrow> nanos t = 0"
    using frac_digits(4) [of "nat (nanos t)"] assms by (auto simp: valid_time_def)
  with SubSecond assms show ?thesis
    by (cases t) (simp add: format_time_def shown_time_def valid_time_def parse_hms [simplified] parse_hms_frac [simplified])
qed (use assms in \<open>cases t, simp add: format_time_def shown_time_def valid_time_def
       parse_hm [simplified] parse_hms [simplified]\<close>)+


lemma format_time_chars:
  assumes "c \<in> set (format_time t)"
  shows "is_ascii_digit c \<or> c = CHR '':'' \<or> c = CHR ''.''"
proof -
  have p: "is_ascii_digit c" if "c \<in> set (pad0 w n)" for w n
    using that pad0_props(1) [of w n] by (simp add: all_digits_def list_all_iff)
  have f: "is_ascii_digit c" if "c \<in> set (trim_end_matches (CHR ''0'') (pad0 w n))" for w n
    using that p [of w n] by (metis trim_end_decomp Un_iff set_append)
  show ?thesis
    using assms p f by (auto simp: format_time_def Let_def split: time_precision.splits if_splits)
qed

lemma format_time_shape:
  obtains a b where "format_time t = a @ b" "a \<noteq> []" "all_digits a" "b \<noteq> []" "is_ascii_digit (last b)"
proof -
  let ?hm = "CHR '':'' # pad0 2 (nat (minute t))" and ?s = "CHR '':'' # pad0 2 (nat (second t))"
  let ?f = "trim_end_matches (CHR ''0'') (pad0 9 (nat (nanos t)))"
  have d: "is_ascii_digit (last (pad0 w n))" for w n
    using all_digits_ends [of "pad0 w n"] by simp
  have "all_digits ?f" using trim_end_decomp [of "CHR ''0''" "pad0 9 (nat (nanos t))"]
    by (metis all_digits_simps(3) pad0_props(1))
  then have f: "is_ascii_digit (last ?f)" if "?f \<noteq> []" using all_digits_ends [of ?f] that by simp
  show thesis
  proof (cases "precision t")
    case Minute
    then show ?thesis
      using that [of "pad0 2 (nat (hour t))" ?hm] d by (simp add: format_time_def)
  next
    case Second
    then show ?thesis
      using that [of "pad0 2 (nat (hour t))" "?hm @ ?s"] d by (simp add: format_time_def)
  next
    case SubSecond
    then show ?thesis
      using that [of "pad0 2 (nat (hour t))" "?hm @ ?s"]
        that [of "pad0 2 (nat (hour t))" "?hm @ ?s @ ''.'' @ ?f"] d f
      by (cases "?f = []") (simp_all add: format_time_def)
  qed
qed

lemma format_time_ends [simp]:
  "format_time t \<noteq> []" "is_ascii_digit (hd (format_time t))" "is_ascii_digit (last (format_time t))"
  by (rule format_time_shape [of t], use all_digits_ends in fastforce)+

lemma format_time_notin [simp]:
  "CHR ''Z'' \<notin> set (format_time t)" "CHR ''+'' \<notin> set (format_time t)" "CHR ''-'' \<notin> set (format_time t)"
  "CHR ''T'' \<notin> set (format_time t)" "CHR ''['' \<notin> set (format_time t)" "CHR ''W'' \<notin> set (format_time t)"
  using format_time_chars not_digit by force+

lemma trim_format_time [simp]: "trim (format_time t) = format_time t"
  by (rule trim_graphic) (simp_all add: digit_graphic)

lemma split_time_offset_none:
  assumes "\<forall>c \<in> {CHR ''Z'', CHR ''+'', CHR ''-''}. c \<notin> set a"
  shows "split_time_offset a = (a, None)"
proof (cases a)
  case (Cons c cs)
  with assms have "dropWhile (\<lambda>x. x \<notin> {CHR ''Z'', CHR ''+'', CHR ''-''}) cs = []"
    by (auto simp: dropWhile_eq_Nil_conv)
  with Cons show ?thesis by (simp add: split_time_offset_def)
qed (simp add: split_time_offset_def)

lemma split_time_offset_some:
  assumes "\<forall>c \<in> {CHR ''Z'', CHR ''+'', CHR ''-''}. c \<notin> set a" "a \<noteq> []" "o' \<noteq> []"
    "hd o' \<in> {CHR ''Z'', CHR ''+'', CHR ''-''}"
  shows "split_time_offset (a @ o') = (a, Some o')"
proof -
  obtain c cs where a: "a = c # cs" using assms(2) by (cases a) auto
  obtain x xs where o: "o' = x # xs" using assms(3) by (cases o') auto
  let ?P = "\<lambda>x. x \<notin> {CHR ''Z'', CHR ''+'', CHR ''-''}"
  have "\<And>y. y \<in> set cs \<Longrightarrow> ?P y" using assms(1) a by auto
  then have "takeWhile ?P (cs @ o') = cs" "dropWhile ?P (cs @ o') = o'"
    using assms(4) by (auto simp: takeWhile_append2 dropWhile_append2 o)
  with assms(3,4) show ?thesis by (auto simp: split_time_offset_def a o)
qed

lemma valid_time_parts_from_nanos:
  assumes "0 \<le> n" "n < day_nanos"
  shows "valid_time (time_parts_from_nanos n)" "shown_time (time_parts_from_nanos n) = time_parts_from_nanos n"
    "nanos_of_day (time_parts_from_nanos n) = n"
proof -
  define s where "s = n div 1000000000"
  have m: "n mod day_nanos = n" using assms by simp
  have s0: "0 \<le> s" using assms by (simp add: s_def)
  have s1: "s < 86400" using assms by (simp add: s_def day_nanos_def)
  have t: "time_parts_from_nanos n =
    \<lparr>hour = s div 3600, minute = s mod 3600 div 60, second = s mod 60, nanos = n mod 1000000000,
     precision = (if n mod 1000000000 \<noteq> 0 then SubSecond else if s mod 60 \<noteq> 0 then Second else Minute)\<rparr>"
    using assms m s0 unfolding day_nanos_def
    by (simp add: time_parts_from_nanos_def Let_def sdiv_nonneg smod_nonneg s_def [symmetric])
  have "q div 60 < 60" if "q < 3600" for q :: int using that by presburger
  moreover have "s div 3600 < 24" using s1 by presburger
  ultimately show "valid_time (time_parts_from_nanos n)"
    using s0 by (simp add: t valid_time_def pos_imp_zdiv_nonneg_iff)
  show "shown_time (time_parts_from_nanos n) = time_parts_from_nanos n"
    by (simp add: t shown_time_def)
  have "s mod 3600 mod 60 = s mod 60" by (simp add: mod_mod_cancel)
  then have "s mod 60 = s mod 3600 - s mod 3600 div 60 * 60" by (simp add: minus_div_mult_eq_mod)
  moreover have "s mod 3600 = s - s div 3600 * 3600" by (simp add: minus_div_mult_eq_mod)
  ultimately have "s div 3600 * 3600 + s mod 3600 div 60 * 60 + s mod 60 = s" by simp
  moreover have "n = s * 1000000000 + n mod 1000000000" by (simp add: s_def)
  ultimately show "nanos_of_day (time_parts_from_nanos n) = n"
    by (simp add: t nanos_of_day_def)
qed

lemma localtime_roundtrip:
  assumes "hms_contract E" "0 \<le> n" "n < day_nanos"
  shows "parse_time_of_day E (render_localtime_nanos n) = Some (time_parts_from_nanos n)"
  using assms valid_time_parts_from_nanos [of n] by (simp add: render_localtime_nanos_def parse_format_time)


section \<open>Offsets\<close>

lemma format_offset_shape:
  "format_offset x \<noteq> []" "hd (format_offset x) \<in> {CHR ''Z'', CHR ''+'', CHR ''-''}"
  "graphic (last (format_offset x))" "CHR ''['' \<notin> set (format_offset x)" "CHR ''T'' \<notin> set (format_offset x)"
proof -
  have d: "graphic (last (pad0 w n))" for w n
    using all_digits_ends [of "pad0 w n"] by (simp add: digit_graphic)
  show "format_offset x \<noteq> []" "hd (format_offset x) \<in> {CHR ''Z'', CHR ''+'', CHR ''-''}"
    "graphic (last (format_offset x))" "CHR ''['' \<notin> set (format_offset x)" "CHR ''T'' \<notin> set (format_offset x)"
    by (simp_all add: format_offset_def Let_def d)
qed

lemmas parse_offset_defs = parse_offset_def parse_offset_sign_def parse_offset_fields_def

lemma parse_offset_hm:
  assumes "0 \<le> h" "h < 24" "0 \<le> m" "m < 60"
  shows "parse_offset (CHR ''+'' # pad0 2 (nat h) @ CHR '':'' # pad0 2 (nat m)) =
      Some \<lparr>off_seconds = h * 3600 + m * 60, off_has_seconds = False\<rparr>"
    "parse_offset (CHR ''-'' # pad0 2 (nat h) @ CHR '':'' # pad0 2 (nat m)) =
      Some \<lparr>off_seconds = - (h * 3600 + m * 60), off_has_seconds = False\<rparr>"
  using assms by (simp_all add: parse_offset_defs strip_prefix_char_def time_text to_i32_def)

lemma parse_offset_hms:
  assumes "0 \<le> h" "h < 24" "0 \<le> m" "m < 60" "0 \<le> r" "r < 60"
  shows "parse_offset (CHR ''+'' # pad0 2 (nat h) @ CHR '':'' # pad0 2 (nat m) @ CHR '':'' # pad0 2 (nat r)) =
      Some \<lparr>off_seconds = h * 3600 + m * 60 + r, off_has_seconds = True\<rparr>"
    "parse_offset (CHR ''-'' # pad0 2 (nat h) @ CHR '':'' # pad0 2 (nat m) @ CHR '':'' # pad0 2 (nat r)) =
      Some \<lparr>off_seconds = - (h * 3600 + m * 60 + r), off_has_seconds = True\<rparr>"
  using assms by (simp_all add: parse_offset_defs strip_prefix_char_def time_text to_i32_def)

lemma offset_roundtrip:
  assumes "\<bar>s\<bar> < 86400"
  shows "parse_offset (format_offset (value_offset s)) = Some (value_offset s)"
proof -
  define a where "a = \<bar>s\<bar>"
  define h m r where "h = a div 3600" and "m = a mod 3600 div 60" and "r = a mod 60"
  have a: "0 \<le> a" "a < 86400" using assms by (simp_all add: a_def)
  have "q div 60 < 60" if "q < 3600" for q :: int using that by presburger
  then have b: "0 \<le> h" "h < 24" "0 \<le> m" "m < 60" "0 \<le> r" "r < 60"
    using a by (simp_all add: h_def m_def r_def)
  have "a mod 3600 mod 60 = r" by (simp add: r_def mod_mod_cancel)
  then have "h * 3600 + m * 60 + r = a"
    unfolding h_def m_def by (metis add.assoc div_mult_mod_eq)
  then have sum: "r = a - h * 3600 - m * 60" by simp
  have r0: "s smod 60 = 0 \<longleftrightarrow> r = 0"
    by (simp add: smod_eq_0_iff r_def a_def mod_eq_0_iff_dvd)
  have shape: "format_offset (value_offset s) =
      (if s = 0 then ''Z''
       else (if s < 0 then CHR ''-'' else CHR ''+'') # pad0 2 (nat h) @ CHR '':'' # pad0 2 (nat m)
            @ (if r = 0 then [] else CHR '':'' # pad0 2 (nat r)))"
    using a by (simp add: format_offset_def value_offset_def Let_def sdiv_nonneg smod_nonneg a_def [symmetric]
      h_def [symmetric] m_def [symmetric] r_def [symmetric] r0)
  have digits: "all_digits (pad0 2 (nat k)) \<and> pad0 2 (nat k) \<noteq> []" for k by simp
  show ?thesis
  proof (cases "s = 0")
    case True
    then show ?thesis unfolding shape by (simp add: parse_offset_def value_offset_def smod_eq_0_iff)
  next
    case False
    then show ?thesis
      using b r0 sum parse_offset_hm [OF b(1-4)] parse_offset_hms [OF b] unfolding shape if_not_P [OF False]
      by (cases "r = 0"; cases "s < 0") (simp_all add: value_offset_def a_def)
  qed
qed

section \<open>Dates\<close>

lemma year_bound:
  assumes "i64_ok z" "civil_from_days z = (y, m, d)"
  shows "\<bar>y\<bar> < 2 ^ 63"
proof -
  note b = civil_year_bounds [OF assms(2)]
  have j: "days_from_civil k 1 1 = mdays (k - 1) + 306 - 719468" for k
    by (simp add: days_from_civil_alt mdoy_def)
  have p: "365 * k \<le> mdays k" if "0 \<le> k" for k
    using that zdiv_mono2 [of k 4 100] pos_imp_zdiv_nonneg_iff [of 400 k] by (simp add: mdays_def)
  have n: "mdays k \<le> 365 * k + 3" if "k < 0" for k
    using that zdiv_mono2_neg [of k 4 100] pos_imp_zdiv_neg_iff [of 400 k] by (simp add: mdays_def)
  show ?thesis
    using b assms(1) p [of "y - 1"] n [of y] by (cases "0 \<le> y - 1"; cases "y < 0") (auto simp: j i64_ok_def)
qed

lemma format_year_shape:
  obtains sg w where "format_year y = sg @ pad0 w (nat \<bar>y\<bar>)"
    "sg = [] \<and> 0 \<le> y \<or> sg = ''-'' \<and> y < 0 \<or> sg = ''+'' \<and> 0 \<le> y"
proof (cases "0 \<le> y \<and> y \<le> 9999")
  case True
  then show ?thesis using that [of "[]" 4] by (simp add: format_year_def)
next
  case False
  then show ?thesis
  proof (cases "y < 0")
    case True
    then show ?thesis using that [of "''-''" 4] by (simp add: format_year_def)
  next
    case p: False
    have "show_nat (nat y) = pad0 0 (nat y)" by (simp add: pad0_def)
    with p False show ?thesis using that [of "''+''" 0] by (simp add: format_year_def)
  qed
qed

lemma date_roundtrip:
  assumes "i64_ok z"
  shows "parse_date_string (format_date z) = Some z"
proof -
  obtain y m d where c: "civil_from_days z = (y, m, d)" by (metis prod_cases3)
  have v: "1 \<le> m" "m \<le> 12" "1 \<le> d" "d \<le> days_in_month y m"
    using valid_civil [of z] by (simp_all add: c valid_date_def)
  have "days_in_month y m \<le> 31" by (simp add: days_in_month_def)
  note v = v this
  have z: "ymd_to_days y m d = Some z"
    using v by (simp add: ymd_to_days_def days_civil_days [OF c])
  obtain sg w where f: "format_year y = sg @ pad0 w (nat \<bar>y\<bar>)"
    "sg = [] \<and> 0 \<le> y \<or> sg = ''-'' \<and> y < 0 \<or> sg = ''+'' \<and> 0 \<le> y"
    by (rule format_year_shape)
  define k where "k = nat \<bar>y\<bar>"
  have k: "int k = \<bar>y\<bar>" by (simp add: k_def)
  let ?t = "pad0 2 (nat m) @ CHR ''-'' # pad0 2 (nat d)"
  let ?s = "pad0 w k @ CHR ''-'' # ?t"
  have fmt: "format_date z = sg @ ?s" by (simp add: format_date_def c f k_def)
  obtain x xs where p: "pad0 w k = x # xs" "is_ascii_digit x"
    using pad0_props(1,2) [of w k] by (cases "pad0 w k") auto
  have x: "x \<noteq> CHR ''-''" "x \<noteq> CHR ''+''" using p(2) not_digit by metis+
  have "graphic (last (pad0 2 (nat d)))"
    using all_digits_ends [of "pad0 2 (nat d)"] by (simp add: digit_graphic)
  then have tr: "trim (sg @ ?s) = sg @ ?s"
    using f(2) p by (intro trim_graphic) (auto simp: digit_graphic)
  have y: "to_i64 \<bar>y\<bar> = Some \<bar>y\<bar>" using year_bound [OF assms c] by (simp add: i64_ok_def)
  have W: "split_once (CHR ''W'') ?s = None" by (simp add: split_once_None)
  have h: "split_once (CHR ''-'') ?s = Some (pad0 w k, ?t)"
    by (rule split_once_append) simp
  have sign: "(case strip_prefix_char (CHR ''-'') (sg @ ?s) of
               Some r \<Rightarrow> (True, True, r)
             | None \<Rightarrow> (case strip_prefix_char (CHR ''+'') (sg @ ?s) of
                          Some r \<Rightarrow> (False, True, r)
                        | None \<Rightarrow> (False, False, sg @ ?s))) = (y < 0, sg \<noteq> [], ?s)"
    using f(2) x by (auto simp: strip_prefix_char_def p)
  have sy: "(if y < 0 then - \<bar>y\<bar> else \<bar>y\<bar>) = y" by simp
  show ?thesis
    unfolding parse_date_string_def fmt tr Let_def sign prod.case W h option.case
    using v z y by (simp add: time_text to_u32_def to_i64_def sy k)
qed


lemma format_date_shape:
  "format_date z \<noteq> []" "graphic (hd (format_date z))"  "CHR ''T'' \<notin> set (format_date z)"
  "CHR ''['' \<notin> set (format_date z)"
proof -
  obtain y m d where c: "civil_from_days z = (y, m, d)" by (metis prod_cases3)
  obtain sg w where f: "format_year y = sg @ pad0 w (nat \<bar>y\<bar>)"
    "sg = [] \<and> 0 \<le> y \<or> sg = ''-'' \<and> y < 0 \<or> sg = ''+'' \<and> 0 \<le> y"
    by (rule format_year_shape)
  have "graphic (hd (pad0 w k))" for k
    using all_digits_ends [of "pad0 w k"] by (simp add: digit_graphic)
  with f(2) show "format_date z \<noteq> []" "graphic (hd (format_date z))" "CHR ''T'' \<notin> set (format_date z)"
    "CHR ''['' \<notin> set (format_date z)"
    by (auto simp: format_date_def c f(1))
qed

section \<open>Renderings read back\<close>

lemma render_localtime_chars [simp]:
  "CHR ''T'' \<notin> set (render_localtime_nanos n)" "CHR ''['' \<notin> set (render_localtime_nanos n)"
  "render_localtime_nanos n \<noteq> []" "graphic (hd (render_localtime_nanos n))"
  "graphic (last (render_localtime_nanos n))"
  "split_time_offset (render_localtime_nanos n) = (render_localtime_nanos n, None)"
  "split_time_offset (render_localtime_nanos n @ format_offset x) = (render_localtime_nanos n, Some (format_offset x))"
  using format_offset_shape(1,2) [of x]
  by (simp_all add: render_localtime_nanos_def digit_graphic split_time_offset_none split_time_offset_some)

lemma localtime_from_render:
  assumes "hms_contract E" "0 \<le> n" "n < day_nanos"
  shows "localtime_nanos_from_str E (render_localtime_nanos n) = Some n"
  using assms valid_time_parts_from_nanos(3) [of n]
  by (simp add: localtime_nanos_from_str_def trim_graphic localtime_roundtrip)

lemma time_from_render:
  assumes "hms_contract E" "0 \<le> n" "n < day_nanos" "\<bar>s\<bar> < 86400"
  shows "time_value_from_str E (render_time_value n s) = Some (n, s)"
proof -
  have "trim (render_time_value n s) = render_time_value n s"
    using format_offset_shape [of "value_offset s"] by (intro trim_graphic) (auto simp: render_time_value_def)
  with assms valid_time_parts_from_nanos(3) [of n] show ?thesis
    by (simp add: time_value_from_str_def render_time_value_def localtime_roundtrip offset_roundtrip)
      (simp add: value_offset_def)
qed

lemma localdatetime_from_render:
  assumes "hms_contract E" "i64_ok d" "0 \<le> n" "n < day_nanos"
  shows "localdatetime_parts_from_str E (render_localdatetime d n) = Some (d, n)"
proof -
  have "trim (render_localdatetime d n) = render_localdatetime d n"
    using format_date_shape [of d] by (intro trim_graphic) (auto simp: render_localdatetime_def)
  moreover have "split_once (CHR ''T'') (render_localdatetime d n) = Some (format_date d, render_localtime_nanos n)"
    using format_date_shape(3) [of d] by (simp add: render_localdatetime_def split_once_append)
  ultimately show ?thesis
    using assms valid_time_parts_from_nanos(3) [of n]
    by (simp add: localdatetime_parts_from_str_def date_roundtrip localtime_roundtrip)
qed

lemma datetime_from_render:
  assumes "hms_contract E" "i64_ok d" "0 \<le> n" "n < day_nanos" "\<bar>s\<bar> < 86400"
  shows "datetime_value_from_str E (render_datetime_value d n s zone) = Some (d, n, s, zone)"
proof -
  let ?t = "render_localtime_nanos n @ format_offset (value_offset s)"
  let ?h = "format_date d @ CHR ''T'' # ?t"
  note f = format_date_shape [of d] format_offset_shape [of "value_offset s"]
  have h: "split_once (CHR ''T'') ?h = Some (format_date d, ?t)" "CHR ''['' \<notin> set ?h"
    using f by (simp_all add: split_once_append)
  note r = date_roundtrip [OF assms(2)] localtime_roundtrip [OF assms(1,3,4)] offset_roundtrip [OF assms(5)]
    valid_time_parts_from_nanos(3) [OF assms(3,4)]
  show ?thesis
  proof (cases zone)
    case None
    then have w: "render_datetime_value d n s zone = ?h" by (simp add: render_datetime_value_def)
    have "trim ?h = ?h" using f by (intro trim_graphic) auto
    with None h r show ?thesis
      unfolding w datetime_value_from_str_def by (simp add: split_once_None value_offset_def)
  next
    case (Some z)
    have w: "render_datetime_value d n s (Some z) = ?h @ CHR ''['' # (z @ '']'')"
      by (simp add: render_datetime_value_def)
    have "trim (?h @ CHR ''['' # (z @ '']'')) = ?h @ CHR ''['' # (z @ '']'')"
      using f by (intro trim_graphic) auto
    moreover have "split_once (CHR ''['') (?h @ CHR ''['' # (z @ '']'')) = Some (?h, z @ '']'')"
      by (rule split_once_append) (rule h(2))
    moreover have "strip_suffix_char (CHR '']'') (z @ '']'') = Some z" by (simp add: strip_suffix_char_def)
    ultimately show ?thesis
      using h(1) r unfolding Some w datetime_value_from_str_def
      by (simp add: value_offset_def del: append_assoc append_Cons)
  qed
qed

section \<open>Accepted texts denote values in range\<close>

lemma digits_val_less: "all_digits s \<Longrightarrow> digits_val s < 10 ^ length s"
proof (induction s rule: rev_induct)
  case (snoc c s)
  moreover have "digit_val c < 10" if "is_ascii_digit c"
    using that by (auto simp: is_ascii_digit_def digit_val_def)
  ultimately show ?case by (simp add: digits_val_append)
qed simp

lemma parse_u32_nonneg: "parse_u32 s = Some n \<Longrightarrow> 0 \<le> n"
  by (auto simp: parse_u32_def bind_eq_Some_conv split: list.splits if_splits)

lemma parse_u32_less:
  assumes "all_digits s" "parse_u32 s = Some n"
  shows "n < 10 ^ length s"
proof -
  have "s \<noteq> []" using assms by (auto simp: parse_u32_def)
  with assms(1) have "parse_nat s = Some (digits_val s)" by (simp add: parse_nat_def)
  with assms(2) have "n = int (digits_val s)" by (simp add: parse_u32_digits)
  with digits_val_less [OF assms(1)] show ?thesis by (metis of_nat_less_iff of_nat_numeral of_nat_power)
qed

lemma parse_time_fields_ok:
  assumes "parse_time_fields s = Some (h, m, sec, p)"
  shows "0 \<le> h \<and> 0 \<le> m \<and> 0 \<le> sec \<and> (p = Second \<or> p = Minute \<and> sec = 0)"
  using assms unfolding parse_time_fields_def
  by (auto simp: bind_eq_Some_conv dest!: parse_u32_nonneg split: if_splits list.splits)

lemma parse_time_fraction_ok:
  assumes "parse_time_fraction b f = Some (n, p)"
  shows "0 \<le> n \<and> n < 1000000000 \<and> (p = SubSecond \<or> n = 0 \<and> p = b)"
proof (cases f)
  case (Some x)
  with assms have x: "parse_u32 (x @ replicate (9 - length x) (CHR ''0'')) = Some n" "all_digits x"
      "length x \<le> 9" "p = SubSecond"
    by (auto simp: parse_time_fraction_def bind_eq_Some_conv split: if_splits)
  with parse_u32_less [OF _ x(1)] parse_u32_nonneg [OF x(1)] show ?thesis by simp
qed (use assms in \<open>simp add: parse_time_fraction_def\<close>)

lemma parse_time_of_day_valid:
  assumes "hms_contract E" "parse_time_of_day E s = Some t"
  shows "valid_time t"
proof -
  from assms(2) obtain main frac h m sec b ns p where
    t: "parse_time_fields main = Some (h, m, sec, b)" "parse_time_fraction b frac = Some (ns, p)"
       "from_hms_nano_ok E h m sec ns"
       "t = \<lparr>hour = h, minute = m, second = sec, nanos = ns, precision = p\<rparr>"
    by (auto simp: parse_time_of_day_def bind_eq_Some_conv Let_def split: prod.splits if_splits)
  with assms(1) parse_time_fields_ok [OF t(1)] parse_time_fraction_ok [OF t(2)] show ?thesis
    by (auto simp: valid_time_def hms_contract_def)
qed


lemma nanos_of_day_range: "valid_time t \<Longrightarrow> 0 \<le> nanos_of_day t \<and> nanos_of_day t < day_nanos"
  by (auto simp: valid_time_def nanos_of_day_def day_nanos_def)

lemma parse_i32_nonneg: "all_digits s \<Longrightarrow> parse_i32 s = Some n \<Longrightarrow> 0 \<le> n"
  by (auto simp: parse_i32_def to_i32_def bind_eq_Some_conv split: list.splits if_splits)

lemma all_digits_take_drop [simp]: "all_digits s \<Longrightarrow> all_digits (take k s)" "all_digits s \<Longrightarrow> all_digits (drop k s)"
  by (auto simp: all_digits_def list_all_iff dest: in_set_takeD in_set_dropD)

lemma parse_offset_fields_ok:
  assumes "parse_offset_fields s = Some (h, m, r, b)"
  shows "0 \<le> h \<and> 0 \<le> m \<and> 0 \<le> r \<and> (b \<or> r = 0)"
  using assms unfolding parse_offset_fields_def
  by (auto simp: bind_eq_Some_conv Let_def dest!: parse_i32_nonneg [rotated] split: if_splits list.splits)

lemma parse_offset_ok:
  assumes "parse_offset s = Some x"
  shows "\<bar>off_seconds x\<bar> < 86400" "off_has_seconds x \<or> 60 dvd off_seconds x"
proof -
  have "\<bar>off_seconds x\<bar> < 86400 \<and> (off_has_seconds x \<or> 60 dvd off_seconds x)"
  proof (cases "s = ''Z''")
    case True
    with assms show ?thesis by (auto simp: parse_offset_def)
  next
    case False
    with assms obtain g rest h m r b where
      g: "parse_offset_sign s = Some (g, rest)" and f: "parse_offset_fields rest = Some (h, m, r, b)" and
      x: "h < 24" "m < 60" "r < 60" "x = \<lparr>off_seconds = g * (h * 3600 + m * 60 + r), off_has_seconds = b\<rparr>"
      by (auto simp: parse_offset_def bind_eq_Some_conv split: prod.splits if_splits)
    have "g = 1 \<or> g = - 1" using g by (auto simp: parse_offset_sign_def bind_eq_Some_conv split: option.splits)
    moreover have "60 dvd h * 3600 + m * 60" by (intro dvd_add dvd_mult) simp_all
    ultimately show ?thesis using x parse_offset_fields_ok [OF f] by (auto simp del: dvd_add_times_triv_right_iff)
  qed
  then show "\<bar>off_seconds x\<bar> < 86400" "off_has_seconds x \<or> 60 dvd off_seconds x" by auto
qed

lemma format_value_offset:
  assumes "off_has_seconds x \<or> 60 dvd off_seconds x"
  shows "format_offset (value_offset (off_seconds x)) = format_offset x"
proof -
  have "\<bar>k\<bar> smod 60 = 0 \<longleftrightarrow> 60 dvd k" for k :: int by (simp add: smod_eq_0_iff)
  with assms show ?thesis by (auto simp: format_offset_def value_offset_def Let_def smod_eq_0_iff)
qed

lemma render_time_parts:
  assumes "hms_contract E" "valid_time t" "\<bar>off_seconds x\<bar> < 86400" "off_has_seconds x \<or> 60 dvd off_seconds x"
  shows "render_time E (format_time t @ format_offset x) = Some (format_time t @ format_offset x)"
proof -
  note f = format_offset_shape [of x]
  have "format_time (shown_time t) = format_time t"
    using assms(2) frac_digits(4) [of "nat (nanos t)"]
    by (auto simp: shown_time_def format_time_def Let_def valid_time_def)
  moreover have "trim (format_time t @ format_offset x) = format_time t @ format_offset x"
    using f by (intro trim_graphic) (auto simp: digit_graphic)
  moreover have "split_time_offset (format_time t @ format_offset x) = (format_time t, Some (format_offset x))"
    using f by (intro split_time_offset_some) auto
  moreover have "parse_offset (format_offset x) = Some (value_offset (off_seconds x))"
    using offset_roundtrip [OF assms(3)] by (simp add: format_value_offset [OF assms(4)])
  ultimately show ?thesis
    using assms by (simp add: render_time_def parse_format_time format_value_offset)
qed


section \<open>The codec interface\<close>

text \<open>
  A renderer and a parser of the same values. The laws are the round trip and, for a strict codec, that
  only values in range are accepted; the clients are the typed temporal values.
\<close>

locale text_codec =
  fixes render :: "'a \<Rightarrow> string" and parse :: "string \<Rightarrow> 'a option" and valid :: "'a \<Rightarrow> bool"
  assumes parse_render: "valid v \<Longrightarrow> parse (render v) = Some v"
begin

lemma render_inj: "valid v \<Longrightarrow> valid w \<Longrightarrow> render v = render w \<longleftrightarrow> v = w"
  by (metis parse_render option.inject)

lemma canonical_form: "valid v \<Longrightarrow> map_option render (parse (render v)) = Some (render v)"
  by (simp add: parse_render)

end

locale strict_codec = text_codec +
  assumes parse_valid: "parse s = Some v \<Longrightarrow> valid v"
begin

lemma denoted_iff: "(\<exists>s. parse s = Some v) \<longleftrightarrow> valid v"
  using parse_render parse_valid by blast

lemma normalise_idem:
  "map_option render (parse s) = Some t \<Longrightarrow> map_option render (parse t) = Some t"
  using parse_valid canonical_form by fastforce

end

interpretation date_codec: text_codec format_date parse_date_string i64_ok
  by unfold_locales (rule date_roundtrip)

interpretation offset_codec: strict_codec "\<lambda>s. format_offset (value_offset s)" parse_offset_seconds "\<lambda>s. \<bar>s\<bar> < 86400"
  by unfold_locales
    (auto simp: parse_offset_seconds_def offset_roundtrip dest: parse_offset_ok(1), simp add: value_offset_def)

lemma localtime_from_str_range:
  assumes "hms_contract E" "localtime_nanos_from_str E s = Some n"
  shows "0 \<le> n \<and> n < day_nanos"
  using assms(2) parse_time_of_day_valid [OF assms(1)] nanos_of_day_range
  by (fastforce simp: localtime_nanos_from_str_def Let_def bind_eq_Some_conv split: if_splits prod.splits)

lemma time_value_from_str_range:
  assumes "hms_contract E" "time_value_from_str E s = Some (n, f)"
  shows "0 \<le> n \<and> n < day_nanos \<and> \<bar>f\<bar> < 86400"
proof -
  obtain a x where "parse_time_of_day E a = Some x" "n = nanos_of_day x"
      "f = 0 \<or> (\<exists>y z. parse_offset y = Some z \<and> f = off_seconds z)"
    using assms(2) by (auto simp: time_value_from_str_def bind_eq_Some_conv split: prod.splits option.splits)
  with parse_time_of_day_valid [OF assms(1)] nanos_of_day_range parse_offset_ok(1) show ?thesis by force
qed

locale chrono_clock =
  fixes E :: chrono_env
  assumes hms: "hms_contract E"

sublocale chrono_clock \<subseteq> localtime: strict_codec render_localtime_nanos "localtime_nanos_from_str E"
    "\<lambda>n. 0 \<le> n \<and> n < day_nanos"
  by unfold_locales (auto intro: localtime_from_render hms dest: localtime_from_str_range [OF hms])

sublocale chrono_clock \<subseteq> zoned_time: strict_codec "case_prod render_time_value" "time_value_from_str E"
    "\<lambda>(n, s). 0 \<le> n \<and> n < day_nanos \<and> \<bar>s\<bar> < 86400"
  by unfold_locales (auto intro: time_from_render hms dest: time_value_from_str_range [OF hms])

sublocale chrono_clock \<subseteq> localdatetime: text_codec "case_prod render_localdatetime" "localdatetime_parts_from_str E"
    "\<lambda>(d, n). i64_ok d \<and> 0 \<le> n \<and> n < day_nanos"
  by unfold_locales (auto simp: localdatetime_from_render hms)

sublocale chrono_clock \<subseteq> datetime: text_codec "\<lambda>(d, n, s, z). render_datetime_value d n s z" "datetime_value_from_str E"
    "\<lambda>(d, n, s, z). i64_ok d \<and> 0 \<le> n \<and> n < day_nanos \<and> \<bar>s\<bar> < 86400"
  by unfold_locales (auto simp: datetime_from_render hms)

context chrono_clock
begin

lemmas localtime_exact = localtime.denoted_iff localtime.parse_render localtime.normalise_idem

lemmas zoned_time_exact = zoned_time.denoted_iff zoned_time.parse_render zoned_time.normalise_idem

lemmas date_time_render = localdatetime.parse_render datetime.parse_render datetime.render_inj

end

text \<open>An environment with the documented range checks and no named zones.\<close>

definition chrono_doc :: chrono_env where
  "chrono_doc =
     \<lparr>from_hms_nano_ok = (\<lambda>h m s n. h < 24 \<and> m < 60 \<and> s < 60 \<and> (n < 1000000000 \<or> s = 59 \<and> n < 2000000000)),
      date_in_range = (\<lambda>d. - 96465292 \<le> d \<and> d \<le> 95026236),
      tz_known = (\<lambda>_. False), tz_local_offset = (\<lambda>_ _ _. None), tz_utc_offset = (\<lambda>_ _ _. 0)\<rparr>"

lemma chrono_doc_contract [simp]: "hms_contract chrono_doc"
  by (simp add: chrono_doc_def hms_contract_def)

interpretation doc_clock: chrono_clock chrono_doc
  by unfold_locales simp

lemmas text_eval = split_once_def is_ascii_digit_def digit_val_def parse_nat_def digits_val_def
  parse_u32_def parse_i64_def to_u32_def to_i64_def i64_ok_def strip_prefix_char_def

lemma trim_eval:
  "trim ''2140'' = ''2140''" "trim ''+21:40'' = ''+21:40''"  "trim ''2015-+7-+1'' = ''2015-+7-+1''"
  "trim ''2015-07-01'' = ''2015-07-01''" "trim ''--2015-W30'' = ''--2015-W30''" "trim ''2015-W30'' = ''2015-W30''"
  by (rule trim_graphic; simp add: graphic_def)+

text \<open>Texts outside ISO 8601 that the parsers accept, since \<open>str::parse\<close> takes a leading \<open>+\<close> and the
  week form parses a signed year after the sign has been stripped.\<close>

lemma signed_fields_accepted:
  "localtime_nanos_from_str chrono_doc ''+21:40'' = Some 78000000000000"
  "parse_date_string ''2015-+7-+1'' = parse_date_string ''2015-07-01''"
  "parse_date_string ''2015-07-01'' \<noteq> None"
  "parse_date_string ''--2015-W30'' = parse_date_string ''2015-W30''"
proof -
  show "localtime_nanos_from_str chrono_doc ''+21:40'' = Some 78000000000000"
    by (simp add: localtime_nanos_from_str_def trim_eval split_time_offset_def parse_time_defs chrono_doc_def
        nanos_of_day_def text_eval)
  show "parse_date_string ''2015-+7-+1'' = parse_date_string ''2015-07-01''"
    "parse_date_string ''2015-07-01'' \<noteq> None"
    by (simp_all add: parse_date_string_def trim_eval ymd_to_days_def days_in_month_def text_eval)
  show "parse_date_string ''--2015-W30'' = parse_date_string ''2015-W30''"
    by (simp add: parse_date_string_def trim_eval text_eval trim_end_matches_def)
qed

lemma render_2140: "render_local_time chrono_doc ''2140'' = Some ''21:40''"
proof -
  have "show_nat 21 = ''21''" "show_nat 40 = ''40''" by code_simp+
  then show ?thesis
    by (simp add: render_local_time_def trim_eval split_time_offset_def parse_time_defs chrono_doc_def text_eval
        format_time_def pad0_def)
qed

section \<open>Properties\<close>

text \<open>Every \<open>i64\<close> day count survives rendering: \<open>parse_date_string\<close> reads the ISO date written by
  \<open>format_date\<close> (expanded years and negative years included) back as the same day, and two days
  have the same text only when they are equal.\<close>

lemma date_text_roundtrip:
  assumes "i64_ok z" "i64_ok z'"
  shows "parse_date_string (format_date z) = Some z \<and> (format_date z = format_date z' \<longleftrightarrow> z = z')"
  using date_codec.parse_render date_codec.render_inj assms by simp

text \<open>C16. A \<open>datetime\<close> value (day, nanosecond of the day, offset below a day, optional zone label, any
  text) survives rendering and parsing, whatever the zone database holds.\<close>

theorem datetime_text_roundtrip:
  assumes "hms_contract E" "i64_ok d" "0 \<le> n" "n < day_nanos" "\<bar>s\<bar> < 86400"
  shows "datetime_value_from_str E (render_datetime_value d n s zone) = Some (d, n, s, zone)"
  using chrono_clock.intro [OF assms(1), THEN chrono_clock.date_time_render(2), of "(d, n, s, zone)"] assms
  by simp

theorem datetime_text_roundtrip_witness:
  "hms_contract chrono_doc \<and>
   datetime_value_from_str chrono_doc (render_datetime_value (- 719528) 86399999999999 (- 3208) (Some ''Europe/Stockholm''))
     = Some (- 719528, 86399999999999, - 3208, Some ''Europe/Stockholm'')"
  using datetime_text_roundtrip [of chrono_doc "- 719528" 86399999999999 "- 3208"]
  by (simp add: i64_ok_def day_nanos_def)

text \<open>C36. \<open>localtime\<close> and \<open>time\<close>: the accepted strings denote exactly the nanoseconds of a day (with,
  for \<open>time\<close>, the offsets below a day), every such value is the reading of its own rendering, and
  rendering what was read is idempotent.\<close>

theorem time_text_exact:
  assumes "hms_contract E"
  shows "((\<exists>s. localtime_nanos_from_str E s = Some n) \<longleftrightarrow> 0 \<le> n \<and> n < day_nanos)
    \<and> ((\<exists>s. time_value_from_str E s = Some (n, f)) \<longleftrightarrow> 0 \<le> n \<and> n < day_nanos \<and> \<bar>f\<bar> < 86400)
    \<and> (0 \<le> n \<and> n < day_nanos \<longrightarrow> localtime_nanos_from_str E (render_localtime_nanos n) = Some n)
    \<and> (0 \<le> n \<and> n < day_nanos \<and> \<bar>f\<bar> < 86400 \<longrightarrow> time_value_from_str E (render_time_value n f) = Some (n, f))
    \<and> (map_option render_localtime_nanos (localtime_nanos_from_str E s) = Some t \<longrightarrow>
         map_option render_localtime_nanos (localtime_nanos_from_str E t) = Some t)"
proof -
  have c: "chrono_clock E" using assms by (rule chrono_clock.intro)
  show ?thesis
    using chrono_clock.localtime_exact [OF c] chrono_clock.zoned_time_exact(1,2) [OF c, where v = "(n, f)"]
    by simp
qed

theorem time_text_exact_witness:
  "hms_contract chrono_doc \<and> localtime_nanos_from_str chrono_doc (render_localtime_nanos 78032142000000) = Some 78032142000000
   \<and> time_value_from_str chrono_doc (render_time_value 78032142000000 3600) = Some (78032142000000, 3600)"
  using time_text_exact [of chrono_doc 78032142000000 3600] by (simp add: day_nanos_def)

text \<open>The literal forms of \<open>localtime\<close> and \<open>time\<close>, which keep the precision of the input, are
  idempotent: a canonical rendering is accepted and is its own rendering.\<close>

lemma time_rendering_idempotent:
  assumes "hms_contract E"
  shows "(render_local_time E s = Some t \<longrightarrow> render_local_time E t = Some t)
    \<and> (render_time E s = Some t \<longrightarrow> render_time E t = Some t)"
proof (intro conjI impI)
  assume "render_local_time E s = Some t"
  then obtain x where x: "parse_time_of_day E (trim s) = Some x" "t = format_time x"
    by (auto simp: render_local_time_def Let_def bind_eq_Some_conv split: prod.splits if_splits)
  note v = parse_time_of_day_valid [OF assms x(1)]
  then have "format_time (shown_time x) = format_time x"
    using frac_digits(4) [of "nat (nanos x)"] by (auto simp: shown_time_def format_time_def Let_def valid_time_def)
  with x v show "render_local_time E t = Some t"
    by (simp add: render_local_time_def split_time_offset_none parse_format_time [OF assms])
next
  assume "render_time E s = Some t"
  then obtain a x y z where x: "parse_time_of_day E a = Some x" "parse_offset y = Some z"
      "t = format_time x @ format_offset z"
    by (auto simp: render_time_def Let_def bind_eq_Some_conv split: prod.splits)
  then show "render_time E t = Some t"
    using render_time_parts [OF assms parse_time_of_day_valid [OF assms x(1)] parse_offset_ok [OF x(2)]] by simp
qed

end
