(* ===== verification/Temporal_Value.thy ===== *)
theory Temporal_Value
  imports Temporal_Text
begin

text \<open>
  The value side of \<open>crates/graphforge-rel/src/temporal.rs\<close>: component accessors, truncation, map
  constructors, and the projections of dates, times and date-times through component overrides and
  time zones. \<open>i64\<close> arithmetic on caller-supplied numbers is wrapped as in a build without overflow
  checks.
\<close>

section \<open>Field maps\<close>

text \<open>The type variable stands for \<open>f64\<close>, whose values the operations below never inspect.\<close>

datatype 'f temporal_field = FInt i64 | FFloat 'f | FStr string | FDate i64

type_synonym 'f fields = "string \<Rightarrow> 'f temporal_field option"

definition f_int :: "'f fields \<Rightarrow> string \<Rightarrow> i64 option" where
  "f_int f k = (case f k of Some (FInt n) \<Rightarrow> Some n | _ \<Rightarrow> None)"

definition f_str :: "'f fields \<Rightarrow> string \<Rightarrow> string option" where
  "f_str f k = (case f k of Some (FStr s) \<Rightarrow> Some s | _ \<Rightarrow> None)"

definition f_date :: "'f fields \<Rightarrow> string \<Rightarrow> i64 option" where
  "f_date f k = (case f k of Some (FDate d) \<Rightarrow> Some d | _ \<Rightarrow> None)"

definition contains_key :: "'f fields \<Rightarrow> string \<Rightarrow> bool" where
  "contains_key f k \<longleftrightarrow> f k \<noteq> None"

fun unwrap_or :: "'a option \<Rightarrow> 'a \<Rightarrow> 'a" where
  "unwrap_or (Some x) _ = x"
| "unwrap_or None d = d"

section \<open>Accessors\<close>

definition base_day_of_quarter :: "i64 \<Rightarrow> i64" where
  "base_day_of_quarter days =
     (let (year, month, _) = civil_from_days days;
          start_month = ((month - 1) sdiv 3) * 3 + 1;
          start = unwrap_or (ymd_to_days year start_month 1) days
      in days - start + 1)"

definition is_date_accessor :: "string \<Rightarrow> bool" where
  "is_date_accessor name \<longleftrightarrow> name \<in> {''year'', ''quarter'', ''month'', ''week'', ''weekYear'', ''day'',
     ''ordinalDay'', ''weekDay'', ''dayOfQuarter''}"

definition date_component :: "i64 \<Rightarrow> string \<Rightarrow> i64 option" where
  "date_component days name =
     (let (year, month, day) = civil_from_days days
      in if name = ''year'' then Some year
         else if name = ''quarter'' then Some ((month - 1) sdiv 3 + 1)
         else if name = ''month'' then Some month
         else if name = ''week'' then Some (snd (iso_week days))
         else if name = ''weekYear'' then Some (fst (iso_week days))
         else if name = ''day'' then Some day
         else if name = ''ordinalDay'' then Some (ordinal days)
         else if name = ''weekDay'' then Some (iso_weekday days)
         else if name = ''dayOfQuarter'' then Some (base_day_of_quarter days)
         else None)"

definition is_time_accessor :: "string \<Rightarrow> bool" where
  "is_time_accessor name \<longleftrightarrow> name \<in> {''hour'', ''minute'', ''second'', ''millisecond'', ''microsecond'', ''nanosecond''}"

definition is_zone_int_accessor :: "string \<Rightarrow> bool" where
  "is_zone_int_accessor name \<longleftrightarrow> name \<in> {''offsetMinutes'', ''offsetSeconds''}"

definition is_zone_str_accessor :: "string \<Rightarrow> bool" where
  "is_zone_str_accessor name \<longleftrightarrow> name \<in> {''timezone'', ''offset''}"

definition is_epoch_accessor :: "string \<Rightarrow> bool" where
  "is_epoch_accessor name \<longleftrightarrow> name \<in> {''epochSeconds'', ''epochMillis''}"

definition time_component :: "i64 \<Rightarrow> string \<Rightarrow> i64 option" where
  "time_component n name =
     (let sub = n mod 1000000000
      in if name = ''hour'' then Some ((n div 3600000000000) smod 24)
         else if name = ''minute'' then Some ((n div 60000000000) smod 60)
         else if name = ''second'' then Some ((n div 1000000000) smod 60)
         else if name = ''millisecond'' then Some (sub sdiv 1000000)
         else if name = ''microsecond'' then Some (sub sdiv 1000)
         else if name = ''nanosecond'' then Some sub
         else None)"

definition zone_int_component :: "i32 \<Rightarrow> string \<Rightarrow> i64 option" where
  "zone_int_component off_secs name =
     (if name = ''offsetMinutes'' then Some (off_secs sdiv 60)
      else if name = ''offsetSeconds'' then Some off_secs
      else None)"

definition zone_str_component :: "i32 \<Rightarrow> string option \<Rightarrow> string \<Rightarrow> string option" where
  "zone_str_component off_secs zone name =
     (let offset_str = format_offset (value_offset off_secs)
      in if name = ''offset'' then Some offset_str
         else if name = ''timezone'' then Some (unwrap_or zone offset_str)
         else None)"

definition epoch_component :: "i64 \<Rightarrow> i64 \<Rightarrow> i32 \<Rightarrow> string \<Rightarrow> i64 option" where
  "epoch_component days n off_secs name =
     (let epoch_secs = wrap64 (days * 86400 + n div 1000000000 - off_secs)
      in if name = ''epochSeconds'' then Some epoch_secs
         else if name = ''epochMillis'' then
           Some (wrap64 (epoch_secs * 1000 + (n mod 1000000000) sdiv 1000000))
         else None)"

section \<open>Truncation\<close>

definition truncate_date :: "i64 \<Rightarrow> string \<Rightarrow> i64 option" where
  "truncate_date days unit =
     (let (year, month, _) = civil_from_days days;
          jan1 = (\<lambda>y. ymd_to_days y 1 1)
      in if unit = ''millennium'' then jan1 (year div 1000 * 1000)
         else if unit = ''century'' then jan1 (year div 100 * 100)
         else if unit = ''decade'' then jan1 (year div 10 * 10)
         else if unit = ''year'' then jan1 year
         else if unit = ''weekYear'' then from_iso_ywd (fst (iso_week days)) 1 1
         else if unit = ''quarter'' then ymd_to_days year (((month - 1) sdiv 3) * 3 + 1) 1
         else if unit = ''month'' then ymd_to_days year month 1
         else if unit = ''week'' then Some (days - num_days_from_monday days)
         else if unit = ''day'' then Some days
         else None)"

definition truncate_time_nanos :: "i64 \<Rightarrow> string \<Rightarrow> i64 option" where
  "truncate_time_nanos n unit =
     (let floor = (\<lambda>step. (n sdiv step) * step)
      in if unit = ''hour'' then Some (floor 3600000000000)
         else if unit = ''minute'' then Some (floor 60000000000)
         else if unit = ''second'' then Some (floor 1000000000)
         else if unit = ''millisecond'' then Some (floor 1000000)
         else if unit = ''microsecond'' then Some (floor 1000)
         else if unit \<in> {''millennium'', ''century'', ''decade'', ''year'', ''weekYear'', ''quarter'', ''month'',
                         ''week'', ''day''} then Some 0
         else None)"

section \<open>Map constructors\<close>

definition resolve_date :: "'f fields \<Rightarrow> i64 option" where
  "resolve_date f =
     (case f_date f ''date'' of
        Some anchor \<Rightarrow>
          if contains_key f ''week'' then
            do { let iso_year = (case f_int f ''year'' of Some y \<Rightarrow> y | None \<Rightarrow> fst (iso_week anchor));
                 w \<leftarrow> f_int f ''week'';
                 week \<leftarrow> to_u32 w;
                 dow \<leftarrow> (case f_int f ''dayOfWeek'' of Some d \<Rightarrow> to_u32 d | None \<Rightarrow> Some (iso_weekday anchor));
                 from_iso_ywd iso_year week dow }
          else Some anchor
      | None \<Rightarrow>
          do { year \<leftarrow> f_int f ''year'';
               if contains_key f ''month'' \<or> contains_key f ''day'' then
                 do { month \<leftarrow> to_u32 (unwrap_or (f_int f ''month'') 1);
                      day \<leftarrow> to_u32 (unwrap_or (f_int f ''day'') 1);
                      ymd_to_days year month day }
               else if contains_key f ''week'' then
                 do { w \<leftarrow> f_int f ''week'';
                      week \<leftarrow> to_u32 w;
                      dow \<leftarrow> to_u32 (unwrap_or (f_int f ''dayOfWeek'') 1);
                      from_iso_ywd year week dow }
               else if contains_key f ''ordinalDay'' then
                 do { k \<leftarrow> f_int f ''ordinalDay''; k \<leftarrow> to_u32 k; from_ordinal year k }
               else if contains_key f ''quarter'' then
                 do { quarter \<leftarrow> f_int f ''quarter'';
                      let day_of_quarter = unwrap_or (f_int f ''dayOfQuarter'') 1;
                      start_month \<leftarrow> to_u32 (wrap64 ((quarter - 1) * 3 + 1));
                      start \<leftarrow> ymd_to_days year start_month 1;
                      let off = wrap64 (day_of_quarter - 1);
                      if off < 0 then None else Some (wrap64 (start + off)) }
               else ymd_to_days year 1 1 })"

definition date_from_map :: "'f fields \<Rightarrow> i64 option" where
  "date_from_map f = resolve_date f"

definition resolve_time :: "chrono_env \<Rightarrow> 'f fields \<Rightarrow> time_parts option" where
  "resolve_time E f =
     do { h \<leftarrow> to_u32 (unwrap_or (f_int f ''hour'') 0);
          m \<leftarrow> to_u32 (unwrap_or (f_int f ''minute'') 0);
          s \<leftarrow> to_u32 (unwrap_or (f_int f ''second'') 0);
          let milli = unwrap_or (f_int f ''millisecond'') 0;
          let micro = unwrap_or (f_int f ''microsecond'') 0;
          let nano = unwrap_or (f_int f ''nanosecond'') 0;
          ns \<leftarrow> to_u32 (wrap64 (milli * 1000000 + micro * 1000 + nano));
          let prec = (if contains_key f ''millisecond'' \<or> contains_key f ''microsecond'' \<or> contains_key f ''nanosecond''
                      then SubSecond
                      else if contains_key f ''second'' then Second else Minute);
          if \<not> from_hms_nano_ok E h m s ns then None
          else Some \<lparr>hour = h, minute = m, second = s, nanos = ns, precision = prec\<rparr> }"

definition resolve_timezone ::
    "chrono_env \<Rightarrow> 'f fields \<Rightarrow> i64 option \<Rightarrow> time_parts \<Rightarrow> (offset \<times> string option) option" where
  "resolve_timezone E f date time =
     (case f_str f ''timezone'' of
        None \<Rightarrow> Some (\<lparr>off_seconds = 0, off_has_seconds = False\<rparr>, None)
      | Some tz \<Rightarrow>
          if tz = ''Z'' \<or> strip_prefix_char (CHR ''+'') tz \<noteq> None \<or> strip_prefix_char (CHR ''-'') tz \<noteq> None then
            do { off \<leftarrow> parse_offset tz; Some (off, None) }
          else do { d \<leftarrow> date; off \<leftarrow> resolve_zone_offset E d time tz; Some (off, Some tz) })"

definition build_time_map :: "chrono_env \<Rightarrow> 'f fields \<Rightarrow> string option" where
  "build_time_map E f =
     (if \<not> contains_key f ''hour'' then None
      else do { time \<leftarrow> resolve_time E f;
                (off, _) \<leftarrow> resolve_timezone E f None time;
                Some (format_time time @ format_offset off) })"

definition build_date_time_map :: "chrono_env \<Rightarrow> 'f fields \<Rightarrow> string option" where
  "build_date_time_map E f =
     do { date \<leftarrow> resolve_date f;
          time \<leftarrow> resolve_time E f;
          (off, zone) \<leftarrow> resolve_timezone E f (Some date) time;
          let out = format_date date @ ''T'' @ format_time time @ format_offset off;
          Some (case zone of Some z \<Rightarrow> out @ ''['' @ z @ '']'' | None \<Rightarrow> out) }"

text \<open>\<open>duration_map\<close> is \<open>build_duration_map\<close> followed by \<open>format_duration\<close>, over \<open>f64\<close> fields.\<close>

definition render_temporal_map ::
    "chrono_env \<Rightarrow> ('f fields \<Rightarrow> string option) \<Rightarrow> string \<Rightarrow> 'f fields \<Rightarrow> string option" where
  "render_temporal_map E duration_map name f =
     (if name = ''date'' then map_option format_date (resolve_date f)
      else if name = ''localtime'' then
        (if \<not> contains_key f ''hour'' then None else map_option format_time (resolve_time E f))
      else if name = ''time'' then build_time_map E f
      else if name = ''localdatetime'' then
        do { date \<leftarrow> resolve_date f; time \<leftarrow> resolve_time E f; Some (format_date date @ ''T'' @ format_time time) }
      else if name = ''datetime'' then build_date_time_map E f
      else if name = ''duration'' then duration_map f
      else None)"

definition localtime_nanos_from_map :: "chrono_env \<Rightarrow> 'f fields \<Rightarrow> i64 option" where
  "localtime_nanos_from_map E f = map_option nanos_of_day (resolve_time E f)"

definition localdatetime_parts_from_map :: "chrono_env \<Rightarrow> 'f fields \<Rightarrow> (i64 \<times> i64) option" where
  "localdatetime_parts_from_map E f =
     do { date \<leftarrow> resolve_date f; time \<leftarrow> resolve_time E f; Some (date, nanos_of_day time) }"

definition time_value_from_map :: "chrono_env \<Rightarrow> 'f fields \<Rightarrow> (i64 \<times> i32) option" where
  "time_value_from_map E f =
     (if \<not> contains_key f ''hour'' then None
      else do { time \<leftarrow> resolve_time E f;
                (off, _) \<leftarrow> resolve_timezone E f None time;
                Some (nanos_of_day time, off_seconds off) })"

definition datetime_value_from_map :: "chrono_env \<Rightarrow> 'f fields \<Rightarrow> date_time_parts option" where
  "datetime_value_from_map E f =
     do { date \<leftarrow> resolve_date f;
          time \<leftarrow> resolve_time E f;
          (off, zone) \<leftarrow> resolve_timezone E f (Some date) time;
          Some (date, nanos_of_day time, off_seconds off, zone) }"

section \<open>Projection\<close>

record date_overrides =
  o_year :: "i64 option"
  o_month :: "i64 option"
  o_day :: "i64 option"
  o_week :: "i64 option"
  o_day_of_week :: "i64 option"
  o_ordinal_day :: "i64 option"
  o_quarter :: "i64 option"
  o_day_of_quarter :: "i64 option"

definition project_date :: "i64 \<Rightarrow> date_overrides \<Rightarrow> i64 option" where
  "project_date base_days ov =
     (let (base_year, base_month, base_day) = civil_from_days base_days;
          year = unwrap_or (o_year ov) base_year
      in if o_week ov \<noteq> None \<or> o_day_of_week ov \<noteq> None then
           (let (base_iso_year, base_week) = iso_week base_days;
                iso_year = unwrap_or (o_year ov) base_iso_year
            in do { week \<leftarrow> (case o_week ov of Some w \<Rightarrow> to_u32 w | None \<Rightarrow> Some base_week);
                    dow \<leftarrow> (case o_day_of_week ov of Some d \<Rightarrow> to_u32 d | None \<Rightarrow> Some (iso_weekday base_days));
                    from_iso_ywd iso_year week dow })
         else case o_ordinal_day ov of
           Some k \<Rightarrow> do { k \<leftarrow> to_u32 k; from_ordinal year k }
         | None \<Rightarrow>
           if o_quarter ov \<noteq> None \<or> o_day_of_quarter ov \<noteq> None then
             (let quarter = (case o_quarter ov of Some q \<Rightarrow> q | None \<Rightarrow> (base_month - 1) sdiv 3 + 1);
                  day_of_quarter = unwrap_or (o_day_of_quarter ov) (base_day_of_quarter base_days);
                  off = wrap64 (day_of_quarter - 1)
              in if off < 0 then None
                 else do { start_month \<leftarrow> to_u32 (wrap64 ((quarter - 1) * 3 + 1));
                           start \<leftarrow> ymd_to_days year start_month 1;
                           let result = wrap64 (start + off);
                           let (result_year, result_month, _) = civil_from_days result;
                           let result_quarter = (result_month - 1) sdiv 3 + 1;
                           if result_year \<noteq> year \<or> result_quarter \<noteq> quarter then None else Some result })
           else
             do { month \<leftarrow> (case o_month ov of Some m \<Rightarrow> to_u32 m | None \<Rightarrow> Some base_month);
                  day \<leftarrow> (case o_day ov of Some d \<Rightarrow> to_u32 d | None \<Rightarrow> Some base_day);
                  ymd_to_days year month day })"

record local_time_overrides =
  o_hour :: "i64 option"
  o_minute :: "i64 option"
  o_second :: "i64 option"
  o_millisecond :: "i64 option"
  o_microsecond :: "i64 option"
  o_nanosecond :: "i64 option"

definition project_localtime :: "chrono_env \<Rightarrow> i64 \<Rightarrow> local_time_overrides \<Rightarrow> i64 option" where
  "project_localtime E base_nanos ov =
     (let base = time_parts_from_nanos base_nanos
      in do { h \<leftarrow> (case o_hour ov of Some h \<Rightarrow> to_u32 h | None \<Rightarrow> Some (hour base));
              m \<leftarrow> (case o_minute ov of Some m \<Rightarrow> to_u32 m | None \<Rightarrow> Some (minute base));
              s \<leftarrow> (case o_second ov of Some s \<Rightarrow> to_u32 s | None \<Rightarrow> Some (second base));
              ns \<leftarrow> (if o_millisecond ov \<noteq> None \<or> o_microsecond ov \<noteq> None \<or> o_nanosecond ov \<noteq> None then
                      (let base_milli = nanos base sdiv 1000000;
                           base_micro = (nanos base sdiv 1000) smod 1000;
                           base_nano = nanos base smod 1000
                       in to_u32 (wrap64 (unwrap_or (o_millisecond ov) base_milli * 1000000
                                          + unwrap_or (o_microsecond ov) base_micro * 1000
                                          + unwrap_or (o_nanosecond ov) base_nano)))
                    else Some (nanos base));
              if \<not> from_hms_nano_ok E h m s ns then None
              else Some (nanos_of_day \<lparr>hour = h, minute = m, second = s, nanos = ns, precision = Minute\<rparr>) })"

definition project_time :: "i64 \<Rightarrow> i32 option \<Rightarrow> i32 option \<Rightarrow> i64 \<times> i32" where
  "project_time base_nanos base_offset new_offset =
     (case (new_offset, base_offset) of
        (Some new, Some old) \<Rightarrow> ((base_nanos + (new - old) * 1000000000) mod 86400000000000, new)
      | (Some new, None) \<Rightarrow> (base_nanos, new)
      | (None, Some old) \<Rightarrow> (base_nanos, old)
      | (None, None) \<Rightarrow> (base_nanos, 0))"

text \<open>
  A call that may panic. \<open>NaiveDateTime + Duration\<close> and \<open>DateTime::naive_local\<close> panic when the result is
  outside \<open>chrono\<close>'s range; a \<open>NaiveDateTime\<close> is a day and a nanosecond of the day.
\<close>

datatype 'a outcome = Return 'a | Panic

definition naive_shift :: "chrono_env \<Rightarrow> i64 \<times> i64 \<Rightarrow> i64 \<Rightarrow> (i64 \<times> i64) option" where
  "naive_shift E dt secs =
     (let t = fst dt * 86400000000000 + snd dt + secs * 1000000000
      in if date_in_range E (t div 86400000000000)
         then Some (t div 86400000000000, t mod 86400000000000) else None)"

definition nanos_to_naive_time :: "chrono_env \<Rightarrow> i64 \<Rightarrow> i64 option" where
  "nanos_to_naive_time E n =
     (let tp = time_parts_from_nanos n
      in if from_hms_nano_ok E (hour tp) (minute tp) (second tp) (nanos tp) then Some (nanos_of_day tp) else None)"

definition project_datetime ::
    "chrono_env \<Rightarrow> i64 \<Rightarrow> i64 \<Rightarrow> i32 option \<Rightarrow> string option \<Rightarrow> string option \<Rightarrow> date_time_parts option outcome" where
  "project_datetime E date n src_offset src_zone new_tz =
     (case (epoch_days_to_date E date, nanos_to_naive_time E n) of
        (Some base, Some time) \<Rightarrow>
          (let local = (base, time);
               src_offset = (case (src_offset, src_zone) of
                   (Some off, Some z) \<Rightarrow>
                     (case resolve_zone_offset E date (time_parts_from_nanos n) z of
                        Some r \<Rightarrow> Some (off_seconds r) | None \<Rightarrow> Some off)
                 | (off, _) \<Rightarrow> off)
           in case new_tz of
                None \<Rightarrow> Return (Some (case src_offset of Some off \<Rightarrow> (date, n, off, src_zone) | None \<Rightarrow> (date, n, 0, None)))
              | Some tz \<Rightarrow>
                  (case parse_offset_seconds tz of
                     Some new_off \<Rightarrow>
                       (case src_offset of
                          Some src \<Rightarrow>
                            (case naive_shift E local (new_off - src) of
                               Some (d, t) \<Rightarrow> Return (Some (d, t, new_off, None))
                             | None \<Rightarrow> Panic)
                        | None \<Rightarrow> Return (Some (date, n, new_off, None)))
                   | None \<Rightarrow>
                       if \<not> tz_known E tz then Return None
                       else (case src_offset of
                          Some src \<Rightarrow>
                            (case naive_shift E local (- src) of
                               None \<Rightarrow> Panic
                             | Some utc \<Rightarrow>
                                 (let off = tz_utc_offset E tz (fst utc) (snd utc)
                                  in case naive_shift E utc off of
                                       None \<Rightarrow> Panic
                                     | Some (d, t) \<Rightarrow> Return (Some (d, t, off, Some tz))))
                        | None \<Rightarrow>
                            Return (map_option (\<lambda>r. (date, n, off_seconds r, Some tz))
                                     (resolve_zone_offset E date (time_parts_from_nanos n) tz)))))
      | _ \<Rightarrow> Return None)"

definition datetime_from_epoch ::
    "chrono_env \<Rightarrow> i64 \<Rightarrow> i64 \<Rightarrow> string option \<Rightarrow> date_time_parts option outcome" where
  "datetime_from_epoch E secs n timezone =
     (let instant = secs * 1000000000 + n
      in case (to_i64 (instant div 86400000000000), to_i64 (instant mod 86400000000000)) of
           (Some days, Some nod) \<Rightarrow> project_datetime E days nod (Some 0) None timezone
         | _ \<Rightarrow> Return None)"

section \<open>Periods\<close>

text \<open>
  A division of the time line into periods: \<open>idx\<close> numbers them, \<open>start\<close> gives the first point of each. The one
  law is a Galois connection; what truncation to the start of a period promises follows from it.
\<close>

locale period =
  fixes idx :: "int \<Rightarrow> int" and start :: "int \<Rightarrow> int"
  assumes galois: "start p \<le> d \<longleftrightarrow> p \<le> idx d"
begin

lemma start_le: "start (idx d) \<le> d"
  by (simp add: galois)

lemma idx_mono: "d \<le> e \<Longrightarrow> idx d \<le> idx e"
  using galois [of "idx d" e] start_le [of d] by simp

lemma same_period:
  assumes "start (idx d) \<le> e" "e \<le> d"
  shows "idx e = idx d"
  using assms galois [of "idx d" e] idx_mono [of e d] by simp

lemma latest_start:
  "t = start (idx d) \<longleftrightarrow> start (idx t) = t \<and> t \<le> d \<and> (\<forall>e. t < e \<and> e \<le> d \<longrightarrow> start (idx e) \<noteq> e)"
proof
  assume t: "t = start (idx d)"
  have "start (idx e) \<noteq> e" if "t < e" "e \<le> d" for e using same_period [of d e] that t by simp
  with t show "start (idx t) = t \<and> t \<le> d \<and> (\<forall>e. t < e \<and> e \<le> d \<longrightarrow> start (idx e) \<noteq> e)"
    using start_le [of d] same_period [of d t] by auto
next
  assume a: "start (idx t) = t \<and> t \<le> d \<and> (\<forall>e. t < e \<and> e \<le> d \<longrightarrow> start (idx e) \<noteq> e)"
  then have "t \<le> start (idx d)" using galois [of "idx t" d] idx_mono [of t d] galois [of "idx t" "start (idx d)"] galois [of "idx d" "start (idx d)"] by auto
  moreover have "start (idx (start (idx d))) = start (idx d)" using same_period [of d "start (idx d)"] start_le [of d] by simp
  ultimately show "t = start (idx d)" using a start_le [of d] by (metis order_le_less)
qed

lemma start_mono: "d \<le> e \<Longrightarrow> start (idx d) \<le> start (idx e)"
proof -
  have "start q \<le> start p \<or> q > p" for p q
    using galois [of q "start p"] galois [of p "start p"] by fastforce
  moreover assume "d \<le> e"
  ultimately show ?thesis using idx_mono [of d e] by fastforce
qed

end

text \<open>Grouping \<open>k\<close> periods gives periods again.\<close>

locale grouped_period = period +
  fixes k :: int
  assumes k_pos: "0 < k"

sublocale grouped_period \<subseteq> grouped: period "\<lambda>d. idx d div k" "\<lambda>p. start (p * k)"
  by unfold_locales (simp add: galois le_div_iff [OF k_pos])


interpretation years: period "\<lambda>d. fst (civil_from_days d)" "\<lambda>y. days_from_civil y 1 1"
proof
  fix y d
  obtain y' m' d' where c: "civil_from_days d = (y', m', d')" by (metis prod_cases3)
  show "days_from_civil y 1 1 \<le> d \<longleftrightarrow> y \<le> fst (civil_from_days d)"
    using civil_year_bounds [OF c] jan1_mono [of y y'] jan1_mono [of "y' + 1" y] unfolding c fst_conv by linarith
qed

interpretation months: period month_index month_start
proof
  show "month_start k \<le> d \<longleftrightarrow> k \<le> month_index d" for k d
    using month_index_bounds(1,2) [of d] month_start_mono [of k "month_index d"]
      month_start_mono [of "month_index d + 1" k] by linarith
qed

interpretation week_years: period "\<lambda>d. fst (iso_week d)" week1_monday
proof
  fix y d
  obtain y' w where i: "iso_week d = (y', w)" by (metis prod.exhaust)
  show "week1_monday y \<le> d \<longleftrightarrow> y \<le> fst (iso_week d)"
    using iso_week_bounds(1,2) [OF i] week1_monday_mono [of y y'] week1_monday_mono [of "y' + 1" y] unfolding i fst_conv by linarith
qed

interpretation weeks: period "\<lambda>d. (d + 3) div 7" "\<lambda>p. p * 7 - 3"
  by unfold_locales (simp add: le_div_iff algebra_simps)

interpretation single_days: period "\<lambda>d. d" "\<lambda>d. d"
  by unfold_locales simp

interpretation decades: grouped_period "\<lambda>d. fst (civil_from_days d)" "\<lambda>y. days_from_civil y 1 1" 10
  by unfold_locales simp

interpretation centuries: grouped_period "\<lambda>d. fst (civil_from_days d)" "\<lambda>y. days_from_civil y 1 1" 100
  by unfold_locales simp

interpretation millennia: grouped_period "\<lambda>d. fst (civil_from_days d)" "\<lambda>y. days_from_civil y 1 1" 1000
  by unfold_locales simp

interpretation quarters: grouped_period month_index month_start 3
  by unfold_locales simp

text \<open>The periods of the units \<^const>\<open>truncate_date\<close> knows.\<close>

definition date_period :: "string \<Rightarrow> ((int \<Rightarrow> int) \<times> (int \<Rightarrow> int)) option" where
  "date_period unit =
     (if unit = ''millennium'' then Some (\<lambda>d. fst (civil_from_days d) div 1000, \<lambda>p. days_from_civil (p * 1000) 1 1)
      else if unit = ''century'' then Some (\<lambda>d. fst (civil_from_days d) div 100, \<lambda>p. days_from_civil (p * 100) 1 1)
      else if unit = ''decade'' then Some (\<lambda>d. fst (civil_from_days d) div 10, \<lambda>p. days_from_civil (p * 10) 1 1)
      else if unit = ''year'' then Some (\<lambda>d. fst (civil_from_days d), \<lambda>y. days_from_civil y 1 1)
      else if unit = ''weekYear'' then Some (\<lambda>d. fst (iso_week d), week1_monday)
      else if unit = ''quarter'' then Some (\<lambda>d. month_index d div 3, \<lambda>p. month_start (p * 3))
      else if unit = ''month'' then Some (month_index, month_start)
      else if unit = ''week'' then Some (\<lambda>d. (d + 3) div 7, \<lambda>p. p * 7 - 3)
      else if unit = ''day'' then Some (\<lambda>d. d, \<lambda>d. d)
      else None)"

lemma date_period_period: "date_period unit = Some (idx, start) \<Longrightarrow> period idx start"
  using millennia.grouped.period_axioms centuries.grouped.period_axioms decades.grouped.period_axioms
    years.period_axioms week_years.period_axioms quarters.grouped.period_axioms months.period_axioms
    weeks.period_axioms single_days.period_axioms
  by (auto simp: date_period_def split: if_splits)

lemma jan1_Some [simp]: "ymd_to_days y 1 1 = Some (days_from_civil y 1 1)"
  by (simp add: ymd_to_days_def days_in_month_def)

lemma days_in_month_pos: "1 \<le> m \<Longrightarrow> m \<le> 12 \<Longrightarrow> 1 \<le> days_in_month y m"
  by (erule (1) month_cases) (simp_all add: days_in_month_def)

lemma quarter_start_ymd:
  assumes "0 \<le> q" "q < 4"
  shows "ymd_to_days y (q * 3 + 1) 1 = Some (month_start ((4 * y + q) * 3))"
proof -
  have e: "(4 * y + q) * 3 div 12 = y" "(4 * y + q) * 3 mod 12 = q * 3" using assms by simp_all
  have m: "1 \<le> q * 3 + 1" "q * 3 + 1 \<le> 12" using assms by simp_all
  show ?thesis
    unfolding month_start_def e ymd_to_days_def using m days_in_month_pos [OF m, of y] by simp
qed

lemma quarter_start:
  assumes "civil_from_days d = (y, m, k)"
  shows "ymd_to_days y (((m - 1) sdiv 3) * 3 + 1) 1 = Some (month_start (month_index d div 3 * 3))"
    "(m - 1) sdiv 3 + 1 = month_index d div 3 mod 4 + 1" "month_index d div 12 = y"
    "ymd_to_days y m 1 = Some (month_start (month_index d))" "month_index d mod 12 = m - 1"
proof -
  have v: "1 \<le> m" "m \<le> 12" using valid_civil [of d] by (simp_all add: assms valid_date_def)
  have i: "month_index d = 12 * y + (m - 1)" by (simp add: month_index_def assms)
  show "month_index d div 12 = y" "month_index d mod 12 = m - 1"
    using v by (simp_all add: i)
  show "ymd_to_days y m 1 = Some (month_start (month_index d))"
    using v days_in_month_pos [OF v, of y] by (simp add: ymd_to_days_def month_start_def i)
  define q where "q = (m - 1) div 3"
  have q: "0 \<le> q" "q < 4" using v by (simp_all add: q_def)
  have e: "month_index d div 3 = 4 * y + q" by (simp add: i q_def)
  have s: "(m - 1) sdiv 3 = q" using v by (simp add: q_def sdiv_nonneg)
  show "(m - 1) sdiv 3 + 1 = month_index d div 3 mod 4 + 1" using q by (simp add: e s)
  show "ymd_to_days y (((m - 1) sdiv 3) * 3 + 1) 1 = Some (month_start (month_index d div 3 * 3))"
    unfolding e s by (rule quarter_start_ymd [OF q])
qed

lemma truncate_date_period:
  "truncate_date d unit = map_option (\<lambda>(idx, start). start (idx d)) (date_period unit)"
proof -
  obtain y m k where c: "civil_from_days d = (y, m, k)" by (metis prod_cases3)
  have iso: "from_iso_ywd iy 1 1 = Some (week1_monday iy)" for iy
    by (simp add: from_iso_ywd_alt) (use iso_weeks_bounds(1) [of iy] in simp)
  have week: "d - num_days_from_monday d = (d + 3) div 7 * 7 - 3"
    by (simp add: num_days_from_monday_def EPOCH_ISO_WEEKDAY_OFFSET_def minus_mod_eq_div_mult [symmetric])
  show ?thesis
    by (simp only: truncate_date_def date_period_def c prod.case Let_def if_distrib [of "map_option _"] option.map
        fst_conv jan1_Some iso week quarter_start [OF c] cong: if_cong)
qed


section \<open>Accessors and projections\<close>

text \<open>The value a projection takes for a component: the override, or that of the base.\<close>

definition selected :: "i64 option \<Rightarrow> i64 \<Rightarrow> string \<Rightarrow> i64 option" where
  "selected x base name = (case x of Some v \<Rightarrow> Some v | None \<Rightarrow> date_component base name)"

definition no_overrides :: date_overrides where
  "no_overrides = \<lparr>o_year = None, o_month = None, o_day = None, o_week = None, o_day_of_week = None,
     o_ordinal_day = None, o_quarter = None, o_day_of_quarter = None\<rparr>"

lemma date_component_simps:
  "date_component d ''year'' = Some (fst (civil_from_days d))"
  "date_component d ''month'' = Some (fst (snd (civil_from_days d)))"
  "date_component d ''day'' = Some (snd (snd (civil_from_days d)))"
  "date_component d ''week'' = Some (snd (iso_week d))"
  "date_component d ''weekYear'' = Some (fst (iso_week d))"
  "date_component d ''weekDay'' = Some (iso_weekday d)"
  "date_component d ''ordinalDay'' = Some (ordinal d)"
  "date_component d ''dayOfQuarter'' = Some (base_day_of_quarter d)"
  by (simp_all add: date_component_def split: prod.splits)

lemma quarter_component: "date_component d ''quarter'' = Some (month_index d div 3 mod 4 + 1)"
proof -
  obtain y m k where c: "civil_from_days d = (y, m, k)" by (metis prod_cases3)
  show ?thesis using quarter_start(2) [OF c] by (simp add: date_component_def c)
qed

lemma base_day_of_quarter_alt: "base_day_of_quarter d = d - month_start (month_index d div 3 * 3) + 1"
proof -
  obtain y m k where c: "civil_from_days d = (y, m, k)" by (metis prod_cases3)
  show ?thesis using quarter_start(1) [OF c] by (simp add: base_day_of_quarter_def c)
qed

lemma ymd_to_days_Some:
  "ymd_to_days y m k = Some d \<longleftrightarrow> civil_from_days d = (y, m, k)"
proof
  assume a: "ymd_to_days y m k = Some d"
  then have "valid_date (y, m, k)" "d = days_from_civil y m k"
    by (auto simp: ymd_to_days_def valid_date_def split: if_splits)
  then show "civil_from_days d = (y, m, k)" by (simp add: civil_days_civil)
next
  assume c: "civil_from_days d = (y, m, k)"
  then have "valid_date (y, m, k)" using valid_civil [of d] by simp
  then show "ymd_to_days y m k = Some d"
    using days_civil_days [OF c] by (auto simp: ymd_to_days_def valid_date_def)
qed

lemma from_ordinal_Some:
  "from_ordinal y k = Some d \<longleftrightarrow> fst (civil_from_days d) = y \<and> ordinal d = k"
proof
  assume "from_ordinal y k = Some d"
  then have d: "1 \<le> k" "k \<le> days_in_year y" "d = days_from_civil y 1 1 + k - 1"
    by (auto simp: from_ordinal_def split: if_splits)
  then have y: "fst (civil_from_days d) = y"
    by (intro civil_year_unique) (simp_all add: jan1_Suc)
  with d show "fst (civil_from_days d) = y \<and> ordinal d = k" by (auto simp: ordinal_def split: prod.splits)
next
  assume a: "fst (civil_from_days d) = y \<and> ordinal d = k"
  then show "from_ordinal y k = Some d"
    using ordinal_bounds [of d] by (auto simp: from_ordinal_def ordinal_def split: prod.splits)
qed

lemma from_iso_ywd_Some:
  "from_iso_ywd y w wd = Some d \<longleftrightarrow> iso_week d = (y, w) \<and> iso_weekday d = wd"
  using iso_of_from_iso_ywd iso_roundtrip by (metis fst_conv snd_conv)

text \<open>
  Where a unit begins: a millennium, century or decade on January 1 of a year that its number of years divides, a year on
  January 1, a week-based year on the Monday of its first ISO week, a quarter on the first of January, April, July or
  October, a month on its first day, a week on Monday, a day on every day.
\<close>

definition date_boundary :: "string \<Rightarrow> i64 \<Rightarrow> bool" where
  "date_boundary unit d =
     (case civil_from_days d of (year, month, day) \<Rightarrow>
        if unit = ''millennium'' then month = 1 \<and> day = 1 \<and> 1000 dvd year
        else if unit = ''century'' then month = 1 \<and> day = 1 \<and> 100 dvd year
        else if unit = ''decade'' then month = 1 \<and> day = 1 \<and> 10 dvd year
        else if unit = ''year'' then month = 1 \<and> day = 1
        else if unit = ''weekYear'' then snd (iso_week d) = 1 \<and> iso_weekday d = 1
        else if unit = ''quarter'' then month \<in> {1, 4, 7, 10} \<and> day = 1
        else if unit = ''month'' then day = 1
        else if unit = ''week'' then iso_weekday d = 1
        else unit = ''day'')"

lemma date_boundary_fixed: "date_boundary unit d \<longleftrightarrow> truncate_date d unit = Some d"
proof -
  obtain y m k where c: "civil_from_days d = (y, m, k)" by (metis prod_cases3)
  have v: "1 \<le> m" "m \<le> 12" using valid_civil [of d] by (simp_all add: c valid_date_def)
  have years: "ymd_to_days (y div n * n) 1 1 = Some d \<longleftrightarrow> m = 1 \<and> k = 1 \<and> n dvd y" for n
  proof -
    have "n dvd y \<longleftrightarrow> y div n * n = y" by (metis dvd_div_mult_self dvd_triv_right)
    then show ?thesis unfolding ymd_to_days_Some c by auto
  qed
  have quarter: "ymd_to_days y ((m - 1) sdiv 3 * 3 + 1) 1 = Some d \<longleftrightarrow> m \<in> {1, 4, 7, 10} \<and> k = 1"
    unfolding ymd_to_days_Some c by (rule month_cases [OF v]) (simp_all add: rust_arith)
  have week: "Some (d - num_days_from_monday d) = Some d \<longleftrightarrow> iso_weekday d = 1"
    by (simp add: iso_weekday_def num_days_from_monday_def)
  have iso: "from_iso_ywd (fst (iso_week d)) 1 1 = Some d \<longleftrightarrow> snd (iso_week d) = 1 \<and> iso_weekday d = 1"
    by (cases "iso_week d") (auto simp: from_iso_ywd_Some)
  have "ymd_to_days y 1 1 = Some d \<longleftrightarrow> m = 1 \<and> k = 1" "ymd_to_days y m 1 = Some d \<longleftrightarrow> k = 1"
    "(if unit = ''day'' then Some d = Some d else None = Some d) \<longleftrightarrow> unit = ''day''"
    unfolding ymd_to_days_Some c by auto
  with years [of 1000] years [of 100] years [of 10] show ?thesis
    by (simp only: date_boundary_def truncate_date_def c prod.case Let_def if_distrib [of "\<lambda>x. x = Some d"] quarter iso week simp_thms
        cong: if_cong)
qed

text \<open>A unit of a time of day begins at the multiples of its length; the units of dates begin at midnight.\<close>

definition time_length :: "string \<Rightarrow> int option" where
  "time_length unit =
     (if unit = ''hour'' then Some 3600000000000
      else if unit = ''minute'' then Some 60000000000
      else if unit = ''second'' then Some 1000000000
      else if unit = ''millisecond'' then Some 1000000
      else if unit = ''microsecond'' then Some 1000
      else if unit \<in> {''millennium'', ''century'', ''decade'', ''year'', ''weekYear'', ''quarter'', ''month'',
                      ''week'', ''day''} then Some day_nanos
      else None)"

definition time_boundary :: "string \<Rightarrow> i64 \<Rightarrow> bool" where
  "time_boundary unit n = (case time_length unit of Some k \<Rightarrow> k dvd n | None \<Rightarrow> False)"

lemma latest_multiple:
  fixes n k s :: int
  assumes "0 < k"
  shows "s = n div k * k \<longleftrightarrow> k dvd s \<and> s \<le> n \<and> (\<forall>e. s < e \<and> e \<le> n \<longrightarrow> \<not> k dvd e)"
proof -
  have p: "period (\<lambda>d. d div k) (\<lambda>p. p * k)" by unfold_locales (rule le_div_iff [OF assms, symmetric])
  have "k dvd e \<longleftrightarrow> e div k * k = e" for e by (metis dvd_div_mult_self dvd_triv_right)
  then show ?thesis using period.latest_start [OF p, of s n] by simp
qed

lemma truncate_time_length:
  assumes "0 \<le> n" "n < day_nanos"
  shows "truncate_time_nanos n unit = map_option (\<lambda>k. n div k * k) (time_length unit)"
proof -
  have "n div day_nanos * day_nanos = 0" using assms by simp
  then show ?thesis
    using assms(1) by (simp only: truncate_time_nanos_def time_length_def Let_def if_distrib [of "map_option _"] option.map sdiv_nonneg
        zero_less_numeral cong: if_cong)
qed

lemma time_boundary_latest:
  assumes "0 \<le> n" "n < day_nanos"
  shows "truncate_time_nanos n unit = Some s \<longleftrightarrow> time_boundary unit s \<and> s \<le> n \<and> (\<forall>e. s < e \<and> e \<le> n \<longrightarrow> \<not> time_boundary unit e)"
proof (cases "time_length unit")
  case (Some k)
  then have "0 < k" by (auto simp: time_length_def day_nanos_def split: if_splits)
  from latest_multiple [OF this, of s n] Some show ?thesis by (auto simp: truncate_time_length [OF assms] time_boundary_def)
qed (simp add: truncate_time_length [OF assms] time_boundary_def)

lemma component_u32:
  "to_u32 (fst (snd (civil_from_days d))) = Some (fst (snd (civil_from_days d)))"
  "to_u32 (snd (snd (civil_from_days d))) = Some (snd (snd (civil_from_days d)))"
  "to_u32 (snd (iso_week d)) = Some (snd (iso_week d))"
  "to_u32 (iso_weekday d) = Some (iso_weekday d)"
  "to_u32 (ordinal d) = Some (ordinal d)"
proof -
  obtain y m k where c: "civil_from_days d = (y, m, k)" by (metis prod_cases3)
  obtain iy w where i: "iso_week d = (iy, w)" by (metis prod.exhaust)
  have "days_in_month y m \<le> 31" by (simp add: days_in_month_def)
  with valid_civil [of d] show
    "to_u32 (fst (snd (civil_from_days d))) = Some (fst (snd (civil_from_days d)))"
    "to_u32 (snd (snd (civil_from_days d))) = Some (snd (snd (civil_from_days d)))"
    by (auto simp: c valid_date_def)
  show "to_u32 (snd (iso_week d)) = Some (snd (iso_week d))"
    using iso_week_in_range [OF i] iso_weeks_bounds [of iy] by (simp add: i)
  have "(d + EPOCH_ISO_WEEKDAY_OFFSET) mod 7 < 7" by simp
  then show "to_u32 (iso_weekday d) = Some (iso_weekday d)"
    by (simp add: iso_weekday_def del: pos_mod_bound)
  have "days_in_year y \<le> 366" by (simp add: days_in_year_def)
  then show "to_u32 (ordinal d) = Some (ordinal d)"
    using ordinal_bounds [of d] by (simp add: c)
qed


lemma quarter_len: "month_start (p * 3 + 3) - month_start (p * 3) \<le> 93"
  using month_start_Suc [of "p * 3"] month_start_Suc [of "p * 3 + 1"] month_start_Suc [of "p * 3 + 2"]
    month_len_pos(2) [of "p * 3"] month_len_pos(2) [of "p * 3 + 1"] month_len_pos(2) [of "p * 3 + 2"]
  by (simp add: add.assoc)

lemma day_of_quarter_bounds: "1 \<le> base_day_of_quarter d" "base_day_of_quarter d \<le> 93"
proof -
  have "month_start (month_index d div 3 * 3) \<le> d" by (rule quarters.grouped.start_le)
  moreover have "d < month_start (month_index d div 3 * 3 + 3)"
    using quarters.grouped.galois [of "month_index d div 3 + 1" d] by (simp add: algebra_simps)
  ultimately show "1 \<le> base_day_of_quarter d" "base_day_of_quarter d \<le> 93"
    using quarter_len [of "month_index d div 3"] by (simp_all add: base_day_of_quarter_alt)
qed

lemma wrap64_small: "\<bar>x\<bar> \<le> 1000000000000 \<Longrightarrow> wrap64 x = x"
  by (rule wrap64_id) (auto simp: i64_ok_def)

lemma wrap64_unique:
  assumes "wrap64 x = y" "x - y = e" "\<bar>e\<bar> < 2 ^ 64"
  shows "e = 0"
proof -
  have "x - wrap64 x = ((x + 2 ^ 63) div 2 ^ 64) * 2 ^ 64"
    unfolding wrap64_def using div_mult_mod_eq [of "x + 2 ^ 63" "2 ^ 64"] by linarith
  then have "(2 ^ 64 :: int) dvd e" using assms(1,2) by (metis dvd_triv_right)
  with assms(3) show ?thesis using dvd_imp_le_int [of e "2 ^ 64"] by fastforce
qed

lemma project_quarter_roundtrip:
  assumes "i64_ok d"
  shows "project_date base (no_overrides\<lparr>o_year := date_component d ''year'',
      o_quarter := date_component d ''quarter'', o_day_of_quarter := date_component d ''dayOfQuarter''\<rparr>) = Some d"
proof -
  obtain y m k where c: "civil_from_days d = (y, m, k)" by (metis prod_cases3)
  define q where "q = month_index d div 3 mod 4"
  have q: "0 \<le> q" "q < 4" by (simp_all add: q_def)
  have y: "month_index d div 12 = y" by (rule quarter_start [OF c])
  have "month_index d div 3 div 4 = y" using y by (simp add: zdiv_zmult2_eq [symmetric])
  then have p: "4 * y + q = month_index d div 3" using mult_div_mod_eq [of 4 "month_index d div 3"] by (simp add: q_def)
  have s: "to_u32 (wrap64 (1 + q * 3)) = Some (q * 3 + 1)" using q by (simp add: wrap64_small)
  have w: "wrap64 (base_day_of_quarter d - 1) = base_day_of_quarter d - 1"
    using day_of_quarter_bounds [of d] by (intro wrap64_small) simp
  have m: "(m - 1) sdiv 3 + 1 = q + 1" using quarter_start(2) [OF c] by (simp add: q_def)
  obtain by' bm bd where b: "civil_from_days base = (by', bm, bd)" by (metis prod_cases3)
  have "q + 1 - 1 = q" by simp
  then show ?thesis
    using day_of_quarter_bounds(1) [of d] w m quarter_start_ymd [OF q, of y] p assms
    by (simp add: project_date_def no_overrides_def date_component_simps quarter_component q_def [symmetric] c b
        base_day_of_quarter_alt wrap64_id Let_def s)
qed

lemma month_start_bound: "\<bar>month_start k\<bar> \<le> 366 * \<bar>k div 12\<bar> + 720500"
proof -
  have v: "1 \<le> k mod 12 + 1" "k mod 12 + 1 \<le> 12" by simp_all
  have a: "\<bar>mdays (k div 12)\<bar> \<le> 366 * \<bar>k div 12\<bar> + 369" "\<bar>mdays (k div 12 - 1)\<bar> \<le> 366 * \<bar>k div 12\<bar> + 369"
    using mdays_bounds [of "k div 12"] mdays_bounds [of "k div 12 - 1"] abs_triangle_ineq4 [of "k div 12" 1] by simp_all
  show ?thesis
    unfolding month_start_def
    by (rule month_cases [OF v]) (use a in \<open>simp_all add: days_from_civil_alt mdoy_def abs_le_iff\<close>)
qed

lemma project_quarter_selects:
  assumes "project_date base ov = Some d" "o_week ov = None" "o_day_of_week ov = None" "o_ordinal_day ov = None"
    "o_quarter ov \<noteq> None \<or> o_day_of_quarter ov \<noteq> None"
    "\<bar>unwrap_or (o_year ov) (fst (civil_from_days base))\<bar> \<le> 999999999"
    "\<forall>k. o_day_of_quarter ov = Some k \<longrightarrow> i64_ok k"
  shows "date_component d ''year'' = selected (o_year ov) base ''year''"
    "date_component d ''quarter'' = selected (o_quarter ov) base ''quarter''"
    "date_component d ''dayOfQuarter'' = selected (o_day_of_quarter ov) base ''dayOfQuarter''"
proof -
  obtain b1 bm bd where b: "civil_from_days base = (b1, bm, bd)" by (metis prod_cases3)
  obtain y m k where c: "civil_from_days d = (y, m, k)" by (metis prod_cases3)
  define q where "q = (case o_quarter ov of Some q \<Rightarrow> q | None \<Rightarrow> (bm - 1) sdiv 3 + 1)"
  define doq where "doq = unwrap_or (o_day_of_quarter ov) (base_day_of_quarter base)"
  obtain st sm where r: "0 \<le> wrap64 (doq - 1)" "ymd_to_days (unwrap_or (o_year ov) b1) sm 1 = Some st"
      "(case civil_from_days (wrap64 (st + wrap64 (doq - 1))) of (ry, rm, _) \<Rightarrow>
          if ry \<noteq> unwrap_or (o_year ov) b1 \<or> (rm - 1) sdiv 3 + 1 \<noteq> q then None
          else Some (wrap64 (st + wrap64 (doq - 1)))) = Some d"
      "sm = wrap64 ((q - 1) * 3 + 1)"
    using assms(1-5) unfolding project_date_def b prod.case Let_def q_def [symmetric] doq_def [symmetric]
    by (auto simp: bind_eq_Some_conv split: if_splits)
  moreover obtain y2 m2 k2 where c2: "civil_from_days (wrap64 (st + wrap64 (doq - 1))) = (y2, m2, k2)"
    by (metis prod_cases3)
  ultimately have r: "0 \<le> wrap64 (doq - 1)" "ymd_to_days (unwrap_or (o_year ov) b1) sm 1 = Some st"
      "d = wrap64 (st + wrap64 (doq - 1))" "y = unwrap_or (o_year ov) b1" "(m - 1) sdiv 3 + 1 = q"
      "sm = wrap64 ((q - 1) * 3 + 1)"
    using c by (auto split: if_splits)
  define q' where "q' = month_index d div 3 mod 4"
  have q': "0 \<le> q'" "q' < 4" "q = q' + 1" using quarter_start(2) [OF c] r(5) by (simp_all add: q'_def)
  have "month_index d div 3 div 4 = y" using quarter_start(3) [OF c] by (simp add: zdiv_zmult2_eq [symmetric])
  then have p: "4 * y + q' = month_index d div 3" using mult_div_mod_eq [of 4 "month_index d div 3"] by (simp add: q'_def)
  have "sm = q' * 3 + 1" using r(6) q' by (simp add: wrap64_small)
  then have st: "st = month_start (month_index d div 3 * 3)"
    using r(2,4) quarter_start_ymd [OF q'(1,2), of y] unfolding p by simp
  have dq: "base_day_of_quarter d = d - st + 1" by (simp add: base_day_of_quarter_alt st)
  have "(4 * y + q') * 3 div 12 = y" using q' by simp
  then have "\<bar>st\<bar> \<le> 366 * \<bar>y\<bar> + 720500" using month_start_bound [of "(4 * y + q') * 3"] by (simp add: st p)
  moreover have "\<bar>y\<bar> \<le> 999999999" using assms(6) r(4) by (simp add: b)
  ultimately have stb: "\<bar>st\<bar> \<le> 400000000000" by linarith
  have i: "i64_ok doq"
    using assms(7) day_of_quarter_bounds [of base] by (cases "o_day_of_quarter ov") (auto simp: doq_def i64_ok_def)
  define off where "off = wrap64 (doq - 1)"
  have off: "0 \<le> off" "off < 2 ^ 63" using r(1) by (simp_all add: off_def wrap64_def)
  have "off = d - st"
    using wrap64_unique [of "st + off" d "off - (d - st)"] r(3) off day_of_quarter_bounds [of d] dq
    by (simp add: off_def)
  moreover have "\<bar>doq - 1 - off\<bar> < 2 ^ 64"
    using i calculation day_of_quarter_bounds [of d] dq by (auto simp: i64_ok_def abs_less_iff)
  then have "off = doq - 1"
    using wrap64_unique [of "doq - 1" off "doq - 1 - off"] by (simp add: off_def)
  ultimately have "d = st + doq - 1" by simp
  then have "base_day_of_quarter d = doq" using dq by simp
  then show "date_component d ''dayOfQuarter'' = selected (o_day_of_quarter ov) base ''dayOfQuarter''"
    by (cases "o_day_of_quarter ov") (simp_all add: selected_def date_component_simps doq_def)
  show "date_component d ''year'' = selected (o_year ov) base ''year''"
    by (cases "o_year ov") (simp_all add: selected_def date_component_simps c r(4) b)
  show "date_component d ''quarter'' = selected (o_quarter ov) base ''quarter''"
    using q'(3) r(5) by (cases "o_quarter ov") (simp_all add: selected_def date_component_def c b q_def)
qed


lemma project_roundtrip_simple:
  "project_date d no_overrides = Some d"
  "project_date base (no_overrides\<lparr>o_year := date_component d ''year'', o_month := date_component d ''month'',
     o_day := date_component d ''day''\<rparr>) = Some d"
  "project_date base (no_overrides\<lparr>o_year := date_component d ''weekYear'', o_week := date_component d ''week'',
     o_day_of_week := date_component d ''weekDay''\<rparr>) = Some d"
  "project_date base (no_overrides\<lparr>o_year := date_component d ''year'',
     o_ordinal_day := date_component d ''ordinalDay''\<rparr>) = Some d"
proof -
  obtain y m k where c: "civil_from_days d = (y, m, k)" by (metis prod_cases3)
  obtain b1 b2 b3 where b: "civil_from_days base = (b1, b2, b3)" by (metis prod_cases3)
  obtain iy w where i: "iso_week d = (iy, w)" by (metis prod.exhaust)
  obtain j1 j2 where j: "iso_week base = (j1, j2)" by (metis prod.exhaust)
  have u: "to_u32 m = Some m" "to_u32 k = Some k" "to_u32 w = Some w" "to_u32 (iso_weekday d) = Some (iso_weekday d)"
      "to_u32 (ordinal d) = Some (ordinal d)"
    using component_u32 [of d] by (simp_all only: c i fst_conv snd_conv)
  have r: "ymd_to_days y m k = Some d" "from_iso_ywd iy w (iso_weekday d) = Some d"
      "from_ordinal y (ordinal d) = Some d"
    by (simp_all add: ymd_to_days_Some from_iso_ywd_Some from_ordinal_Some c i)
  note defs = project_date_def no_overrides_def date_component_simps c b i j Let_def u r
  show "project_date d no_overrides = Some d" by (simp add: defs)
  show "project_date base (no_overrides\<lparr>o_year := date_component d ''year'', o_month := date_component d ''month'',
     o_day := date_component d ''day''\<rparr>) = Some d" by (simp add: defs)
  show "project_date base (no_overrides\<lparr>o_year := date_component d ''weekYear'', o_week := date_component d ''week'',
     o_day_of_week := date_component d ''weekDay''\<rparr>) = Some d" by (simp add: defs)
  show "project_date base (no_overrides\<lparr>o_year := date_component d ''year'',
     o_ordinal_day := date_component d ''ordinalDay''\<rparr>) = Some d" by (simp add: defs)
qed

lemma project_week_selects:
  assumes "project_date base ov = Some d" "o_week ov \<noteq> None \<or> o_day_of_week ov \<noteq> None"
  shows "date_component d ''weekYear'' = selected (o_year ov) base ''weekYear''"
    "date_component d ''week'' = selected (o_week ov) base ''week''"
    "date_component d ''weekDay'' = selected (o_day_of_week ov) base ''weekDay''"
proof -
  obtain b1 b2 b3 where b: "civil_from_days base = (b1, b2, b3)" by (metis prod_cases3)
  obtain j1 j2 where j: "iso_week base = (j1, j2)" by (metis prod.exhaust)
  obtain w wd where r: "(case o_week ov of Some w \<Rightarrow> to_u32 w | None \<Rightarrow> Some j2) = Some w"
      "(case o_day_of_week ov of Some d \<Rightarrow> to_u32 d | None \<Rightarrow> Some (iso_weekday base)) = Some wd"
      "from_iso_ywd (unwrap_or (o_year ov) j1) w wd = Some d"
    using assms unfolding project_date_def b j prod.case Let_def
    by (simp only: if_True bind_eq_Some_conv) blast
  then have d: "iso_week d = (unwrap_or (o_year ov) j1, w)" "iso_weekday d = wd" by (simp_all add: from_iso_ywd_Some)
  show "date_component d ''weekYear'' = selected (o_year ov) base ''weekYear''"
    by (cases "o_year ov") (simp_all add: selected_def date_component_simps d j)
  show "date_component d ''week'' = selected (o_week ov) base ''week''"
    using r(1) by (cases "o_week ov") (simp_all add: selected_def date_component_simps d j)
  show "date_component d ''weekDay'' = selected (o_day_of_week ov) base ''weekDay''"
    using r(2) by (cases "o_day_of_week ov") (simp_all add: selected_def date_component_simps d)
qed

lemma project_ordinal_selects:
  assumes "project_date base ov = Some d" "o_week ov = None" "o_day_of_week ov = None" "o_ordinal_day ov \<noteq> None"
  shows "date_component d ''year'' = selected (o_year ov) base ''year''"
    "date_component d ''ordinalDay'' = selected (o_ordinal_day ov) base ''ordinalDay''"
proof -
  obtain b1 b2 b3 where b: "civil_from_days base = (b1, b2, b3)" by (metis prod_cases3)
  obtain k where k: "o_ordinal_day ov = Some k" "from_ordinal (unwrap_or (o_year ov) b1) k = Some d"
    using assms unfolding project_date_def b prod.case Let_def by (auto simp: bind_eq_Some_conv)
  then have "fst (civil_from_days d) = unwrap_or (o_year ov) b1" "ordinal d = k" by (simp_all add: from_ordinal_Some)
  with k show "date_component d ''year'' = selected (o_year ov) base ''year''"
    "date_component d ''ordinalDay'' = selected (o_ordinal_day ov) base ''ordinalDay''"
    by (cases "o_year ov"; simp add: selected_def date_component_simps b)+
qed

lemma project_calendar_selects:
  assumes "project_date base ov = Some d" "o_week ov = None" "o_day_of_week ov = None" "o_ordinal_day ov = None"
    "o_quarter ov = None" "o_day_of_quarter ov = None"
  shows "date_component d ''year'' = selected (o_year ov) base ''year''"
    "date_component d ''month'' = selected (o_month ov) base ''month''"
    "date_component d ''day'' = selected (o_day ov) base ''day''"
proof -
  obtain b1 b2 b3 where b: "civil_from_days base = (b1, b2, b3)" by (metis prod_cases3)
  obtain m k where r: "(case o_month ov of Some m \<Rightarrow> to_u32 m | None \<Rightarrow> Some b2) = Some m"
      "(case o_day ov of Some d \<Rightarrow> to_u32 d | None \<Rightarrow> Some b3) = Some k"
      "ymd_to_days (unwrap_or (o_year ov) b1) m k = Some d"
    using assms unfolding project_date_def b prod.case Let_def
    by (simp add: bind_eq_Some_conv) blast
  then have d: "civil_from_days d = (unwrap_or (o_year ov) b1, m, k)" by (simp add: ymd_to_days_Some)
  show "date_component d ''year'' = selected (o_year ov) base ''year''"
    by (cases "o_year ov") (simp_all add: selected_def date_component_simps d b)
  show "date_component d ''month'' = selected (o_month ov) base ''month''"
    using r(1) by (cases "o_month ov") (simp_all add: selected_def date_component_simps d b)
  show "date_component d ''day'' = selected (o_day ov) base ''day''"
    using r(2) by (cases "o_day ov") (simp_all add: selected_def date_component_simps d b)
qed

section \<open>Instants\<close>

text \<open>The UTC instant of a date-time, in nanoseconds from the epoch.\<close>

definition instant_of :: "i64 \<Rightarrow> i64 \<Rightarrow> i32 \<Rightarrow> int" where
  "instant_of d n off = d * day_nanos + n - off * 1000000000"

lemma naive_shift_instant:
  assumes "naive_shift E (d, n) k = Some (d', n')"
  shows "d' * day_nanos + n' = d * day_nanos + n + k * 1000000000" "0 \<le> n'" "n' < day_nanos" "date_in_range E d'"
  using assms by (auto simp: naive_shift_def Let_def day_nanos_def split: if_splits)

text \<open>The offset a zone has at an instant, by \<open>from_utc_datetime\<close>.\<close>

definition zone_offset_at :: "chrono_env \<Rightarrow> string \<Rightarrow> int \<Rightarrow> i32" where
  "zone_offset_at E zone i = tz_utc_offset E zone (i div day_nanos) (i mod day_nanos)"

text \<open>
  The documentation of \<open>TimeZone::from_local_datetime\<close>: the date-times it gives have the local time asked for, so the
  offset it takes is the one in force at the instant it gives.
\<close>

definition tz_contract :: "chrono_env \<Rightarrow> bool" where
  "tz_contract E \<longleftrightarrow> (\<forall>zone d t off. tz_local_offset E zone d t = Some off \<longrightarrow>
     zone_offset_at E zone (instant_of d (nanos_of_day t) off) = off)"

text \<open>The offset the local time of a source is read with.\<close>

definition source_offset :: "chrono_env \<Rightarrow> i64 \<Rightarrow> i64 \<Rightarrow> i32 \<Rightarrow> string option \<Rightarrow> i32" where
  "source_offset E d n src src_zone =
     (case src_zone of
        None \<Rightarrow> src
      | Some zone \<Rightarrow> (case resolve_zone_offset E d (time_parts_from_nanos n) zone of Some r \<Rightarrow> off_seconds r | None \<Rightarrow> src))"

lemma source_offset_in_force:
  assumes "tz_contract E" "0 \<le> n" "n < day_nanos" "resolve_zone_offset E d (time_parts_from_nanos n) zone \<noteq> None"
  shows "source_offset E d n src (Some zone) = zone_offset_at E zone (instant_of d n (source_offset E d n src (Some zone)))"
proof -
  have "nanos_of_day (time_parts_from_nanos n) = n" using valid_time_parts_from_nanos [OF assms(2,3)] by simp
  moreover obtain r where r: "resolve_zone_offset E d (time_parts_from_nanos n) zone = Some r" using assms(4) by blast
  then have "tz_local_offset E zone d (time_parts_from_nanos n) = Some (off_seconds r)"
    by (auto simp: resolve_zone_offset_def epoch_days_to_date_def bind_eq_Some_conv split: if_splits)
  with assms(1) have "zone_offset_at E zone (instant_of d (nanos_of_day (time_parts_from_nanos n)) (off_seconds r)) = off_seconds r"
    by (simp add: tz_contract_def)
  ultimately show ?thesis using r by (simp add: source_offset_def)
qed

lemma project_datetime_zoned:
  assumes "nanos_to_naive_time E n = Some n" "epoch_days_to_date E d = Some d" "S = source_offset E d n src src_zone"
  shows "project_datetime E d n (Some src) src_zone tz =
    (case tz of
       None \<Rightarrow> Return (Some (d, n, S, src_zone))
     | Some t \<Rightarrow> (case parse_offset_seconds t of
         Some f \<Rightarrow> (case naive_shift E (d, n) (f - S) of Some (d', n') \<Rightarrow> Return (Some (d', n', f, None)) | None \<Rightarrow> Panic)
       | None \<Rightarrow>
           if \<not> tz_known E t then Return None
           else (case naive_shift E (d, n) (- S) of
               None \<Rightarrow> Panic
             | Some utc \<Rightarrow> (case naive_shift E utc (tz_utc_offset E t (fst utc) (snd utc)) of
                 None \<Rightarrow> Panic
               | Some (d', n') \<Rightarrow> Return (Some (d', n', tz_utc_offset E t (fst utc) (snd utc), Some t))))))"
proof -
  have "(case src_zone of None \<Rightarrow> Some src
    | Some z \<Rightarrow> (case resolve_zone_offset E d (time_parts_from_nanos n) z of None \<Rightarrow> Some src | Some r \<Rightarrow> Some (off_seconds r))) = Some S"
    by (simp add: assms(3) source_offset_def split: option.split)
  then show ?thesis by (cases tz; cases "parse_offset_seconds (the tz)") (simp_all add: project_datetime_def assms(1,2) Let_def split: option.split)
qed

lemma naive_shift_utc:
  assumes "naive_shift E (d, n) k = Some (d', n')"
  shows "(d * day_nanos + n + k * 1000000000) div day_nanos = d'" "(d * day_nanos + n + k * 1000000000) mod day_nanos = n'"
  using assms by (auto simp: naive_shift_def Let_def day_nanos_def split: if_splits)

lemma project_datetime_instant:
  assumes "hms_contract E" "0 \<le> n" "n < day_nanos"
    "project_datetime E d n (Some src) src_zone tz = Return (Some (d', n', off, z))"
  shows "instant_of d' n' off = instant_of d n (source_offset E d n src src_zone)" "0 \<le> n' \<and> n' < day_nanos"
    "case tz of
       None \<Rightarrow> (d', n', z) = (d, n, src_zone)
     | Some t \<Rightarrow> (case parse_offset_seconds t of
         Some f \<Rightarrow> off = f \<and> z = None
       | None \<Rightarrow> z = Some t \<and> off = zone_offset_at E t (instant_of d' n' off))" (is ?zone)
proof -
  define S where "S = source_offset E d n src src_zone"
  have t: "nanos_to_naive_time E n = Some n"
    using assms(1-3) valid_time_parts_from_nanos [of n]
    by (auto simp: nanos_to_naive_time_def Let_def valid_time_def hms_contract_def)
  have dr: "epoch_days_to_date E d = Some d"
    using assms(4) t by (auto simp: project_datetime_def epoch_days_to_date_def split: if_splits)
  note e = assms(4) [unfolded project_datetime_zoned [OF t dr S_def]]
  have "instant_of d' n' off = instant_of d n S \<and> (0 \<le> n' \<and> n' < day_nanos) \<and> ?zone"
  proof (cases tz)
    case None
    with e assms(2,3) show ?thesis by auto
  next
    case (Some zone)
    show ?thesis
    proof (cases "parse_offset_seconds zone")
      case (Some f)
      then have "naive_shift E (d, n) (f - S) = Some (d', n')" "off = f" "z = None"
        using e \<open>tz = Some zone\<close> by (auto split: option.splits)
      with naive_shift_instant [OF this(1)] Some \<open>tz = Some zone\<close> show ?thesis by (simp add: instant_of_def algebra_simps)
    next
      case None
      then obtain u1 u2 where u: "naive_shift E (d, n) (- S) = Some (u1, u2)"
          "naive_shift E (u1, u2) (tz_utc_offset E zone u1 u2) = Some (d', n')" "off = tz_utc_offset E zone u1 u2" "z = Some zone"
        using e \<open>tz = Some zone\<close> by (auto split: option.splits if_splits)
      have i: "instant_of d n S = d * day_nanos + n + - S * 1000000000" by (simp add: instant_of_def)
      have "instant_of d' n' off = instant_of d n S"
        using naive_shift_instant [OF u(1)] naive_shift_instant [OF u(2)] u(3) by (simp add: instant_of_def algebra_simps)
      with u naive_shift_utc [OF u(1)] naive_shift_instant(2,3) [OF u(2)] None \<open>tz = Some zone\<close> show ?thesis
        by (simp add: zone_offset_at_def i)
    qed
  qed
  then show "instant_of d' n' off = instant_of d n (source_offset E d n src src_zone)" "0 \<le> n' \<and> n' < day_nanos" ?zone
    by (auto simp: S_def)
qed


section \<open>Times of day\<close>

definition time_selected :: "i64 option \<Rightarrow> i64 \<Rightarrow> string \<Rightarrow> i64 option" where
  "time_selected x base name = (case x of Some v \<Rightarrow> Some v | None \<Rightarrow> time_component base name)"

text \<open>The nanosecond of the second after the three sub-second groups have been replaced or kept.\<close>

definition selected_subsecond :: "local_time_overrides \<Rightarrow> i64 \<Rightarrow> i64" where
  "selected_subsecond ov base =
     unwrap_or (o_millisecond ov) (base mod 1000000000 div 1000000) * 1000000
     + unwrap_or (o_microsecond ov) (base mod 1000000000 div 1000 mod 1000) * 1000
     + unwrap_or (o_nanosecond ov) (base mod 1000000000 mod 1000)"

lemma time_component_parts:
  assumes "valid_time t"
  shows "time_component (nanos_of_day t) ''hour'' = Some (hour t)"
    "time_component (nanos_of_day t) ''minute'' = Some (minute t)"
    "time_component (nanos_of_day t) ''second'' = Some (second t)"
    "nanos_of_day t mod 1000000000 = nanos t"
proof -
  let ?n = "nanos_of_day t"
  have v: "0 \<le> hour t" "hour t < 24" "0 \<le> minute t" "minute t < 60" "0 \<le> second t" "second t < 60"
      "0 \<le> nanos t" "nanos t < 1000000000"
    using assms by (simp_all add: valid_time_def)
  have "?n div 3600000000000 = hour t"
    by (rule int_div_pos_eq [where r = "(minute t * 60 + second t) * 1000000000 + nanos t"])
      (use v in \<open>simp_all add: nanos_of_day_def\<close>)
  moreover have "?n div 60000000000 = 60 * hour t + minute t"
    by (rule int_div_pos_eq [where r = "second t * 1000000000 + nanos t"])
      (use v in \<open>simp_all add: nanos_of_day_def\<close>)
  moreover have "?n div 1000000000 = 60 * (60 * hour t + minute t) + second t"
    by (rule int_div_pos_eq [where r = "nanos t"]) (use v in \<open>simp_all add: nanos_of_day_def\<close>)
  moreover have "(3600 * hour t + 60 * minute t + second t) mod 60 = second t"
    by (rule int_mod_pos_eq [where q = "60 * hour t + minute t"]) (use v in simp_all)
  ultimately show "time_component ?n ''hour'' = Some (hour t)" "time_component ?n ''minute'' = Some (minute t)"
    "time_component ?n ''second'' = Some (second t)"
    using v by (simp_all add: time_component_def smod_nonneg)
  show "?n mod 1000000000 = nanos t"
    by (rule int_mod_pos_eq [where q = "60 * (60 * hour t + minute t) + second t"])
      (use v in \<open>simp_all add: nanos_of_day_def\<close>)
qed

lemma subsecond_groups:
  fixes x :: int
  assumes "0 \<le> x"
  shows "x div 1000000 * 1000000 + x div 1000 mod 1000 * 1000 + x mod 1000 = x"
proof -
  have "x div 1000000 = x div 1000 div 1000" using zdiv_zmult2_eq [of 1000 x 1000] by simp
  then have "x div 1000000 * 1000 + x div 1000 mod 1000 = x div 1000" by simp
  then have "x div 1000000 * 1000000 + x div 1000 mod 1000 * 1000 = x div 1000 * 1000" by simp
  then show ?thesis by simp
qed

lemma project_localtime_parts:
  assumes E: "hms_contract E" and b: "0 \<le> base" "base < day_nanos"
    and sub: "\<forall>x \<in> {o_millisecond ov, o_microsecond ov, o_nanosecond ov}. \<forall>v. x = Some v \<longrightarrow> 0 \<le> v \<and> v < 1000"
    and p: "project_localtime E base ov = Some n"
  obtains t where "valid_time t" "n = nanos_of_day t"
    "Some (hour t) = time_selected (o_hour ov) base ''hour''" "Some (minute t) = time_selected (o_minute ov) base ''minute''"
    "Some (second t) = time_selected (o_second ov) base ''second''" "nanos t = selected_subsecond ov base"
proof -
  let ?b = "time_parts_from_nanos base"
  note vb = valid_time_parts_from_nanos [OF b]
  have c: "time_component base ''hour'' = Some (hour ?b)" "time_component base ''minute'' = Some (minute ?b)"
      "time_component base ''second'' = Some (second ?b)" "base mod 1000000000 = nanos ?b"
    using time_component_parts [OF vb(1)] by (simp_all add: vb(3))
  have nb: "0 \<le> nanos ?b" "nanos ?b < 1000000000" using vb(1) by (simp_all add: valid_time_def)
  define x where "x = selected_subsecond ov base"
  have groups: "0 \<le> nanos ?b div 1000000" "nanos ?b div 1000000 < 1000" "0 \<le> nanos ?b div 1000 mod 1000"
      "nanos ?b div 1000 mod 1000 < 1000" "0 \<le> nanos ?b mod 1000" "nanos ?b mod 1000 < 1000"
    using nb by (simp_all add: pos_imp_zdiv_nonneg_iff)
  have sel: "0 \<le> unwrap_or y k \<and> unwrap_or y k < 1000"
    if "\<forall>v. y = Some v \<longrightarrow> 0 \<le> v \<and> v < 1000" "0 \<le> k" "k < 1000" for y and k :: int
    using that by (cases y) auto
  have x: "0 \<le> x" "x < 1000000000"
    using sel [of "o_millisecond ov", OF _ groups(1,2)] sel [of "o_microsecond ov", OF _ groups(3,4)]
      sel [of "o_nanosecond ov", OF _ groups(5,6)] sub
    unfolding x_def selected_subsecond_def c(4) by simp_all
  have same: "nanos ?b = x" if "o_millisecond ov = None" "o_microsecond ov = None" "o_nanosecond ov = None"
    using that subsecond_groups [OF nb(1)] by (simp add: x_def selected_subsecond_def c(4))
  have w: "wrap64 (unwrap_or (o_millisecond ov) (nanos ?b sdiv 1000000) * 1000000
            + unwrap_or (o_microsecond ov) ((nanos ?b sdiv 1000) smod 1000) * 1000
            + unwrap_or (o_nanosecond ov) (nanos ?b smod 1000)) = x"
  proof -
    have "unwrap_or (o_millisecond ov) (nanos ?b sdiv 1000000) * 1000000
            + unwrap_or (o_microsecond ov) ((nanos ?b sdiv 1000) smod 1000) * 1000
            + unwrap_or (o_nanosecond ov) (nanos ?b smod 1000) = x"
      using nb by (simp add: x_def selected_subsecond_def c(4) sdiv_nonneg smod_nonneg pos_imp_zdiv_nonneg_iff)
    then show ?thesis using x by (simp add: wrap64_small)
  qed
  from p obtain h m s ns where
    r: "(case o_hour ov of Some h \<Rightarrow> to_u32 h | None \<Rightarrow> Some (hour ?b)) = Some h"
       "(case o_minute ov of Some m \<Rightarrow> to_u32 m | None \<Rightarrow> Some (minute ?b)) = Some m"
       "(case o_second ov of Some s \<Rightarrow> to_u32 s | None \<Rightarrow> Some (second ?b)) = Some s"
       "(if o_millisecond ov \<noteq> None \<or> o_microsecond ov \<noteq> None \<or> o_nanosecond ov \<noteq> None then to_u32 x
         else Some (nanos ?b)) = Some ns"
       "from_hms_nano_ok E h m s ns"
       "n = nanos_of_day \<lparr>hour = h, minute = m, second = s, nanos = ns, precision = Minute\<rparr>"
    unfolding project_localtime_def Let_def w by (auto simp: bind_eq_Some_conv split: if_splits)
  have ns: "ns = x" using r(4) same by (auto split: if_splits)
  have pos: "0 \<le> h" "0 \<le> m" "0 \<le> s"
    using r(1-3) vb(1) by (auto simp: valid_time_def split: option.splits)
  have ok: "h < 24" "m < 60" "s < 60" using E r(5) pos x by (auto simp: hms_contract_def ns)
  show thesis
  proof (rule that [of "\<lparr>hour = h, minute = m, second = s, nanos = x, precision = SubSecond\<rparr>"])
    show "Some (hour \<lparr>hour = h, minute = m, second = s, nanos = x, precision = SubSecond\<rparr>) = time_selected (o_hour ov) base ''hour''"
      using r(1) c by (cases "o_hour ov") (simp_all add: time_selected_def)
    show "Some (minute \<lparr>hour = h, minute = m, second = s, nanos = x, precision = SubSecond\<rparr>) = time_selected (o_minute ov) base ''minute''"
      using r(2) c by (cases "o_minute ov") (simp_all add: time_selected_def)
    show "Some (second \<lparr>hour = h, minute = m, second = s, nanos = x, precision = SubSecond\<rparr>) = time_selected (o_second ov) base ''second''"
      using r(3) c by (cases "o_second ov") (simp_all add: time_selected_def)
  qed (use pos ok x in \<open>simp_all add: valid_time_def r(6) ns nanos_of_day_def x_def\<close>)
qed


text \<open>
  \<open>from_hms_nano_opt\<close> admits a leap second, so a map with a full second of nanoseconds at 23:59:59 is a
  \<open>localtime\<close> outside the day.
\<close>

lemma leap_second_escapes_day:
  assumes "hms_contract E"
  shows "localtime_nanos_from_map E [''hour'' \<mapsto> FInt 23, ''minute'' \<mapsto> FInt 59, ''second'' \<mapsto> FInt 59,
    ''nanosecond'' \<mapsto> FInt 1000000000] = Some day_nanos"
  using assms by (simp add: localtime_nanos_from_map_def resolve_time_def f_int_def contains_key_def hms_contract_def
      nanos_of_day_def day_nanos_def wrap64_small to_u32_def)

lemma resolve_quarter_overflow:
  "resolve_date [''year'' \<mapsto> FInt 2015, ''quarter'' \<mapsto> FInt 1, ''dayOfQuarter'' \<mapsto> FInt 100] = ymd_to_days 2015 4 10"
  "project_date 0 (no_overrides\<lparr>o_year := Some 2015, o_quarter := Some 1, o_day_of_quarter := Some 100\<rparr>) = None"
  by code_simp+

text \<open>The text of a date may have a year whose days are no \<open>i64\<close>.\<close>

lemma overflowing_year_accepted:
  "parse_date_string ''30000000000000000-01-01'' = Some (days_from_civil 30000000000000000 1 1)"
  "days_from_civil_chk 30000000000000000 1 1 = None"
proof -
  have "trim ''30000000000000000-01-01'' = ''30000000000000000-01-01''" by (rule trim_graphic) (simp_all add: graphic_def)
  then show "parse_date_string ''30000000000000000-01-01'' = Some (days_from_civil 30000000000000000 1 1)"
    by (simp add: parse_date_string_def ymd_to_days_def days_in_month_def text_eval)
qed (simp add: days_from_civil_chk_def to_i64_def i64_ok_def rust_arith)

lemma epoch_edge_panics:
  "datetime_from_epoch chrono_doc (95026236 * 86400 + 86399) 0 (Some ''+01:00'') = Panic"
  by code_simp

section \<open>Properties\<close>

text \<open>C27. Truncation to each unit gives the latest boundary of the unit that is not after the value, where a boundary of a
  date is a day on which the unit begins (January 1 of a year divisible by ten for a decade, the Monday of ISO week 1 for
  a week-based year, the first of January, April, July or October for a quarter, and so on), and a boundary of a time
  within the day is a multiple of the length of the unit. This determines the result, and an unknown unit has none.\<close>

theorem truncation_boundary:
  "(truncate_date d unit = Some t \<longleftrightarrow>
      date_boundary unit t \<and> t \<le> d \<and> (\<forall>e. t < e \<and> e \<le> d \<longrightarrow> \<not> date_boundary unit e))
   \<and> (0 \<le> n \<and> n < day_nanos \<longrightarrow>
      (truncate_time_nanos n unit' = Some s \<longleftrightarrow>
        time_boundary unit' s \<and> s \<le> n \<and> (\<forall>e. s < e \<and> e \<le> n \<longrightarrow> \<not> time_boundary unit' e)))"
proof
  show "truncate_date d unit = Some t \<longleftrightarrow> date_boundary unit t \<and> t \<le> d \<and> (\<forall>e. t < e \<and> e \<le> d \<longrightarrow> \<not> date_boundary unit e)"
  proof (cases "date_period unit")
    case (Some p)
    then obtain idx start where p: "date_period unit = Some (idx, start)" by (cases p) simp
    show ?thesis using period.latest_start [OF date_period_period [OF p], of t d]
      by (auto simp: date_boundary_fixed truncate_date_period p)
  qed (simp add: date_boundary_fixed truncate_date_period)
qed (use time_boundary_latest in blast)

theorem truncation_boundary_witness:
  "truncate_date 16637 ''quarter'' = Some 16617 \<and> date_boundary ''quarter'' 16617 \<and> \<not> date_boundary ''quarter'' 16620
   \<and> truncate_time_nanos 78032142000000 ''minute'' = Some 78000000000000
   \<and> time_boundary ''minute'' 78000000000000 \<and> \<not> time_boundary ''minute'' 78011111111111"
proof -
  have "truncate_date 16637 ''quarter'' = Some 16617"
      "truncate_time_nanos 78032142000000 ''minute'' = Some 78000000000000" by code_simp+
  with truncation_boundary [of 16637 "''quarter''" 16617 78032142000000 "''minute''" 78000000000000]
  show ?thesis by (simp add: day_nanos_def)
qed

text \<open>C29. Each family of accessors determines the date: projecting any base through the year, month and day of
  \<open>d\<close>, its week date, its ordinal date or its quarter date yields \<open>d\<close>, and projecting a date through no override is
  the identity.\<close>

theorem accessors_determine_date:
  assumes "i64_ok d"
  shows "project_date d no_overrides = Some d
    \<and> project_date base (no_overrides\<lparr>o_year := date_component d ''year'', o_month := date_component d ''month'',
        o_day := date_component d ''day''\<rparr>) = Some d
    \<and> project_date base (no_overrides\<lparr>o_year := date_component d ''weekYear'', o_week := date_component d ''week'',
        o_day_of_week := date_component d ''weekDay''\<rparr>) = Some d
    \<and> project_date base (no_overrides\<lparr>o_year := date_component d ''year'',
        o_ordinal_day := date_component d ''ordinalDay''\<rparr>) = Some d
    \<and> project_date base (no_overrides\<lparr>o_year := date_component d ''year'',
        o_quarter := date_component d ''quarter'', o_day_of_quarter := date_component d ''dayOfQuarter''\<rparr>) = Some d"
  using project_roundtrip_simple project_quarter_roundtrip [OF assms] by blast

theorem accessors_determine_date_witness:
  "i64_ok 16637 \<and> project_date (- 5) (no_overrides\<lparr>o_year := date_component 16637 ''weekYear'',
     o_week := date_component 16637 ''week'', o_day_of_week := date_component 16637 ''weekDay''\<rparr>) = Some 16637"
proof -
  have "i64_ok 16637" by (simp add: i64_ok_def)
  with accessors_determine_date [of 16637 "- 5"] show ?thesis by blast
qed

text \<open>C28. Select semantics of \<open>project_date\<close>. In the mode chosen by the overrides (week, ordinal, quarter, calendar)
  each component of the result is the override where one is given and the base's component otherwise. The year
  is within the openCypher range.\<close>

theorem project_date_selects:
  assumes "project_date base ov = Some d"
    "\<bar>unwrap_or (o_year ov) (fst (civil_from_days base))\<bar> \<le> 999999999"
    "\<forall>k. o_day_of_quarter ov = Some k \<longrightarrow> i64_ok k"
  shows "if o_week ov \<noteq> None \<or> o_day_of_week ov \<noteq> None then
           date_component d ''weekYear'' = selected (o_year ov) base ''weekYear''
           \<and> date_component d ''week'' = selected (o_week ov) base ''week''
           \<and> date_component d ''weekDay'' = selected (o_day_of_week ov) base ''weekDay''
         else date_component d ''year'' = selected (o_year ov) base ''year''
           \<and> (if o_ordinal_day ov \<noteq> None then
                date_component d ''ordinalDay'' = selected (o_ordinal_day ov) base ''ordinalDay''
              else if o_quarter ov \<noteq> None \<or> o_day_of_quarter ov \<noteq> None then
                date_component d ''quarter'' = selected (o_quarter ov) base ''quarter''
                \<and> date_component d ''dayOfQuarter'' = selected (o_day_of_quarter ov) base ''dayOfQuarter''
              else date_component d ''month'' = selected (o_month ov) base ''month''
                \<and> date_component d ''day'' = selected (o_day ov) base ''day'')"
  using project_week_selects [OF assms(1)] project_ordinal_selects [OF assms(1)]
    project_quarter_selects [OF assms(1) _ _ _ _ assms(2,3)] project_calendar_selects [OF assms(1)]
  by auto

theorem project_date_selects_witness:
  "project_date 16637 (no_overrides\<lparr>o_week := Some 1\<rparr>) = Some 16434
   \<and> date_component 16434 ''weekDay'' = date_component 16637 ''weekDay''"
proof -
  have a: "project_date 16637 (no_overrides\<lparr>o_week := Some 1\<rparr>) = Some 16434"
    "\<bar>fst (civil_from_days 16637)\<bar> \<le> 999999999" by code_simp+
  then show ?thesis
    using project_date_selects [of 16637 "no_overrides\<lparr>o_week := Some 1\<rparr>" 16434]
    by (simp add: no_overrides_def selected_def)
qed

text \<open>Select semantics of \<open>project_localtime\<close>: with sub-second overrides below 1000, an accepted projection is
  a time of the day whose hour, minute, second and sub-second groups are the overrides where given and the
  base's otherwise.\<close>

lemma project_localtime_selects:
  assumes "hms_contract E" "0 \<le> base" "base < day_nanos"
    "\<forall>x \<in> {o_millisecond ov, o_microsecond ov, o_nanosecond ov}. \<forall>v. x = Some v \<longrightarrow> 0 \<le> v \<and> v < 1000"
    "project_localtime E base ov = Some n"
  shows "0 \<le> n \<and> n < day_nanos
    \<and> time_component n ''hour'' = time_selected (o_hour ov) base ''hour''
    \<and> time_component n ''minute'' = time_selected (o_minute ov) base ''minute''
    \<and> time_component n ''second'' = time_selected (o_second ov) base ''second''
    \<and> time_component n ''nanosecond'' = Some (selected_subsecond ov base)"
proof -
  obtain t where t: "valid_time t" "n = nanos_of_day t"
    "Some (hour t) = time_selected (o_hour ov) base ''hour''" "Some (minute t) = time_selected (o_minute ov) base ''minute''"
    "Some (second t) = time_selected (o_second ov) base ''second''" "nanos t = selected_subsecond ov base"
    using project_localtime_parts [OF assms] by blast
  have "time_component n ''nanosecond'' = Some (n mod 1000000000)" by (simp add: time_component_def)
  with t time_component_parts [OF t(1)] nanos_of_day_range [OF t(1)] show ?thesis by simp
qed

text \<open>A zone of the year 2015 that goes from one to two hours at 2015-03-29T01:00Z.\<close>

definition chrono_dst :: chrono_env where
  "chrono_dst = chrono_doc\<lparr>tz_known := (\<lambda>z. z = ''Europe/Paris''),
     tz_local_offset := (\<lambda>z d t. let l = d * 86400000000000 + nanos_of_day t in
       if l < 1427594400000000000 then Some 3600 else if 1427598000000000000 \<le> l then Some 7200 else None),
     tz_utc_offset := (\<lambda>z d n. if d * 86400000000000 + n < 1427590800000000000 then 3600 else 7200)\<rparr>"

lemma chrono_dst_contracts: "hms_contract chrono_dst" "tz_contract chrono_dst"
proof -
  show "hms_contract chrono_dst" using chrono_doc_contract by (simp add: hms_contract_def chrono_dst_def)
  have "zone_offset_at chrono_dst z i = (if i < 1427590800000000000 then 3600 else 7200)" for z i
    by (simp add: zone_offset_at_def chrono_dst_def day_nanos_def)
  then show "tz_contract chrono_dst"
    by (auto simp: tz_contract_def instant_of_def day_nanos_def) (auto simp: chrono_dst_def Let_def split: if_splits)
qed

text \<open>C30. Changing the zone of a zoned value keeps the instant. The instant of the result of \<open>project_datetime\<close> is the one at
  which the source shows its local date and time: read with the stored offset for a source without a named zone, and with
  the offset that the named zone has at that very instant for a source with one (the stored offset only where the local
  time does not exist in the zone or the zone does not resolve). The result has the numeric target offset, or the offset
  that the named target zone has at the instant, and a nanosecond within the day; without a target the local time and the
  zone are kept. \<open>project_time\<close> keeps the instant modulo a day.\<close>

theorem zone_change_keeps_instant:
  assumes "hms_contract E" "tz_contract E" "0 \<le> n" "n < day_nanos"
    "project_datetime E d n (Some src) src_zone tz = Return (Some (d', n', off, z))" "i = instant_of d' n' off"
  shows "(case src_zone of
        None \<Rightarrow> i = instant_of d n src
      | Some zone \<Rightarrow>
          if resolve_zone_offset E d (time_parts_from_nanos n) zone = None then i = instant_of d n src
          else i = instant_of d n (zone_offset_at E zone i))
    \<and> (case tz of
         None \<Rightarrow> (d', n', z) = (d, n, src_zone)
       | Some t \<Rightarrow> (case parse_offset_seconds t of
           Some f \<Rightarrow> off = f \<and> z = None
         | None \<Rightarrow> z = Some t \<and> off = zone_offset_at E t i))
    \<and> 0 \<le> n' \<and> n' < day_nanos
    \<and> (case project_time n (Some src) (Some new) of (m, f) \<Rightarrow>
         f = new \<and> 0 \<le> m \<and> m < day_nanos
         \<and> (m - f * 1000000000) mod day_nanos = (n - src * 1000000000) mod day_nanos)"
proof -
  have "(k mod day_nanos - new * 1000000000) mod day_nanos = (k - new * 1000000000) mod day_nanos" for k
    by (simp add: mod_diff_left_eq)
  from this [of "n + (new - src) * 1000000000"]
  have t: "case project_time n (Some src) (Some new) of (m, f) \<Rightarrow>
         f = new \<and> 0 \<le> m \<and> m < day_nanos
         \<and> (m - f * 1000000000) mod day_nanos = (n - src * 1000000000) mod day_nanos"
    by (simp add: project_time_def day_nanos_def algebra_simps)
  note p = project_datetime_instant [OF assms(1,3,4,5)]
  have "case src_zone of
        None \<Rightarrow> i = instant_of d n src
      | Some zone \<Rightarrow>
          if resolve_zone_offset E d (time_parts_from_nanos n) zone = None then i = instant_of d n src
          else i = instant_of d n (zone_offset_at E zone i)"
  proof (cases src_zone)
    case None
    with p(1) assms(6) show ?thesis by (simp add: source_offset_def)
  next
    case (Some zone)
    with p(1) assms(6) source_offset_in_force [OF assms(2-4), of d zone src] show ?thesis
      by (cases "resolve_zone_offset E d (time_parts_from_nanos n) zone = None") (simp_all add: source_offset_def)
  qed
  with p(2) p(3) [folded assms(6)] t show ?thesis by blast
qed

theorem zone_change_keeps_instant_witness:
  "project_datetime chrono_dst 16637 43200000000000 (Some 3600) (Some ''Europe/Paris'') (Some ''-02:00'')
     = Return (Some (16637, 28800000000000, - 7200, None))
   \<and> instant_of 16637 28800000000000 (- 7200) = instant_of 16637 43200000000000 7200"
proof -
  have a: "project_datetime chrono_dst 16637 43200000000000 (Some 3600) (Some ''Europe/Paris'') (Some ''-02:00'')
     = Return (Some (16637, 28800000000000, - 7200, None))"
    "resolve_zone_offset chrono_dst 16637 (time_parts_from_nanos 43200000000000) ''Europe/Paris'' \<noteq> None"
    "zone_offset_at chrono_dst ''Europe/Paris'' (instant_of 16637 28800000000000 (- 7200)) = 7200" by code_simp+
  from zone_change_keeps_instant [OF chrono_dst_contracts _ _ a(1) refl] a show ?thesis by (simp add: day_nanos_def)
qed

text \<open>C31. \<open>datetime_from_epoch\<close> represents the instant it is given: the UTC instant of the result is
  \<open>seconds\<close> and \<open>nanos\<close> after the epoch whatever the zone, and \<open>epochSeconds\<close> of the result is its whole seconds.\<close>

theorem datetime_from_epoch_instant:
  assumes "hms_contract E" "datetime_from_epoch E secs n tz = Return (Some (d, n', off, z))"
    "i64_ok (secs + n div 1000000000)"
  shows "instant_of d n' off = secs * 1000000000 + n
    \<and> epoch_component d n' off ''epochSeconds'' = Some (secs + n div 1000000000)"
proof -
  let ?i = "secs * 1000000000 + n"
  have "project_datetime E (?i div day_nanos) (?i mod day_nanos) (Some 0) None tz = Return (Some (d, n', off, z))"
    using assms(2) by (auto simp: datetime_from_epoch_def day_nanos_def Let_def to_i64_def split: if_splits)
  from project_datetime_instant(1) [OF assms(1) _ _ this]
  have i: "instant_of d n' off = ?i" by (simp add: instant_of_def source_offset_def day_nanos_def)
  have "(d * 86400 - off) * 1000000000 + n' = ?i" using i by (simp add: instant_of_def day_nanos_def algebra_simps)
  then have "((d * 86400 - off) * 1000000000 + n') div 1000000000 = ?i div 1000000000" by simp
  then have "d * 86400 - off + n' div 1000000000 = secs + n div 1000000000" by simp
  with i assms(3) show ?thesis by (simp add: epoch_component_def wrap64_id algebra_simps)
qed

theorem datetime_from_epoch_instant_witness:
  "datetime_from_epoch chrono_doc 416779 1500000000 (Some ''+01:00'') = Return (Some (4, 74780500000000, 3600, None))
   \<and> epoch_component 4 74780500000000 3600 ''epochSeconds'' = Some 416780"
proof -
  have a: "datetime_from_epoch chrono_doc 416779 1500000000 (Some ''+01:00'')
    = Return (Some (4, 74780500000000, 3600, None))" by code_simp
  from datetime_from_epoch_instant [OF _ a] a show ?thesis by (simp add: i64_ok_def)
qed

end
