(* ===== verification/Duration.thy ===== *)
theory Duration
  imports Temporal_Value
begin

text \<open>
  \<open>crates/graphforge-rel/src/temporal/duration.rs\<close>: the typed duration value, its accessors and rendering,
  \<open>duration.between\<close> and its single-unit variants, and adding a duration to a temporal value. The
  operations over \<open>f64\<close> components (map and text construction, scaling) are not modelled. The \<open>i64\<close>
  arithmetic of the differences and additions wraps around as in a build without overflow checks.
\<close>

section \<open>Data\<close>

record duration_value =
  dur_months :: i64
  dur_days :: i64
  dur_seconds :: i64
  dur_nanos :: i64

datatype between_mode = Between | Months | Days | Seconds

type_synonym between_operand = "i64 option \<times> i64 \<times> i32 option \<times> string option"

type_synonym instant = "i64 \<times> i64"

definition from_total_nanos :: "i64 \<Rightarrow> i64 \<Rightarrow> i64 \<Rightarrow> duration_value" where
  "from_total_nanos months days total_nanos =
     \<lparr>dur_months = months, dur_days = days, dur_seconds = total_nanos div 1000000000,
      dur_nanos = total_nanos mod 1000000000\<rparr>"

section \<open>Accessors\<close>

definition duration_component :: "duration_value \<Rightarrow> string \<Rightarrow> i64 option" where
  "duration_component dur name =
     (let months = dur_months dur; days = dur_days dur; secs = dur_seconds dur; sub = dur_nanos dur;
          total_nanos = secs * 1000000000 + sub
      in if name = ''years'' then Some (months sdiv 12)
         else if name = ''quarters'' then Some (months sdiv 3)
         else if name = ''months'' then Some months
         else if name = ''monthsOfYear'' then Some (months smod 12)
         else if name = ''monthsOfQuarter'' then Some (months smod 3)
         else if name = ''quartersOfYear'' then Some ((months sdiv 3) smod 4)
         else if name = ''weeks'' then Some (days sdiv 7)
         else if name = ''days'' then Some days
         else if name = ''daysOfWeek'' then Some (days smod 7)
         else if name = ''hours'' then Some (secs sdiv 3600)
         else if name = ''minutes'' then Some (secs sdiv 60)
         else if name = ''seconds'' then Some secs
         else if name = ''minutesOfHour'' then Some ((secs sdiv 60) smod 60)
         else if name = ''secondsOfMinute'' then Some (secs smod 60)
         else if name = ''milliseconds'' then to_i64 (total_nanos sdiv 1000000)
         else if name = ''microseconds'' then to_i64 (total_nanos sdiv 1000)
         else if name = ''nanoseconds'' then to_i64 total_nanos
         else if name = ''millisecondsOfSecond'' then Some (sub sdiv 1000000)
         else if name = ''microsecondsOfSecond'' then Some (sub sdiv 1000)
         else if name = ''nanosecondsOfSecond'' then Some sub
         else None)"

definition is_duration_accessor :: "string \<Rightarrow> bool" where
  "is_duration_accessor name \<longleftrightarrow>
     duration_component \<lparr>dur_months = 0, dur_days = 0, dur_seconds = 0, dur_nanos = 0\<rparr> name \<noteq> None"

section \<open>Instants\<close>

definition DAY_NANOS :: i64 where
  "DAY_NANOS = 86400000000000"

definition instant_from :: "i64 \<Rightarrow> i64 \<Rightarrow> instant" where
  "instant_from days n = (wrap64 (days + n div DAY_NANOS), n mod DAY_NANOS)"

definition add_signed_months :: "instant \<Rightarrow> i64 \<Rightarrow> instant" where
  "add_signed_months dt m = (add_months_to_days (fst dt) m, snd dt)"

definition instant_num_days :: "instant \<Rightarrow> instant \<Rightarrow> i64" where
  "instant_num_days dt1 dt2 =
     (let total = wrap64 (fst dt2 - fst dt1) * DAY_NANOS + wrap64 (snd dt2 - snd dt1)
      in wrap64 (total sdiv DAY_NANOS))"

definition instant_sub_nanos :: "instant \<Rightarrow> instant \<Rightarrow> i64" where
  "instant_sub_nanos dt1 dt2 = wrap64 (wrap64 (wrap64 (fst dt2 - fst dt1) * DAY_NANOS) + wrap64 (snd dt2 - snd dt1))"

definition elapsed_seconds_between :: "instant \<Rightarrow> instant \<Rightarrow> duration_value" where
  "elapsed_seconds_between dt1 dt2 =
     (let day_secs = wrap64 (wrap64 (fst dt2 - fst dt1) * 86400);
          nanos_diff = wrap64 (snd dt2 - snd dt1)
      in \<lparr>dur_months = 0, dur_days = 0, dur_seconds = wrap64 (day_secs + nanos_diff div 1000000000),
          dur_nanos = nanos_diff mod 1000000000\<rparr>)"

text \<open>The same with the overflow checks of a debug build: \<open>None\<close> where the source panics.\<close>

definition elapsed_seconds_between_chk :: "instant \<Rightarrow> instant \<Rightarrow> duration_value option" where
  "elapsed_seconds_between_chk dt1 dt2 =
     do { day_diff \<leftarrow> to_i64 (fst dt2 - fst dt1);
          day_secs \<leftarrow> to_i64 (day_diff * 86400);
          nanos_diff \<leftarrow> to_i64 (snd dt2 - snd dt1);
          secs \<leftarrow> to_i64 (day_secs + nanos_diff div 1000000000);
          Some \<lparr>dur_months = 0, dur_days = 0, dur_seconds = secs, dur_nanos = nanos_diff mod 1000000000\<rparr> }"

definition between_instant :: "chrono_env \<Rightarrow> between_operand \<Rightarrow> between_operand \<Rightarrow> instant option" where
  "between_instant E op partner =
     (let (date, n, off, _) = op; (p_date, _, p_offset, p_zone) = partner
      in do { date \<leftarrow> (case date of Some d \<Rightarrow> Some d | None \<Rightarrow> p_date);
              off \<leftarrow> (case off of
                       Some f \<Rightarrow> Some f
                     | None \<Rightarrow>
                         (case p_zone of
                            Some z \<Rightarrow> map_option off_seconds (resolve_zone_offset E date (time_parts_from_nanos n) z)
                          | None \<Rightarrow> Some (unwrap_or p_offset 0)));
              Some (instant_from date (wrap64 (n - off * 1000000000))) })"

text \<open>The order of Rust tuples.\<close>

definition instant_le :: "instant \<Rightarrow> instant \<Rightarrow> bool" where
  "instant_le a b \<longleftrightarrow> fst a < fst b \<or> fst a = fst b \<and> snd a \<le> snd b"

definition instant_less :: "instant \<Rightarrow> instant \<Rightarrow> bool" where
  "instant_less a b \<longleftrightarrow> fst a < fst b \<or> fst a = fst b \<and> snd a < snd b"

definition whole_months :: "instant \<Rightarrow> instant \<Rightarrow> i64" where
  "whole_months dt1 dt2 =
     (let (y1, m1, _) = civil_from_days (fst dt1);
          (y2, m2, _) = civil_from_days (fst dt2);
          m = wrap64 (wrap64 (wrap64 (y2 - y1) * 12) + (m2 - m1));
          cand = add_signed_months dt1 m
      in if instant_le dt1 dt2 then (if instant_less dt2 cand then wrap64 (m - 1) else m)
         else if instant_less cand dt2 then wrap64 (m + 1)
         else m)"

definition duration_between :: "chrono_env \<Rightarrow> between_operand \<Rightarrow> between_operand \<Rightarrow> between_mode \<Rightarrow> duration_value option" where
  "duration_between E a b mode =
     (let (d1, n1, o1, _) = a; (d2, n2, o2, _) = b;
          both_off = (case (o1, o2) of (Some x, Some y) \<Rightarrow> Some (x, y) | _ \<Rightarrow> None);
          shift = (\<lambda>n off. wrap64 (n - off * 1000000000));
          zero = \<lparr>dur_months = 0, dur_days = 0, dur_seconds = 0, dur_nanos = 0\<rparr>
      in if mode = Seconds \<and> (d1 \<noteq> None \<or> d2 \<noteq> None) then
           do { dt1 \<leftarrow> between_instant E a b; dt2 \<leftarrow> between_instant E b a; Some (elapsed_seconds_between dt1 dt2) }
         else case (d1, d2) of
           (Some da, Some db) \<Rightarrow>
             (let (dt1, dt2) = (case both_off of
                     Some (oa, ob) \<Rightarrow> (instant_from da (shift n1 oa), instant_from db (shift n2 ob))
                   | None \<Rightarrow> (instant_from da n1, instant_from db n2))
              in case mode of
                   Months \<Rightarrow> Some (zero\<lparr>dur_months := whole_months dt1 dt2\<rparr>)
                 | Days \<Rightarrow> Some (zero\<lparr>dur_days := instant_num_days dt1 dt2\<rparr>)
                 | Seconds \<Rightarrow> Some (elapsed_seconds_between dt1 dt2)
                 | Between \<Rightarrow>
                     (let m = whole_months dt1 dt2; rem = instant_sub_nanos (add_signed_months dt1 m) dt2
                      in Some (from_total_nanos m (rem sdiv DAY_NANOS) (rem smod DAY_NANOS))))
         | _ \<Rightarrow>
             (let diff = (case (mode, both_off) of
                     (Months, _) \<Rightarrow> 0
                   | (Days, _) \<Rightarrow> 0
                   | (_, Some (oa, ob)) \<Rightarrow> wrap64 (shift n2 ob - shift n1 oa)
                   | (_, None) \<Rightarrow> wrap64 (n2 - n1))
              in Some (from_total_nanos 0 0 diff)))"

section \<open>Adding a duration\<close>

definition date_plus_duration :: "i64 \<Rightarrow> duration_value \<Rightarrow> i64" where
  "date_plus_duration date dur =
     (let after_months = add_months_to_days date (dur_months dur);
          total_nanos = dur_seconds dur * 1000000000 + dur_nanos dur;
          extra_days = wrap64 (total_nanos sdiv DAY_NANOS)
      in wrap64 (wrap64 (after_months + dur_days dur) + extra_days))"

definition localtime_plus_duration :: "i64 \<Rightarrow> i64 \<Rightarrow> i64" where
  "localtime_plus_duration nod dur_ns = wrap64 (nod + dur_ns) mod DAY_NANOS"


section \<open>Rendering\<close>

definition format_seconds_int :: "i64 \<Rightarrow> i64 \<Rightarrow> string" where
  "format_seconds_int whole_secs sub_ns =
     (if sub_ns = 0 then show_int whole_secs
      else let neg = whole_secs < 0 \<or> sub_ns < 0;
               frac = trim_end_matches (CHR ''0'') (pad0 9 (nat \<bar>sub_ns\<bar>))
           in (if neg then ''-'' else []) @ show_nat (nat \<bar>whole_secs\<bar>) @ ''.'' @ frac)"

definition format_duration :: "duration_value \<Rightarrow> string" where
  "format_duration dur =
     (let years = dur_months dur sdiv 12;
          months = dur_months dur smod 12;
          days = dur_days dur;
          (secs, sub_ns) = (if dur_seconds dur < 0 \<and> dur_nanos dur > 0
                            then (dur_seconds dur + 1, dur_nanos dur - 1000000000)
                            else (dur_seconds dur, dur_nanos dur));
          hours = secs sdiv 3600;
          rem = secs smod 3600;
          minutes = rem sdiv 60;
          whole_secs = rem smod 60;
          out = ''P'' @ (if years \<noteq> 0 then show_int years @ ''Y'' else [])
                      @ (if months \<noteq> 0 then show_int months @ ''M'' else [])
                      @ (if days \<noteq> 0 then show_int days @ ''D'' else []);
          time = (if hours \<noteq> 0 then show_int hours @ ''H'' else [])
                 @ (if minutes \<noteq> 0 then show_int minutes @ ''M'' else [])
                 @ (if whole_secs \<noteq> 0 \<or> sub_ns \<noteq> 0 then format_seconds_int whole_secs sub_ns @ ''S'' else []);
          out = (if time \<noteq> [] then out @ ''T'' @ time else out)
      in if out = ''P'' then out @ ''T0S'' else out)"

definition render_duration_value :: "duration_value \<Rightarrow> string" where
  "render_duration_value dur = format_duration dur"

section \<open>Lemmas\<close>

text \<open>A normalised instant as a point of the time line.\<close>

definition instant_nanos :: "instant \<Rightarrow> int" where
  "instant_nanos a = fst a * DAY_NANOS + snd a"

definition instant_ok :: "instant \<Rightarrow> bool" where
  "instant_ok a \<longleftrightarrow> 0 \<le> snd a \<and> snd a < DAY_NANOS"

lemma DAY_NANOS_pos [simp]: "0 < DAY_NANOS" "DAY_NANOS \<noteq> 0"
  by (simp_all add: DAY_NANOS_def)

lemma instant_from_ok [simp]: "instant_ok (instant_from d n)" "i64_ok (fst (instant_from d n))"
  by (simp_all add: instant_from_def instant_ok_def)

text \<open>The years of \<open>i64\<close> days are small enough that the differences of months do not overflow.\<close>

lemma civil_year_small:
  assumes "i64_ok z" "civil_from_days z = (y, m, d)"
  shows "\<bar>y\<bar> \<le> 26000000000000000" "1 \<le> m" "m \<le> 12"
proof -
  show m: "1 \<le> m" "m \<le> 12" using valid_civil [of z] by (simp_all add: assms(2) valid_date_def)
  have "days_from_civil y 1 1 \<le> z" "z < days_from_civil (y + 1) 1 1" using civil_year_bounds [OF assms(2)] by simp_all
  then have "mdays (y - 1) \<le> z + 719468" "z + 719162 < mdays y" by (simp_all add: days_from_civil_alt mdoy_def)
  moreover have "365 * w \<le> mdays w" if "0 \<le> w" for w
  proof -
    have "0 \<le> w div 4 - w div 100" "0 \<le> w div 400" using that by linarith+
    then show ?thesis unfolding mdays_def by linarith
  qed
  then have "y \<le> 26000000000000000" if "0 \<le> y - 1" using that calculation(1) assms(1) by (fastforce simp: i64_ok_def)
  moreover have "mdays w \<le> 365 * w" if "w < 0" for w
  proof -
    have "w div 4 - w div 100 \<le> 0" "w div 400 \<le> 0" using that by linarith+
    then show ?thesis unfolding mdays_def by linarith
  qed
  then have "- 26000000000000000 \<le> y" if "y < 0" using that calculation(2) assms(1) by (fastforce simp: i64_ok_def)
  ultimately show "\<bar>y\<bar> \<le> 26000000000000000" by linarith
qed

lemma month_difference:
  assumes "i64_ok z1" "i64_ok z2" "civil_from_days z1 = (y1, m1, d1)" "civil_from_days z2 = (y2, m2, d2)"
  shows "wrap64 (wrap64 (wrap64 (y2 - y1) * 12) + (m2 - m1)) = (y2 - y1) * 12 + (m2 - m1)"
    "wrap64 ((y2 - y1) * 12 + (m2 - m1) - 1) = (y2 - y1) * 12 + (m2 - m1) - 1"
    "wrap64 ((y2 - y1) * 12 + (m2 - m1) + 1) = (y2 - y1) * 12 + (m2 - m1) + 1"
  using civil_year_small [OF assms(1,3)] civil_year_small [OF assms(2,4)]
  by (simp_all add: wrap64_ring, auto intro!: wrap64_id simp: i64_ok_def)


lemma instant_order:
  assumes "instant_ok a" "instant_ok b"
  shows "instant_le a b \<longleftrightarrow> instant_nanos a \<le> instant_nanos b" "instant_less a b \<longleftrightarrow> instant_nanos a < instant_nanos b"
proof -
  have key: "instant_nanos x < instant_nanos y" if "fst x < fst y" "instant_ok x" "instant_ok y" for x y
  proof -
    have "(fst x + 1) * DAY_NANOS \<le> fst y * DAY_NANOS" using that(1) by (intro mult_right_mono) (simp_all add: DAY_NANOS_def)
    with that(2,3) show ?thesis by (simp add: instant_nanos_def instant_ok_def algebra_simps)
  qed
  have "instant_less a b \<longleftrightarrow> instant_nanos a < instant_nanos b" if "fst a = fst b"
    using that by (simp add: instant_less_def instant_nanos_def)
  moreover have "instant_le a b \<longleftrightarrow> instant_nanos a \<le> instant_nanos b" if "fst a = fst b"
    using that by (simp add: instant_le_def instant_nanos_def)
  ultimately show "instant_le a b \<longleftrightarrow> instant_nanos a \<le> instant_nanos b"
    "instant_less a b \<longleftrightarrow> instant_nanos a < instant_nanos b"
    using key [of a b] key [of b a] assms
    by (cases "fst a" "fst b" rule: linorder_cases; auto simp: instant_le_def instant_less_def)+
qed

lemma add_signed_months_ok [simp]: "instant_ok dt \<Longrightarrow> instant_ok (add_signed_months dt m)"
  by (simp add: instant_ok_def add_signed_months_def)

lemma add_signed_months_less:
  assumes "instant_ok dt1" "instant_ok dt2" "month_index (fst dt1) + m < month_index (fst dt2)"
  shows "instant_nanos (add_signed_months dt1 m) < instant_nanos dt2"
proof -
  have "\<not> fst dt2 \<le> add_months_to_days (fst dt1) m"
    using assms(3) month_index_mono [of "fst dt2" "add_months_to_days (fst dt1) m"]
    by (auto simp: month_index_add_months)
  then have "instant_less (add_signed_months dt1 m) dt2" by (simp add: instant_less_def add_signed_months_def)
  with assms(1,2) show ?thesis by (simp add: instant_order)
qed

lemma add_signed_months_greater:
  assumes "instant_ok dt1" "instant_ok dt2" "month_index (fst dt2) < month_index (fst dt1) + m"
  shows "instant_nanos dt2 < instant_nanos (add_signed_months dt1 m)"
proof -
  have "\<not> add_months_to_days (fst dt1) m \<le> fst dt2"
    using assms(3) month_index_mono [of "add_months_to_days (fst dt1) m" "fst dt2"]
    by (auto simp: month_index_add_months)
  then have "instant_less dt2 (add_signed_months dt1 m)" by (simp add: instant_less_def add_signed_months_def)
  with assms(1,2) show ?thesis by (simp add: instant_order)
qed

lemma add_signed_months_0 [simp]: "add_signed_months dt 0 = dt"
  by (simp add: add_signed_months_def add_months_0)

lemma whole_months_alt:
  assumes "instant_ok dt1" "instant_ok dt2" "i64_ok (fst dt1)" "i64_ok (fst dt2)"
  defines "m \<equiv> month_index (fst dt2) - month_index (fst dt1)"
  shows "whole_months dt1 dt2 =
    (if instant_nanos dt1 \<le> instant_nanos dt2
     then (if instant_nanos dt2 < instant_nanos (add_signed_months dt1 m) then m - 1 else m)
     else (if instant_nanos (add_signed_months dt1 m) < instant_nanos dt2 then m + 1 else m))"
proof -
  obtain y1 m1 k1 y2 m2 k2 where c: "civil_from_days (fst dt1) = (y1, m1, k1)" "civil_from_days (fst dt2) = (y2, m2, k2)"
    by (metis prod_cases3)
  then have "m = (y2 - y1) * 12 + (m2 - m1)" by (simp add: m_def month_index_def)
  with assms(1,2) month_difference [OF assms(3,4) c] show ?thesis by (simp add: whole_months_def c instant_order)
qed

lemma whole_months_forward:
  assumes "instant_ok dt1" "instant_ok dt2" "instant_nanos dt1 \<le> instant_nanos dt2" "i64_ok (fst dt1)" "i64_ok (fst dt2)"
  shows "0 \<le> whole_months dt1 dt2"
    "instant_nanos (add_signed_months dt1 (whole_months dt1 dt2)) \<le> instant_nanos dt2"
    "instant_nanos dt2 < instant_nanos (add_signed_months dt1 (whole_months dt1 dt2 + 1))"
proof -
  define m where "m = month_index (fst dt2) - month_index (fst dt1)"
  have w: "whole_months dt1 dt2 = (if instant_nanos dt2 < instant_nanos (add_signed_months dt1 m) then m - 1 else m)"
    using whole_months_alt [OF assms(1,2,4,5)] assms(3) by (simp add: m_def)
  have "fst dt1 \<le> fst dt2" using assms instant_order(1) [OF assms(1,2)] by (auto simp: instant_le_def)
  then have m0: "0 \<le> m" using month_index_mono by (simp add: m_def)
  moreover have "m \<noteq> 0" if "instant_nanos dt2 < instant_nanos (add_signed_months dt1 m)"
    using that assms(3) by auto
  ultimately show "0 \<le> whole_months dt1 dt2" by (auto simp: w)
  show "instant_nanos (add_signed_months dt1 (whole_months dt1 dt2)) \<le> instant_nanos dt2"
    using add_signed_months_less [OF assms(1,2), of "m - 1"] by (auto simp: w m_def)
  show "instant_nanos dt2 < instant_nanos (add_signed_months dt1 (whole_months dt1 dt2 + 1))"
    using add_signed_months_greater [OF assms(1,2), of "m + 1"] by (auto simp: w m_def)
qed

lemma whole_months_backward:
  assumes "instant_ok dt1" "instant_ok dt2" "instant_nanos dt2 < instant_nanos dt1" "i64_ok (fst dt1)" "i64_ok (fst dt2)"
  shows "whole_months dt1 dt2 \<le> 0"
    "instant_nanos dt2 \<le> instant_nanos (add_signed_months dt1 (whole_months dt1 dt2))"
    "instant_nanos (add_signed_months dt1 (whole_months dt1 dt2 - 1)) < instant_nanos dt2"
proof -
  define m where "m = month_index (fst dt2) - month_index (fst dt1)"
  have w: "whole_months dt1 dt2 = (if instant_nanos (add_signed_months dt1 m) < instant_nanos dt2 then m + 1 else m)"
    using whole_months_alt [OF assms(1,2,4,5)] assms(3) by (simp add: m_def)
  have "fst dt2 \<le> fst dt1"
    using assms instant_order(2) [OF assms(2,1)] by (auto simp: instant_less_def)
  then have m0: "m \<le> 0" using month_index_mono by (simp add: m_def)
  moreover have "m \<noteq> 0" if "instant_nanos (add_signed_months dt1 m) < instant_nanos dt2"
    using that assms(3) by auto
  ultimately show "whole_months dt1 dt2 \<le> 0" by (auto simp: w)
  show "instant_nanos dt2 \<le> instant_nanos (add_signed_months dt1 (whole_months dt1 dt2))"
    using add_signed_months_greater [OF assms(1,2), of "m + 1"] by (auto simp: w m_def)
  show "instant_nanos (add_signed_months dt1 (whole_months dt1 dt2 - 1)) < instant_nanos dt2"
    using add_signed_months_less [OF assms(1,2), of "m - 1"] by (auto simp: w m_def)
qed

text \<open>The total sub-day nanoseconds of a duration.\<close>

definition sub_day_nanos :: "duration_value \<Rightarrow> int" where
  "sub_day_nanos dur = dur_seconds dur * 1000000000 + dur_nanos dur"

lemma sub_day_from_total [simp]:
  "sub_day_nanos (from_total_nanos m d t) = t" "dur_months (from_total_nanos m d t) = m"
  "dur_days (from_total_nanos m d t) = d" "dur_seconds (from_total_nanos m d t) = t div 1000000000"
  "dur_nanos (from_total_nanos m d t) = t mod 1000000000"
  by (simp_all add: sub_day_nanos_def from_total_nanos_def)





text \<open>The instants \<open>duration_between\<close> compares: UTC when both operands are zoned, local otherwise.\<close>

definition compared :: "between_operand \<Rightarrow> between_operand \<Rightarrow> instant" where
  "compared x y =
     (case (x, y) of ((d, n, off, _), (_, _, off', _)) \<Rightarrow>
        instant_from (unwrap_or d 0)
          (case (off, off') of (Some f, Some _) \<Rightarrow> wrap64 (n - f * 1000000000) | _ \<Rightarrow> n))"

lemma duration_between_dated:
  assumes "mode \<noteq> Seconds"
  shows "duration_between E (Some d1, n1, o1, z1) (Some d2, n2, o2, z2) mode =
    (let dt1 = compared (Some d1, n1, o1, z1) (Some d2, n2, o2, z2);
         dt2 = compared (Some d2, n2, o2, z2) (Some d1, n1, o1, z1);
         m = whole_months dt1 dt2; rem = instant_sub_nanos (add_signed_months dt1 m) dt2
     in Some (case mode of
          Months \<Rightarrow> from_total_nanos m 0 0
        | Days \<Rightarrow> from_total_nanos 0 (instant_num_days dt1 dt2) 0
        | _ \<Rightarrow> from_total_nanos m (rem sdiv DAY_NANOS) (rem smod DAY_NANOS)))"
  using assms
  by (cases o1; cases o2; cases mode) (simp_all add: duration_between_def compared_def Let_def from_total_nanos_def)

lemma compared_ok [simp]: "instant_ok (compared x y)" "i64_ok (fst (compared x y))"
  by (simp_all add: compared_def split: prod.splits)




section \<open>Properties\<close>


text \<open>C32. \<open>duration.inMonths\<close> counts whole months truncated towards zero: the months are the count closest to zero
  whose addition does not pass the end, in both directions.\<close>

theorem in_months_closest:
  assumes "a = (Some d1, n1, o1, z1)" "b = (Some d2, n2, o2, z2)"
    "duration_between E a b Months = Some dur" "m = dur_months dur"
  shows "if instant_nanos (compared a b) \<le> instant_nanos (compared b a)
    then 0 \<le> m \<and> instant_nanos (add_signed_months (compared a b) m) \<le> instant_nanos (compared b a)
         \<and> instant_nanos (compared b a) < instant_nanos (add_signed_months (compared a b) (m + 1))
    else m \<le> 0 \<and> instant_nanos (compared b a) \<le> instant_nanos (add_signed_months (compared a b) m)
         \<and> instant_nanos (add_signed_months (compared a b) (m - 1)) < instant_nanos (compared b a)"
proof -
  have "m = whole_months (compared a b) (compared b a)"
    using assms(3,4) by (auto simp: assms(1,2) duration_between_dated Let_def)
  then show ?thesis using whole_months_forward whole_months_backward by simp
qed

theorem in_months_closest_witness:
  "duration_between chrono_doc (Some 0, 36000000000000, None, None) (Some 364, 0, None, None) Months
     = Some \<lparr>dur_months = 11, dur_days = 0, dur_seconds = 0, dur_nanos = 0\<rparr>
   \<and> instant_nanos (364, 0) < instant_nanos (add_signed_months (0, 36000000000000) 12)"
proof -
  have wm: "whole_months (0, 36000000000000) (364, 0) = 11" by code_simp
  have c: "compared (Some 0, 36000000000000, None, None) (Some 364, 0, None, None) = (0, 36000000000000)"
    "compared (Some 364, 0, None, None) (Some 0, 36000000000000, None, None) = (364, 0)"
    by (simp_all add: compared_def instant_from_def DAY_NANOS_def wrap64_small)
  have a: "duration_between chrono_doc (Some 0, 36000000000000, None, None) (Some 364, 0, None, None) Months
     = Some \<lparr>dur_months = 11, dur_days = 0, dur_seconds = 0, dur_nanos = 0\<rparr>"
    "compared (Some 0, 36000000000000, None, None) (Some 364, 0, None, None) = (0, 36000000000000)"
    "compared (Some 364, 0, None, None) (Some 0, 36000000000000, None, None) = (364, 0)"
    "instant_nanos (0, 36000000000000) \<le> instant_nanos (364, 0)"
    using wm by (simp_all add: duration_between_dated c from_total_nanos_def instant_nanos_def DAY_NANOS_def)
  from in_months_closest [OF refl refl a(1) refl] a show ?thesis by simp
qed

lemma shifted_nanos:
  assumes "0 \<le> n" "n < DAY_NANOS" "\<bar>f\<bar> < 2 ^ 31"
  shows "wrap64 (n - f * 1000000000) = n - f * 1000000000"
  by (rule wrap64_id) (use assms in \<open>auto simp: DAY_NANOS_def i64_ok_def abs_less_iff\<close>)

lemma elapsed_seconds:
  fixes d1 d2 n1 n2 :: int
  defines "T \<equiv> (d2 * DAY_NANOS + n2) - (d1 * DAY_NANOS + n1)"
  defines "dt1 \<equiv> instant_from d1 n1" and "dt2 \<equiv> instant_from d2 n2"
  shows "elapsed_seconds_between dt1 dt2 =
      \<lparr>dur_months = 0, dur_days = 0, dur_seconds = wrap64 (T div 1000000000), dur_nanos = T mod 1000000000\<rparr>"
    "\<bar>d1\<bar> \<le> 50000000000000 \<Longrightarrow> \<bar>d2\<bar> \<le> 50000000000000 \<Longrightarrow> \<bar>n1\<bar> \<le> 3000000000000000000 \<Longrightarrow> \<bar>n2\<bar> \<le> 3000000000000000000 \<Longrightarrow>
      elapsed_seconds_between_chk dt1 dt2 = Some (elapsed_seconds_between dt1 dt2) \<and> i64_ok (T div 1000000000)"
proof -
  define D r where "D = d2 + n2 div DAY_NANOS - (d1 + n1 div DAY_NANOS)" and "r = n2 mod DAY_NANOS - n1 mod DAY_NANOS"
  have T: "T = D * 86400 * 1000000000 + r"
    using div_mult_mod_eq [of n1 DAY_NANOS] div_mult_mod_eq [of n2 DAY_NANOS]
    by (simp add: T_def D_def r_def DAY_NANOS_def algebra_simps)
  have r: "- DAY_NANOS < r" "r < DAY_NANOS"
    using pos_mod_bound [OF DAY_NANOS_pos(1), of n1] pos_mod_bound [OF DAY_NANOS_pos(1), of n2]
      pos_mod_sign [OF DAY_NANOS_pos(1), of n1] pos_mod_sign [OF DAY_NANOS_pos(1), of n2] unfolding r_def by linarith+
  then have w: "wrap64 r = r" by (intro wrap64_id) (simp add: DAY_NANOS_def i64_ok_def)
  have div: "T div 1000000000 = D * 86400 + r div 1000000000" "T mod 1000000000 = r mod 1000000000"
    unfolding T by (rule div_mult_self3, simp) (rule mod_mult_self3)
  have "wrap64 (wrap64 (d2 + n2 div DAY_NANOS) - wrap64 (d1 + n1 div DAY_NANOS)) = wrap64 D" by (simp add: D_def wrap64_ring)
  then show e: "elapsed_seconds_between dt1 dt2 =
      \<lparr>dur_months = 0, dur_days = 0, dur_seconds = wrap64 (T div 1000000000), dur_nanos = T mod 1000000000\<rparr>"
    using w by (simp add: elapsed_seconds_between_def dt1_def dt2_def instant_from_def Let_def r_def [symmetric] div wrap64_ring)
  assume b: "\<bar>d1\<bar> \<le> 50000000000000" "\<bar>d2\<bar> \<le> 50000000000000" "\<bar>n1\<bar> \<le> 3000000000000000000" "\<bar>n2\<bar> \<le> 3000000000000000000"
  then have q: "\<bar>n1 div DAY_NANOS\<bar> \<le> 40000" "\<bar>n2 div DAY_NANOS\<bar> \<le> 40000" by (auto simp: DAY_NANOS_def abs_le_iff)
  with b have s: "wrap64 (d1 + n1 div DAY_NANOS) = d1 + n1 div DAY_NANOS" "wrap64 (d2 + n2 div DAY_NANOS) = d2 + n2 div DAY_NANOS"
    by (auto intro!: wrap64_id simp: i64_ok_def)
  have "\<bar>D\<bar> \<le> 100000000080000" using b q by (auto simp: D_def abs_le_iff)
  then have "i64_ok D" "i64_ok (D * 86400)" "i64_ok r" "i64_ok (D * 86400 + r div 1000000000)"
    using r by (auto simp: i64_ok_def DAY_NANOS_def abs_le_iff)
  then show "elapsed_seconds_between_chk dt1 dt2 = Some (elapsed_seconds_between dt1 dt2) \<and> i64_ok (T div 1000000000)"
    unfolding e div
    by (simp add: elapsed_seconds_between_chk_def dt1_def dt2_def instant_from_def s D_def [symmetric] r_def [symmetric] to_i64_def wrap64_id)
qed

text \<open>C33. \<open>duration.inSeconds\<close> between zoned operands. With the difference of the UTC instants in nanoseconds, the
  nanoseconds of the result are its part below a second, and the seconds are its whole seconds, wrapped around where they
  do not fit \<open>i64\<close>; no month or day is reported. Up to 5e13 days from the epoch, more than a hundred times the years of
  openCypher, nothing overflows: the evaluation with overflow checks gives the same result, the total is the exact
  difference, and swapping the operands negates it.\<close>

theorem in_seconds_exact:
  assumes "a = (Some d1, n1, Some o1, z1)" "b = (Some d2, n2, Some o2, z2)"
    "0 \<le> n1" "n1 < DAY_NANOS" "0 \<le> n2" "n2 < DAY_NANOS" "\<bar>o1\<bar> < 2 ^ 31" "\<bar>o2\<bar> < 2 ^ 31"
    "T = instant_of d2 n2 o2 - instant_of d1 n1 o1"
  shows "\<exists>x y. duration_between E a b Seconds = Some x \<and> duration_between E b a Seconds = Some y
    \<and> dur_months x = 0 \<and> dur_days x = 0 \<and> dur_seconds x = wrap64 (T div 1000000000) \<and> dur_nanos x = T mod 1000000000
    \<and> (\<bar>d1\<bar> \<le> 50000000000000 \<and> \<bar>d2\<bar> \<le> 50000000000000 \<longrightarrow>
        sub_day_nanos x = T \<and> sub_day_nanos y = - T
        \<and> Option.bind (between_instant E a b) (\<lambda>dt1. Option.bind (between_instant E b a) (elapsed_seconds_between_chk dt1)) = Some x)"
proof -
  let ?n1 = "n1 - o1 * 1000000000" and ?n2 = "n2 - o2 * 1000000000"
  note w = shifted_nanos [OF assms(3,4,7)] shifted_nanos [OF assms(5,6,8)]
  have dt: "between_instant E a b = Some (instant_from d1 ?n1)" "between_instant E b a = Some (instant_from d2 ?n2)"
    by (simp_all add: between_instant_def assms(1,2) w)
  have T: "T = (d2 * DAY_NANOS + ?n2) - (d1 * DAY_NANOS + ?n1)" "- T = (d1 * DAY_NANOS + ?n1) - (d2 * DAY_NANOS + ?n2)"
    by (simp_all add: assms(9) instant_of_def day_nanos_def DAY_NANOS_def)
  have n: "\<bar>?n1\<bar> \<le> 3000000000000000000" "\<bar>?n2\<bar> \<le> 3000000000000000000"
    using assms(3-8) by (auto simp: DAY_NANOS_def abs_less_iff abs_le_iff)
  define x y where "x = elapsed_seconds_between (instant_from d1 ?n1) (instant_from d2 ?n2)"
    and "y = elapsed_seconds_between (instant_from d2 ?n2) (instant_from d1 ?n1)"
  have xy: "duration_between E a b Seconds = Some x" "duration_between E b a Seconds = Some y"
    using dt by (simp_all add: duration_between_def assms(1,2) x_def y_def)
  note ex = elapsed_seconds [where ?d1.0 = d1 and ?n1.0 = ?n1 and ?d2.0 = d2 and ?n2.0 = ?n2, folded T x_def]
    and ey = elapsed_seconds [where ?d1.0 = d2 and ?n1.0 = ?n2 and ?d2.0 = d1 and ?n2.0 = ?n1, folded T(2) y_def]
  have "sub_day_nanos x = T \<and> sub_day_nanos y = - T
      \<and> Option.bind (between_instant E a b) (\<lambda>dt1. Option.bind (between_instant E b a) (elapsed_seconds_between_chk dt1)) = Some x"
    if "\<bar>d1\<bar> \<le> 50000000000000" "\<bar>d2\<bar> \<le> 50000000000000"
    using ex(2) [OF that n] ey(2) [OF that(2,1) n(2,1)] ex(1) ey(1) by (simp add: dt sub_day_nanos_def wrap64_id)
  with xy ex(1) show ?thesis by simp
qed

theorem in_seconds_exact_witness:
  "\<exists>x. duration_between chrono_doc (Some (- 365243219162), 0, Some 0, None) (Some 365241780471, 86399999999999, Some 3600, None) Seconds = Some x
     \<and> dur_seconds x = 63113903968373999 \<and> dur_nanos x = 999999999"
proof -
  let ?T = "instant_of 365241780471 86399999999999 3600 - instant_of (- 365243219162) 0 0"
  have "?T = 63113903968373999999999999" by (simp add: instant_of_def day_nanos_def)
  moreover have "wrap64 63113903968373999 = 63113903968373999" by (simp add: wrap64_id i64_ok_def)
  ultimately show ?thesis
    using in_seconds_exact [OF refl refl, where ?d1.0 = "- 365243219162" and ?n1.0 = 0 and ?o1.0 = 0 and ?z1.0 = None
        and ?d2.0 = 365241780471 and ?n2.0 = 86399999999999 and ?o2.0 = 3600 and ?z2.0 = None and T = ?T and E = chrono_doc]
    by (auto simp: DAY_NANOS_def)
qed

end
