(* ===== verification/Canonical.thy ===== *)
theory Canonical
  imports GF_Prelude "HOL-Library.Word"
begin

unbundle bit_operations_syntax

text \<open>
  \<open>crates/graphforge-core/src/canonical.rs\<close>: the bounded byte writer and strict reader of the canonical grammar,
  the fingerprint envelope and the UUIDv8 projection. A byte is an \<open>8 word\<close>, a \<open>&str\<close> its UTF-8 bytes, a
  fallible call a sum with the error on the left. The reader is a cursor passed in and out, so that a failed call
  leaves it where the source leaves it. SHA-256 is a parameter.
\<close>

section \<open>Data\<close>

type_synonym byte = "8 word"

definition CANONICAL_CONTRACT_VERSION :: "32 word" where
  "CANONICAL_CONTRACT_VERSION = 1"

definition MAX_CANONICAL_PAYLOAD_BYTES :: nat where
  "MAX_CANONICAL_PAYLOAD_BYTES = 2147483648"

definition MAX_CANONICAL_TEXT_BYTES :: nat where
  "MAX_CANONICAL_TEXT_BYTES = 16777216"

definition MAX_CANONICAL_BINARY_BYTES :: nat where
  "MAX_CANONICAL_BINARY_BYTES = 67108864"

datatype canonical_domain =
  Schema | Assertion | EvidenceLink | ConfidenceAssessment | Reasoning | AssertionStatus |
  AssertionValidity | AssertionSupersession | HypothesisGroup | HypothesisMembership |
  HypothesisSelection | CompositeGraphMutationContent | CompositeRequest | ProvenanceEvent |
  Lineage | InvocationDescriptor | GraphProjection | BeliefProjectionPolicy |
  BeliefProjectionAttachment | ArrowResult | ResearchSource | ResearchArtifact |
  ArtifactDerivation | ArtifactPreference | RetentionDependency | ResearchClaim |
  ResearchClaimRelation | ResearchDecision | ResearchClaimSuppression

fun as_str :: "canonical_domain \<Rightarrow> string" where
  "as_str Schema = ''graphforge/schema''"
| "as_str Assertion = ''graphforge/assertion''"
| "as_str EvidenceLink = ''graphforge/evidence-link''"
| "as_str ConfidenceAssessment = ''graphforge/confidence-assessment''"
| "as_str Reasoning = ''graphforge/reasoning''"
| "as_str AssertionStatus = ''graphforge/assertion-status''"
| "as_str AssertionValidity = ''graphforge/assertion-validity''"
| "as_str AssertionSupersession = ''graphforge/assertion-supersession''"
| "as_str HypothesisGroup = ''graphforge/hypothesis-group''"
| "as_str HypothesisMembership = ''graphforge/hypothesis-membership''"
| "as_str HypothesisSelection = ''graphforge/hypothesis-selection''"
| "as_str CompositeGraphMutationContent = ''graphforge/composite-graph-mutation-content''"
| "as_str CompositeRequest = ''graphforge/composite-request''"
| "as_str ProvenanceEvent = ''graphforge/provenance-event''"
| "as_str Lineage = ''graphforge/lineage''"
| "as_str InvocationDescriptor = ''graphforge/invocation-descriptor''"
| "as_str GraphProjection = ''graphforge/graph-projection''"
| "as_str BeliefProjectionPolicy = ''graphforge/belief-projection-policy''"
| "as_str BeliefProjectionAttachment = ''graphforge/belief-projection-attachment''"
| "as_str ArrowResult = ''graphforge/arrow-result''"
| "as_str ResearchSource = ''graphforge/research-source''"
| "as_str ResearchArtifact = ''graphforge/research-artifact''"
| "as_str ArtifactDerivation = ''graphforge/artifact-derivation''"
| "as_str ArtifactPreference = ''graphforge/artifact-preference''"
| "as_str RetentionDependency = ''graphforge/retention-dependency''"
| "as_str ResearchClaim = ''graphforge/research-claim''"
| "as_str ResearchClaimRelation = ''graphforge/research-claim-relation''"
| "as_str ResearchDecision = ''graphforge/research-decision''"
| "as_str ResearchClaimSuppression = ''graphforge/research-claim-suppression''"

datatype canonical_error =
  Limit string nat nat
| UnsupportedVersion "32 word"
| Malformed string

fun error_code :: "canonical_error \<Rightarrow> string" where
  "error_code (Limit _ _ _) = ''GF_CANONICAL_LIMIT''"
| "error_code (UnsupportedVersion _) = ''GF_UNSUPPORTED_CONTRACT_VERSION''"
| "error_code (Malformed _) = ''GF_CANONICAL_INVALID''"

record canonical_writer =
  w_bytes :: "byte list"

record canonical_reader =
  r_bytes :: "byte list"
  r_offset :: nat

type_synonym 'a parsed = "(canonical_error + 'a) \<times> canonical_reader"

section \<open>Standard library\<close>

text \<open>\<open>to_be_bytes\<close> of a \<open>k\<close>-byte unsigned number, and \<open>from_be_bytes\<close>.\<close>

fun be_bytes :: "nat \<Rightarrow> nat \<Rightarrow> byte list" where
  "be_bytes 0 n = []"
| "be_bytes (Suc k) n = word_of_nat (n div 256 ^ k) # be_bytes k (n mod 256 ^ k)"

definition from_be :: "byte list \<Rightarrow> nat" where
  "from_be bs = foldl (\<lambda>a b. 256 * a + unat b) 0 bs"

text \<open>\<open>str::from_utf8\<close>: the well-formed byte sequences of Unicode.\<close>

definition utf8_cont :: "byte \<Rightarrow> bool" where
  "utf8_cont b \<longleftrightarrow> 128 \<le> b \<and> b \<le> 191"

fun valid_utf8 :: "byte list \<Rightarrow> bool" where
  "valid_utf8 [] = True"
| "valid_utf8 (a # bs) =
     (if a < 128 then valid_utf8 bs
      else case bs of
        [] \<Rightarrow> False
      | b # bs1 \<Rightarrow>
          if 194 \<le> a \<and> a \<le> 223 then utf8_cont b \<and> valid_utf8 bs1
          else case bs1 of
            [] \<Rightarrow> False
          | c # bs2 \<Rightarrow>
              if 224 \<le> a \<and> a \<le> 239 then
                utf8_cont b \<and> utf8_cont c \<and> (a = 224 \<longrightarrow> 160 \<le> b) \<and> (a = 237 \<longrightarrow> b \<le> 159) \<and> valid_utf8 bs2
              else case bs2 of
                [] \<Rightarrow> False
              | d # bs3 \<Rightarrow>
                  240 \<le> a \<and> a \<le> 244 \<and> utf8_cont b \<and> utf8_cont c \<and> utf8_cont d \<and>
                  (a = 240 \<longrightarrow> 144 \<le> b) \<and> (a = 244 \<longrightarrow> b \<le> 143) \<and> valid_utf8 bs3)"

definition usize_max :: nat where
  "usize_max = 18446744073709551615"

section \<open>The reader\<close>

definition reader_new :: "byte list \<Rightarrow> canonical_error + canonical_reader" where
  "reader_new bytes =
     (if length bytes > MAX_CANONICAL_PAYLOAD_BYTES
      then Inl (Limit ''payload'' (length bytes) MAX_CANONICAL_PAYLOAD_BYTES)
      else Inr \<lparr>r_bytes = bytes, r_offset = 0\<rparr>)"

definition reader_raw :: "nat \<Rightarrow> canonical_reader \<Rightarrow> byte list parsed" where
  "reader_raw len r =
     (let end = r_offset r + len
      in if end > usize_max then (Inl (Malformed ''byte range overflow''), r)
         else if end > length (r_bytes r) then (Inl (Malformed ''truncated payload''), r)
         else (Inr (take len (drop (r_offset r) (r_bytes r))), r\<lparr>r_offset := end\<rparr>))"

definition reader_u8 :: "canonical_reader \<Rightarrow> byte parsed" where
  "reader_u8 r = (case reader_raw 1 r of (Inl e, r) \<Rightarrow> (Inl e, r) | (Inr bs, r) \<Rightarrow> (Inr (bs ! 0), r))"

definition reader_u32 :: "canonical_reader \<Rightarrow> 32 word parsed" where
  "reader_u32 r =
     (case reader_raw 4 r of (Inl e, r) \<Rightarrow> (Inl e, r) | (Inr bs, r) \<Rightarrow> (Inr (word_of_nat (from_be bs)), r))"

definition reader_u64 :: "canonical_reader \<Rightarrow> 64 word parsed" where
  "reader_u64 r =
     (case reader_raw 8 r of (Inl e, r) \<Rightarrow> (Inl e, r) | (Inr bs, r) \<Rightarrow> (Inr (word_of_nat (from_be bs)), r))"

definition reader_text :: "canonical_reader \<Rightarrow> byte list parsed" where
  "reader_text r =
     (case reader_u64 r of
        (Inl e, r) \<Rightarrow> (Inl e, r)
      | (Inr len, r) \<Rightarrow>
          if unat len > MAX_CANONICAL_TEXT_BYTES then (Inl (Limit ''text'' (unat len) MAX_CANONICAL_TEXT_BYTES), r)
          else (case reader_raw (unat len) r of
                  (Inl e, r) \<Rightarrow> (Inl e, r)
                | (Inr bs, r) \<Rightarrow> if valid_utf8 bs then (Inr bs, r) else (Inl (Malformed ''text is not valid UTF-8''), r)))"

definition reader_finish :: "canonical_reader \<Rightarrow> canonical_error + unit" where
  "reader_finish r = (if r_offset r = length (r_bytes r) then Inr () else Inl (Malformed ''trailing bytes''))"

section \<open>The writer\<close>

definition writer_new :: canonical_writer where
  "writer_new = \<lparr>w_bytes = []\<rparr>"

definition writer_raw :: "byte list \<Rightarrow> canonical_writer \<Rightarrow> canonical_error + canonical_writer" where
  "writer_raw bytes w =
     (let next = length (w_bytes w) + length bytes
      in if next > usize_max then Inl (Limit ''payload'' usize_max MAX_CANONICAL_PAYLOAD_BYTES)
         else if next > MAX_CANONICAL_PAYLOAD_BYTES then Inl (Limit ''payload'' next MAX_CANONICAL_PAYLOAD_BYTES)
         else Inr (w\<lparr>w_bytes := w_bytes w @ bytes\<rparr>))"

definition and_then :: "'e + 'a \<Rightarrow> ('a \<Rightarrow> 'e + 'b) \<Rightarrow> 'e + 'b" where
  "and_then x f = (case x of Inl e \<Rightarrow> Inl e | Inr y \<Rightarrow> f y)"

lemma and_then_Inr: "and_then x f = Inr y \<longleftrightarrow> (\<exists>z. x = Inr z \<and> f z = Inr y)"
  by (auto simp: and_then_def split: sum.splits)

definition writer_u8 :: "byte \<Rightarrow> canonical_writer \<Rightarrow> canonical_error + canonical_writer" where
  "writer_u8 v = writer_raw [v]"

definition writer_u16 :: "16 word \<Rightarrow> canonical_writer \<Rightarrow> canonical_error + canonical_writer" where
  "writer_u16 v = writer_raw (be_bytes 2 (unat v))"

definition writer_u32 :: "32 word \<Rightarrow> canonical_writer \<Rightarrow> canonical_error + canonical_writer" where
  "writer_u32 v = writer_raw (be_bytes 4 (unat v))"

definition writer_u64 :: "64 word \<Rightarrow> canonical_writer \<Rightarrow> canonical_error + canonical_writer" where
  "writer_u64 v = writer_raw (be_bytes 8 (unat v))"

definition writer_i64 :: "64 word \<Rightarrow> canonical_writer \<Rightarrow> canonical_error + canonical_writer" where
  "writer_i64 v = writer_raw (be_bytes 8 (unat v))"

definition writer_binary :: "byte list \<Rightarrow> canonical_writer \<Rightarrow> canonical_error + canonical_writer" where
  "writer_binary value w =
     (if length value > usize_max then Inl (Limit ''binary'' usize_max MAX_CANONICAL_BINARY_BYTES)
      else if length value > MAX_CANONICAL_BINARY_BYTES
      then Inl (Limit ''binary'' (length value) MAX_CANONICAL_BINARY_BYTES)
      else and_then (writer_u64 (word_of_nat (length value)) w) (writer_raw value))"

definition writer_text :: "byte list \<Rightarrow> canonical_writer \<Rightarrow> canonical_error + canonical_writer" where
  "writer_text value w =
     (if length value > usize_max then Inl (Limit ''text'' usize_max MAX_CANONICAL_TEXT_BYTES)
      else if length value > MAX_CANONICAL_TEXT_BYTES
      then Inl (Limit ''text'' (length value) MAX_CANONICAL_TEXT_BYTES)
      else and_then (writer_u64 (word_of_nat (length value)) w) (writer_raw value))"

definition writer_finish :: "canonical_writer \<Rightarrow> byte list" where
  "writer_finish w = w_bytes w"

section \<open>Fingerprints\<close>

definition str_bytes :: "string \<Rightarrow> byte list" where
  "str_bytes s = map (\<lambda>c. word_of_nat (of_char c)) s"

definition fingerprint_preimage :: "canonical_domain \<Rightarrow> 32 word \<Rightarrow> byte list \<Rightarrow> canonical_error + byte list" where
  "fingerprint_preimage domain contract_version payload =
     (if contract_version \<noteq> CANONICAL_CONTRACT_VERSION then Inl (UnsupportedVersion contract_version)
      else if length payload > usize_max then Inl (Limit ''payload'' usize_max MAX_CANONICAL_PAYLOAD_BYTES)
      else if length payload > MAX_CANONICAL_PAYLOAD_BYTES
      then Inl (Limit ''payload'' (length payload) MAX_CANONICAL_PAYLOAD_BYTES)
      else
        let domain_bytes = str_bytes (as_str domain)
        in and_then (writer_raw (str_bytes ''GFFP'') writer_new) (\<lambda>w.
           and_then (writer_u8 1 w) (\<lambda>w.
           and_then (writer_u16 (word_of_nat (length domain_bytes)) w) (\<lambda>w.
           and_then (writer_raw domain_bytes w) (\<lambda>w.
           and_then (writer_u32 contract_version w) (\<lambda>w.
           and_then (writer_u64 (word_of_nat (length payload)) w) (\<lambda>w.
           and_then (writer_raw payload w) (\<lambda>w.
           Inr (writer_finish w)))))))))"

definition fingerprint :: "(byte list \<Rightarrow> byte list) \<Rightarrow> canonical_domain \<Rightarrow> 32 word \<Rightarrow> byte list \<Rightarrow> canonical_error + byte list" where
  "fingerprint sha256 domain contract_version payload =
     and_then (fingerprint_preimage domain contract_version payload) (\<lambda>b. Inr (sha256 b))"

definition uuid_v8 :: "byte list \<Rightarrow> byte list" where
  "uuid_v8 fp =
     (let bytes = take 16 fp;
          bytes = bytes[6 := (bytes ! 6 AND 0x0f) OR 0x80];
          bytes = bytes[8 := (bytes ! 8 AND 0x3f) OR 0x80]
      in bytes)"

section \<open>Byte lemmas\<close>

lemma length_be_bytes [simp]: "length (be_bytes k n) = k"
  by (induction k n rule: be_bytes.induct) auto

lemma from_be_Cons: "from_be (b # bs) = unat b * 256 ^ length bs + from_be bs"
proof -
  have f: "foldl (\<lambda>a b. 256 * a + unat b) c bs = c * 256 ^ length bs + foldl (\<lambda>a b. 256 * a + unat b) 0 bs"
    for c and bs :: "byte list"
  proof (induction bs arbitrary: c)
    case (Cons b bs)
    show ?case using Cons [of "256 * c + unat b"] Cons [of "unat b"] by (simp add: algebra_simps)
  qed simp
  show ?thesis using f [of "unat b" bs] by (simp add: from_be_def)
qed

lemma from_be_Nil [simp]: "from_be [] = 0"
  by (simp add: from_be_def)

lemma from_be_be_bytes: "n < 256 ^ k \<Longrightarrow> from_be (be_bytes k n) = n"
proof (induction k n rule: be_bytes.induct)
  case (2 k n)
  have "n div 256 ^ k < 256" using 2(2) by (simp add: less_mult_imp_div_less mult.commute)
  then have "unat (word_of_nat (n div 256 ^ k) :: byte) = n div 256 ^ k" by (simp add: unat_of_nat)
  with 2 show ?case by (simp add: from_be_Cons del: div_mult_mod_eq) (metis div_mult_mod_eq)
qed simp

lemma from_be_word:
  "word_of_nat (from_be (be_bytes 4 (unat (v :: 32 word)))) = v"
  "word_of_nat (from_be (be_bytes 8 (unat (u :: 64 word)))) = u"
proof -
  have "unat v < 256 ^ 4" using unsigned_less [of v] by simp
  then show "word_of_nat (from_be (be_bytes 4 (unat v))) = v" by (simp add: from_be_be_bytes)
  have "unat u < 256 ^ 8" using unsigned_less [of u] by simp
  then show "word_of_nat (from_be (be_bytes 8 (unat u))) = u" by (simp add: from_be_be_bytes)
qed

lemma be_bytes_inj: "n < 256 ^ k \<Longrightarrow> m < 256 ^ k \<Longrightarrow> be_bytes k n = be_bytes k m \<longleftrightarrow> n = m"
  using from_be_be_bytes by metis

section \<open>The contract of an item\<close>

text \<open>The reader \<open>r\<close> stands before \<open>todo\<close>.\<close>

definition reader_at :: "canonical_reader \<Rightarrow> byte list \<Rightarrow> bool" where
  "reader_at r todo \<longleftrightarrow>
     r_offset r \<le> length (r_bytes r) \<and> drop (r_offset r) (r_bytes r) = todo \<and> length (r_bytes r) \<le> usize_max"

definition advance :: "canonical_reader \<Rightarrow> nat \<Rightarrow> canonical_reader" where
  "advance r k = r\<lparr>r_offset := r_offset r + k\<rparr>"

fun write_all :: "('a \<Rightarrow> canonical_writer \<Rightarrow> canonical_error + canonical_writer) \<Rightarrow> 'a list \<Rightarrow> canonical_writer \<Rightarrow> canonical_error + canonical_writer" where
  "write_all wr [] w = Inr w"
| "write_all wr (x # xs) w = and_then (wr x w) (write_all wr xs)"

fun read_all :: "('k \<Rightarrow> canonical_reader \<Rightarrow> 'a parsed) \<Rightarrow> 'k list \<Rightarrow> canonical_reader \<Rightarrow> 'a list parsed" where
  "read_all rd [] r = (Inr [], r)"
| "read_all rd (k # ks) r =
     (case rd k r of
        (Inl e, r) \<Rightarrow> (Inl e, r)
      | (Inr x, r) \<Rightarrow> (case read_all rd ks r of (Inl e, r) \<Rightarrow> (Inl e, r) | (Inr xs, r) \<Rightarrow> (Inr (x # xs), r)))"

locale canonical_item =
  fixes put :: "'a \<Rightarrow> byte list"
    and wr :: "'a \<Rightarrow> canonical_writer \<Rightarrow> canonical_error + canonical_writer"
    and kind :: "'a \<Rightarrow> 'k"
    and rd :: "'k \<Rightarrow> canonical_reader \<Rightarrow> 'a parsed"
    and ok :: "'a \<Rightarrow> bool"
  assumes wr_put: "wr x w = Inr w' \<Longrightarrow> w_bytes w' = w_bytes w @ put x \<and> length (w_bytes w') \<le> MAX_CANONICAL_PAYLOAD_BYTES"
    and rd_put: "ok x \<Longrightarrow> wr x w = Inr w' \<Longrightarrow> reader_at r (put x @ rest) \<Longrightarrow> rd (kind x) r = (Inr x, advance r (length (put x)))"
begin

lemma write_all_put:
  "write_all wr xs w = Inr w' \<Longrightarrow> length (w_bytes w) \<le> MAX_CANONICAL_PAYLOAD_BYTES \<Longrightarrow>
    w_bytes w' = w_bytes w @ concat (map put xs) \<and> length (w_bytes w') \<le> MAX_CANONICAL_PAYLOAD_BYTES"
proof (induction xs arbitrary: w)
  case (Cons x xs)
  then obtain v where v: "wr x w = Inr v" "write_all wr xs v = Inr w'"
    by (auto simp: and_then_def split: sum.splits)
  from Cons.IH [OF v(2)] wr_put [OF v(1)] show ?case by auto
qed simp

lemma reader_at_advance: "reader_at r (put x @ rest) \<Longrightarrow> reader_at (advance r (length (put x))) rest"
proof -
  assume a: "reader_at r (put x @ rest)"
  then have "length (r_bytes r) - r_offset r = length (put x) + length rest"
    unfolding reader_at_def by (metis length_append length_drop)
  moreover have "drop (length (put x) + r_offset r) (r_bytes r) = rest"
    using a unfolding reader_at_def by (metis append_eq_conv_conj drop_drop)
  ultimately show ?thesis using a by (auto simp: reader_at_def advance_def add.commute)
qed

lemma read_all_put:
  "\<forall>x \<in> set xs. ok x \<Longrightarrow> write_all wr xs w = Inr w' \<Longrightarrow> reader_at r (concat (map put xs) @ rest) \<Longrightarrow>
    read_all rd (map kind xs) r = (Inr xs, advance r (length (concat (map put xs))))"
proof (induction xs arbitrary: w r)
  case Nil
  then show ?case by (simp add: advance_def)
next
  case (Cons x xs)
  then obtain v where v: "wr x w = Inr v" "write_all wr xs v = Inr w'"
    by (auto simp: and_then_def split: sum.splits)
  have at: "reader_at r (put x @ (concat (map put xs) @ rest))" using Cons.prems(3) by simp
  then have "rd (kind x) r = (Inr x, advance r (length (put x)))"
    using Cons.prems(1) v(1) by (intro rd_put) auto
  moreover have "read_all rd (map kind xs) (advance r (length (put x))) =
      (Inr xs, advance (advance r (length (put x))) (length (concat (map put xs))))"
    using Cons.prems(1) by (intro Cons.IH [OF _ v(2)] reader_at_advance at) simp
  ultimately show ?case by (simp add: advance_def add.assoc)
qed

lemma roundtrip:
  assumes "\<forall>x \<in> set xs. ok x" "write_all wr xs writer_new = Inr w"
  shows "\<exists>r r'. reader_new (writer_finish w) = Inr r \<and> read_all rd (map kind xs) r = (Inr xs, r') \<and> reader_finish r' = Inr ()"
proof -
  have w: "w_bytes w = concat (map put xs)" "length (w_bytes w) \<le> MAX_CANONICAL_PAYLOAD_BYTES"
    using write_all_put [OF assms(2)] by (auto simp: writer_new_def)
  let ?r = "\<lparr>r_bytes = w_bytes w, r_offset = 0\<rparr>"
  have "reader_at ?r (concat (map put xs) @ [])"
    using w by (simp add: reader_at_def usize_max_def MAX_CANONICAL_PAYLOAD_BYTES_def)
  from read_all_put [OF assms this] w show ?thesis
    by (auto simp: reader_new_def writer_finish_def reader_finish_def advance_def)
qed

end

section \<open>The items of the grammar\<close>

lemma writer_raw_put:
  "writer_raw bs w = Inr w' \<Longrightarrow> w_bytes w' = w_bytes w @ bs \<and> length (w_bytes w') \<le> MAX_CANONICAL_PAYLOAD_BYTES"
  by (auto simp: writer_raw_def Let_def split: if_splits)

lemma reader_raw_at:
  assumes "reader_at r (bs @ rest)"
  shows "reader_raw (length bs) r = (Inr bs, advance r (length bs))"
proof -
  have "length (r_bytes r) - r_offset r = length bs + length rest"
    using assms unfolding reader_at_def by (metis length_append length_drop)
  with assms show ?thesis by (auto simp: reader_raw_def reader_at_def advance_def Let_def)
qed

interpretation u8: canonical_item "\<lambda>v. [v]" writer_u8 "\<lambda>_. ()" "\<lambda>_. reader_u8" "\<lambda>_. True"
proof
  show "reader_u8 r = (Inr x, advance r (length [x]))" if "reader_at r ([x] @ rest)" for x r rest
    using reader_raw_at [OF that] by (simp add: reader_u8_def)
qed (auto simp: writer_u8_def dest: writer_raw_put)

interpretation u32: canonical_item "\<lambda>v. be_bytes 4 (unat v)" writer_u32 "\<lambda>_. ()" "\<lambda>_. reader_u32" "\<lambda>_. True"
proof
  show "reader_u32 r = (Inr x, advance r (length (be_bytes 4 (unat x))))"
    if "reader_at r (be_bytes 4 (unat x) @ rest)" for x r rest
    using reader_raw_at [OF that] by (simp add: reader_u32_def from_be_word)
qed (auto simp: writer_u32_def dest: writer_raw_put)

interpretation u64: canonical_item "\<lambda>v. be_bytes 8 (unat v)" writer_u64 "\<lambda>_. ()" "\<lambda>_. reader_u64" "\<lambda>_. True"
proof
  show "reader_u64 r = (Inr x, advance r (length (be_bytes 8 (unat x))))"
    if "reader_at r (be_bytes 8 (unat x) @ rest)" for x r rest
    using reader_raw_at [OF that] by (simp add: reader_u64_def from_be_word)
qed (auto simp: writer_u64_def dest: writer_raw_put)

definition put_text :: "byte list \<Rightarrow> byte list" where
  "put_text bs = be_bytes 8 (length bs) @ bs"

lemma text_len:
  assumes "writer_text x w = Inr w'"
  shows "length x \<le> MAX_CANONICAL_TEXT_BYTES" "unat (word_of_nat (length x) :: 64 word) = length x"
proof -
  show l: "length x \<le> MAX_CANONICAL_TEXT_BYTES" using assms by (auto simp: writer_text_def split: if_splits)
  then have "length x < 2 ^ 64" by (simp add: MAX_CANONICAL_TEXT_BYTES_def)
  then show "unat (word_of_nat (length x) :: 64 word) = length x" by (simp add: unat_of_nat)
qed

interpretation text_item: canonical_item put_text writer_text "\<lambda>_. ()" "\<lambda>_. reader_text" valid_utf8
proof
  fix x w w'
  assume a: "writer_text x w = Inr w'"
  then obtain v where v: "writer_u64 (word_of_nat (length x)) w = Inr v" "writer_raw x v = Inr w'"
    by (auto simp: writer_text_def and_then_def split: if_splits sum.splits)
  with u64.wr_put [OF v(1)] writer_raw_put [OF v(2)] text_len [OF a]
  show "w_bytes w' = w_bytes w @ put_text x \<and> length (w_bytes w') \<le> MAX_CANONICAL_PAYLOAD_BYTES"
    by (auto simp: put_text_def)
  fix r rest
  assume x: "valid_utf8 x" and r: "reader_at r (put_text x @ rest)"
  let ?n = "word_of_nat (length x) :: 64 word"
  have r': "reader_at r (be_bytes 8 (unat ?n) @ (x @ rest))" using r text_len [OF a] by (simp add: put_text_def)
  have "reader_u64 r = (Inr ?n, advance r 8)" using u64.rd_put [OF _ v(1) r'] by simp
  moreover have "reader_raw (length x) (advance r 8) = (Inr x, advance (advance r 8) (length x))"
    using u64.reader_at_advance [OF r'] by (intro reader_raw_at) simp
  ultimately show "reader_text r = (Inr x, advance r (length (put_text x)))"
    using x text_len [OF a] by (simp add: reader_text_def put_text_def advance_def add.assoc)
qed


text \<open>A record of the grammar: a sequence of mixed items, read back by their kinds.\<close>

datatype item = IU8 byte | IU32 "32 word" | IU64 "64 word" | IText "byte list"

datatype item_kind = KU8 | KU32 | KU64 | KText

fun kind_of :: "item \<Rightarrow> item_kind" where
  "kind_of (IU8 _) = KU8"
| "kind_of (IU32 _) = KU32"
| "kind_of (IU64 _) = KU64"
| "kind_of (IText _) = KText"

fun put_item :: "item \<Rightarrow> byte list" where
  "put_item (IU8 v) = [v]"
| "put_item (IU32 v) = be_bytes 4 (unat v)"
| "put_item (IU64 v) = be_bytes 8 (unat v)"
| "put_item (IText s) = put_text s"

fun write_item :: "item \<Rightarrow> canonical_writer \<Rightarrow> canonical_error + canonical_writer" where
  "write_item (IU8 v) = writer_u8 v"
| "write_item (IU32 v) = writer_u32 v"
| "write_item (IU64 v) = writer_u64 v"
| "write_item (IText s) = writer_text s"

definition map_parsed :: "('a \<Rightarrow> 'b) \<Rightarrow> 'a parsed \<Rightarrow> 'b parsed" where
  "map_parsed f p = (case p of (Inl e, r) \<Rightarrow> (Inl e, r) | (Inr x, r) \<Rightarrow> (Inr (f x), r))"

fun read_item :: "item_kind \<Rightarrow> canonical_reader \<Rightarrow> item parsed" where
  "read_item KU8 r = map_parsed IU8 (reader_u8 r)"
| "read_item KU32 r = map_parsed IU32 (reader_u32 r)"
| "read_item KU64 r = map_parsed IU64 (reader_u64 r)"
| "read_item KText r = map_parsed IText (reader_text r)"

fun item_ok :: "item \<Rightarrow> bool" where
  "item_ok (IText s) = valid_utf8 s"
| "item_ok _ = True"

interpretation mixed: canonical_item put_item write_item kind_of read_item item_ok
proof
  fix x w w'
  assume a: "write_item x w = Inr w'"
  then show "w_bytes w' = w_bytes w @ put_item x \<and> length (w_bytes w') \<le> MAX_CANONICAL_PAYLOAD_BYTES"
    by (cases x) (auto dest!: u8.wr_put u32.wr_put u64.wr_put text_item.wr_put)
  fix r rest
  assume "item_ok x" "reader_at r (put_item x @ rest)"
  with a show "read_item (kind_of x) r = (Inr x, advance r (length (put_item x)))"
    using u8.rd_put u32.rd_put u64.rd_put text_item.rd_put
    by (cases x) (fastforce simp: map_parsed_def)+
qed

section \<open>The envelope\<close>

definition preimage_bytes :: "canonical_domain \<Rightarrow> 32 word \<Rightarrow> byte list \<Rightarrow> byte list" where
  "preimage_bytes d v p =
     str_bytes ''GFFP'' @ [1] @ be_bytes 2 (length (as_str d)) @ str_bytes (as_str d) @ be_bytes 4 (unat v)
     @ be_bytes 8 (length p) @ p"

lemma length_str_bytes [simp]: "length (str_bytes s) = length s"
  by (simp add: str_bytes_def)

lemma as_str_length: "length (as_str d) \<le> 60"
  by (cases d) simp_all

lemma length_preimage: "length (preimage_bytes d v p) = 19 + length (as_str d) + length p"
  by (simp add: preimage_bytes_def)

lemma writer_raw_fits:
  "length (w_bytes w) + length bs \<le> MAX_CANONICAL_PAYLOAD_BYTES \<Longrightarrow> writer_raw bs w = Inr (w\<lparr>w_bytes := w_bytes w @ bs\<rparr>)"
  by (simp add: writer_raw_def usize_max_def MAX_CANONICAL_PAYLOAD_BYTES_def)

lemma writer_raw_too_long:
  "length (w_bytes w) + length bs > MAX_CANONICAL_PAYLOAD_BYTES \<Longrightarrow> length (w_bytes w) + length bs \<le> usize_max \<Longrightarrow>
    writer_raw bs w = Inl (Limit ''payload'' (length (w_bytes w) + length bs) MAX_CANONICAL_PAYLOAD_BYTES)"
  by (simp add: writer_raw_def)

lemma preimage_spec:
  "fingerprint_preimage d v p =
     (if v \<noteq> CANONICAL_CONTRACT_VERSION then Inl (UnsupportedVersion v)
      else if length p > usize_max then Inl (Limit ''payload'' usize_max MAX_CANONICAL_PAYLOAD_BYTES)
      else if length p > MAX_CANONICAL_PAYLOAD_BYTES then Inl (Limit ''payload'' (length p) MAX_CANONICAL_PAYLOAD_BYTES)
      else if length (preimage_bytes d v p) > MAX_CANONICAL_PAYLOAD_BYTES
      then Inl (Limit ''payload'' (length (preimage_bytes d v p)) MAX_CANONICAL_PAYLOAD_BYTES)
      else Inr (preimage_bytes d v p))"
proof (cases "v \<noteq> CANONICAL_CONTRACT_VERSION \<or> length p > MAX_CANONICAL_PAYLOAD_BYTES")
  case True
  then show ?thesis by (auto simp: fingerprint_preimage_def)
next
  case False
  have dl: "unat (word_of_nat (length (as_str d)) :: 16 word) = length (as_str d)"
    using as_str_length [of d] by (simp add: unat_of_nat)
  have "length p < 2 ^ 64" using False by (simp add: MAX_CANONICAL_PAYLOAD_BYTES_def)
  then have pl: "unat (word_of_nat (length p) :: 64 word) = length p" by (simp add: unat_of_nat)
  let ?h = "str_bytes ''GFFP'' @ [1] @ be_bytes 2 (length (as_str d)) @ str_bytes (as_str d) @ be_bytes 4 (unat v)
     @ be_bytes 8 (length p)"
  have h: "fingerprint_preimage d v p = and_then (writer_raw p \<lparr>w_bytes = ?h\<rparr>) (\<lambda>w. Inr (writer_finish w))"
    using False as_str_length [of d]
    by (simp add: fingerprint_preimage_def writer_new_def writer_u8_def writer_u16_def writer_u32_def writer_u64_def
        writer_raw_fits and_then_def dl pl usize_max_def MAX_CANONICAL_PAYLOAD_BYTES_def)
  have u: "length p \<le> usize_max" using False by (simp add: usize_max_def MAX_CANONICAL_PAYLOAD_BYTES_def)
  show ?thesis
  proof (cases "length (preimage_bytes d v p) > MAX_CANONICAL_PAYLOAD_BYTES")
    case True
    have "length (w_bytes \<lparr>w_bytes = ?h\<rparr>) + length p = length (preimage_bytes d v p)" by (simp add: preimage_bytes_def)
    moreover have "length (preimage_bytes d v p) \<le> usize_max"
      using False as_str_length [of d] by (simp add: length_preimage usize_max_def MAX_CANONICAL_PAYLOAD_BYTES_def)
    ultimately have "writer_raw p \<lparr>w_bytes = ?h\<rparr> =
        Inl (Limit ''payload'' (length (preimage_bytes d v p)) MAX_CANONICAL_PAYLOAD_BYTES)"
      using True writer_raw_too_long [of "\<lparr>w_bytes = ?h\<rparr>" p] by simp
    with True False u show ?thesis unfolding h by (simp add: and_then_def)
  next
    case fits: False
    then have "writer_raw p \<lparr>w_bytes = ?h\<rparr> = Inr \<lparr>w_bytes = preimage_bytes d v p\<rparr>"
      using writer_raw_fits [of "\<lparr>w_bytes = ?h\<rparr>" p] by (simp add: preimage_bytes_def)
    with fits False u show ?thesis unfolding h by (simp add: and_then_def writer_finish_def)
  qed
qed

lemma str_bytes_inj: "str_bytes s = str_bytes t \<longleftrightarrow> s = t"
proof -
  have "word_of_nat (of_char c) = (word_of_nat (of_char e) :: byte) \<longleftrightarrow> c = e" for c e :: char
  proof -
    have "unat (word_of_nat (of_char x) :: byte) = of_char x" for x :: char
      by (simp add: unat_of_nat)
    then show ?thesis by (metis of_char_eq_iff)
  qed
  then have "inj (\<lambda>c :: char. word_of_nat (of_char c) :: byte)" by (simp add: inj_def)
  then show ?thesis by (simp add: str_bytes_def inj_map_eq_map)
qed

lemma as_str_inj: "as_str d = as_str d' \<longleftrightarrow> d = d'"
  by (cases d; cases d'; simp)


lemma preimage_bytes_inj:
  assumes "preimage_bytes d v p = preimage_bytes d' v' p'"
  shows "d = d'" "p = p'"
proof -
  have lt: "length (as_str x) < 256 ^ 2" for x using as_str_length [of x] by simp
  have "be_bytes 2 (length (as_str d)) = be_bytes 2 (length (as_str d'))"
    using assms by (simp add: preimage_bytes_def)
  then have l: "length (as_str d) = length (as_str d')" using lt by (simp add: be_bytes_inj)
  with assms have "str_bytes (as_str d) = str_bytes (as_str d')" by (simp add: preimage_bytes_def)
  then show "d = d'" by (simp add: str_bytes_inj as_str_inj)
  show "p = p'" using assms l by (simp add: preimage_bytes_def)
qed

lemma uuid_bits:
  fixes b :: byte
  shows "((b AND 0x0f) OR 0x80) AND 0xf0 = 0x80" "((b AND 0x0f) OR 0x80) AND 0x0f = b AND 0x0f"
    "((b AND 0x3f) OR 0x80) AND 0xc0 = 0x80" "((b AND 0x3f) OR 0x80) AND 0x3f = b AND 0x3f"
  by (simp_all add: bit.conj_disj_distrib2 and.assoc)

section \<open>Properties\<close>

text \<open>C17. The canonical grammar is a self-delimiting code: whatever sequence of items (bytes, 32 and 64 bit numbers,
  texts) the writer accepts, the reader accepts the bytes, reads back the same items by their kinds and stops
  at the end of the payload with nothing left over.\<close>

theorem canonical_roundtrip:
  assumes "\<forall>x \<in> set xs. item_ok x" "write_all write_item xs writer_new = Inr w"
  shows "\<exists>r r'. reader_new (writer_finish w) = Inr r \<and> read_all read_item (map kind_of xs) r = (Inr xs, r')
    \<and> reader_finish r' = Inr ()"
  using assms by (rule mixed.roundtrip)

theorem canonical_roundtrip_witness:
  "\<exists>w r r'. write_all write_item [IU32 7, IText [103, 102]] writer_new = Inr w
    \<and> reader_new (writer_finish w) = Inr r \<and> read_all read_item [KU32, KText] r = (Inr [IU32 7, IText [103, 102]], r')
    \<and> reader_finish r' = Inr ()"
proof -
  have "\<exists>w. write_all write_item [IU32 7, IText [103, 102]] writer_new = Inr w"
    by (simp add: and_then_def writer_text_def writer_u32_def writer_u64_def writer_raw_def writer_new_def Let_def
        usize_max_def MAX_CANONICAL_PAYLOAD_BYTES_def MAX_CANONICAL_TEXT_BYTES_def)
  then obtain w where w: "write_all write_item [IU32 7, IText [103, 102]] writer_new = Inr w" ..
  have "\<forall>x \<in> set [IU32 7, IText [103, 102]]. item_ok x" by simp
  from canonical_roundtrip [OF this w] w show ?thesis by auto
qed

text \<open>C18. The fingerprint preimage separates domains: it is accepted only for the frozen contract version, and equal
  preimages come from the same domain and the same payload, so that distinct records are hashed apart.\<close>

theorem preimage_injective:
  assumes "fingerprint_preimage d v p = Inr b" "fingerprint_preimage d' v' p' = Inr b"
  shows "d = d' \<and> v = v' \<and> p = p' \<and> v = CANONICAL_CONTRACT_VERSION"
  using assms preimage_bytes_inj [of d v p d' v' p'] by (auto simp: preimage_spec split: if_splits)

theorem preimage_injective_witness:
  "\<exists>b. fingerprint_preimage Lineage 1 [1, 2] = Inr b \<and> fingerprint_preimage Schema 1 [1, 2] \<noteq> Inr b"
proof -
  have f: "\<exists>b. fingerprint_preimage x 1 [1, 2] = Inr b" if "length (as_str x) \<le> 60" for x
    using that by (simp add: preimage_spec length_preimage CANONICAL_CONTRACT_VERSION_def usize_max_def
        MAX_CANONICAL_PAYLOAD_BYTES_def)
  obtain b where b: "fingerprint_preimage Lineage 1 [1, 2] = Inr b" using f [of Lineage] by auto
  moreover have "fingerprint_preimage Schema 1 [1, 2] \<noteq> Inr b"
    using preimage_injective [OF b, of Schema 1 "[1, 2]"] by auto
  ultimately show ?thesis by blast
qed

text \<open>The inputs \<open>fingerprint_preimage\<close> accepts: a supported version, and a payload that fits into
  \<open>MAX_CANONICAL_PAYLOAD_BYTES\<close> together with the envelope, since the writer is bounded by the constant that bounds
  the payload.\<close>

lemma preimage_accepts:
  "(\<exists>b. fingerprint_preimage d v p = Inr b) \<longleftrightarrow>
     v = CANONICAL_CONTRACT_VERSION \<and> 19 + length (as_str d) + length p \<le> MAX_CANONICAL_PAYLOAD_BYTES"
  by (auto simp: preimage_spec length_preimage usize_max_def MAX_CANONICAL_PAYLOAD_BYTES_def)

text \<open>\<open>uuid_v8\<close> yields 16 bytes with the version nibble 8 and the variant bits 10 of RFC 9562, and keeps every other
  bit of the first 16 bytes of the fingerprint.\<close>

lemma uuid_v8_layout:
  assumes "length fp = 32"
  shows "length (uuid_v8 fp) = 16
    \<and> uuid_v8 fp ! 6 AND 0xf0 = 0x80 \<and> uuid_v8 fp ! 6 AND 0x0f = fp ! 6 AND 0x0f
    \<and> uuid_v8 fp ! 8 AND 0xc0 = 0x80 \<and> uuid_v8 fp ! 8 AND 0x3f = fp ! 8 AND 0x3f
    \<and> (\<forall>i < 16. i \<noteq> 6 \<and> i \<noteq> 8 \<longrightarrow> uuid_v8 fp ! i = fp ! i)"
  using assms by (simp add: uuid_v8_def uuid_bits)

end
