(* ===== verification/Ledger.thy ===== *)
theory Ledger
  imports Canonical "HOL-Library.Product_Lexorder"
begin

text \<open>
  What the append-only ledgers of \<open>crates/graphforge-knowledge/src\<close> share: \<open>KnowledgeError\<close>, the UUID checks and
  \<open>check_limit\<close> of \<open>lib.rs\<close>, the loop that rejects duplicate identities, the two forms of the merge loop (a hash map
  of the rows by identity, and a linear search), and the contract \<open>append_ledger\<close> of a ledger. A UUID is a 128-bit
  word, ordered like its bytes; whether it is a version 7 UUID is asked of the UUID library, a parameter \<open>is_v7\<close>. A
  transaction time is a 64-bit word read as signed.
\<close>

section \<open>Errors and identifiers\<close>

type_synonym uuid = "128 word"

definition uuid_bytes :: "uuid \<Rightarrow> byte list" where
  "uuid_bytes u = be_bytes 16 (unat u)"

definition uuid_from_bytes :: "byte list \<Rightarrow> uuid" where
  "uuid_from_bytes bs = word_of_nat (from_be bs)"

datatype knowledge_error =
  Invalid string string
| RowLimit string nat nat
| Duplicate string
| Dangling string
| Conflict string
| TransactionConflict string
| CanonicalFailure canonical_error
| ArrowFailure

fun knowledge_code :: "knowledge_error \<Rightarrow> string" where
  "knowledge_code (Invalid _ _) = ''GF_KNOWLEDGE_INVALID''"
| "knowledge_code (RowLimit _ _ _) = ''GF_RESOURCE_LIMIT''"
| "knowledge_code (Duplicate _) = ''GF_KNOWLEDGE_DUPLICATE''"
| "knowledge_code (Dangling _) = ''GF_KNOWLEDGE_DANGLING''"
| "knowledge_code (Conflict _) = ''GF_IDEMPOTENCY_CONFLICT''"
| "knowledge_code (TransactionConflict _) = ''GF_TRANSACTION_CONFLICT''"
| "knowledge_code (CanonicalFailure e) = error_code e"
| "knowledge_code ArrowFailure = ''GF_SCHEMA_MISMATCH''"

definition MAX_KNOWLEDGE_ROWS :: nat where
  "MAX_KNOWLEDGE_ROWS = 1000000"

text \<open>The conversion \<open>?\<close> applies to an error of the canonical writer.\<close>

definition from_canonical :: "canonical_error + 'a \<Rightarrow> knowledge_error + 'a" where
  "from_canonical x = (case x of Inl e \<Rightarrow> Inl (CanonicalFailure e) | Inr y \<Rightarrow> Inr y)"

definition require_uuid :: "uuid \<Rightarrow> string \<Rightarrow> knowledge_error + unit" where
  "require_uuid value field = (if value = 0 then Inl (Invalid field ''must not be nil'') else Inr ())"

definition require_v7 :: "(uuid \<Rightarrow> bool) \<Rightarrow> uuid \<Rightarrow> string \<Rightarrow> knowledge_error + unit" where
  "require_v7 is_v7 value field =
     and_then (require_uuid value field) (\<lambda>_.
     if \<not> is_v7 value then Inl (Invalid field ''must be UUIDv7'') else Inr ())"

definition check_limit :: "string \<Rightarrow> nat \<Rightarrow> knowledge_error + unit" where
  "check_limit participant observed =
     (if observed > MAX_KNOWLEDGE_ROWS then Inl (RowLimit participant observed MAX_KNOWLEDGE_ROWS) else Inr ())"

section \<open>Loops\<close>

text \<open>Validate each row in turn and reject an identity that has been seen.\<close>

fun scan_unique :: "('r \<Rightarrow> knowledge_error + unit) \<Rightarrow> ('r \<Rightarrow> uuid) \<Rightarrow> string \<Rightarrow> 'r list \<Rightarrow> uuid set \<Rightarrow> knowledge_error + unit" where
  "scan_unique validate ident name [] ids = Inr ()"
| "scan_unique validate ident name (row # rows) ids =
     and_then (validate row) (\<lambda>_.
     if ident row \<in> ids then Inl (Duplicate name)
     else scan_unique validate ident name rows (insert (ident row) ids))"

text \<open>The merge loop over a hash map of the rows by identity, and the one that searches the merged rows.\<close>

definition index_by :: "('r \<Rightarrow> uuid) \<Rightarrow> 'r list \<Rightarrow> uuid \<rightharpoonup> 'r" where
  "index_by ident rows = foldl (\<lambda>m row. m(ident row \<mapsto> row)) Map.empty rows"

fun stage_by_id :: "('r \<Rightarrow> uuid) \<Rightarrow> string \<Rightarrow> ('r \<Rightarrow> knowledge_error + unit) \<Rightarrow> 'r list \<Rightarrow> (uuid \<rightharpoonup> 'r) \<Rightarrow> 'r list \<Rightarrow> knowledge_error + 'r list" where
  "stage_by_id ident name check rows by_id [] = Inr rows"
| "stage_by_id ident name check rows by_id (row # staged) =
     (case by_id (ident row) of
        Some existing \<Rightarrow>
          if existing \<noteq> row then Inl (Conflict name) else stage_by_id ident name check rows by_id staged
      | None \<Rightarrow>
          and_then (check row) (\<lambda>_.
          stage_by_id ident name check (rows @ [row]) (by_id(ident row \<mapsto> row)) staged))"

fun stage_by_find :: "('r \<Rightarrow> uuid) \<Rightarrow> string \<Rightarrow> 'r list \<Rightarrow> 'r list \<Rightarrow> knowledge_error + 'r list" where
  "stage_by_find ident name merged [] = Inr merged"
| "stage_by_find ident name merged (row # staged) =
     (case List.find (\<lambda>candidate. ident candidate = ident row) merged of
        Some existing \<Rightarrow>
          if existing \<noteq> row then Inl (Conflict name) else stage_by_find ident name merged staged
      | None \<Rightarrow> stage_by_find ident name (merged @ [row]) staged)"

text \<open>The order of a ledger, and \<open>Iterator::max_by_key\<close>, which returns the last of the greatest elements.\<close>

definition ledger_key :: "('r \<Rightarrow> 64 word) \<Rightarrow> ('r \<Rightarrow> uuid) \<Rightarrow> 'r \<Rightarrow> int \<times> uuid" where
  "ledger_key time ident row = (sint (time row), ident row)"

fun max_by_key :: "('r \<Rightarrow> 'k :: linorder) \<Rightarrow> 'r list \<Rightarrow> 'r option" where
  "max_by_key key [] = None"
| "max_by_key key (x # xs) = Some (foldl (\<lambda>y x. if key y \<le> key x then x else y) x xs)"

text \<open>\<open>collect\<close> into a \<open>Result\<close> stops at the first error.\<close>

fun collect_results :: "('a \<Rightarrow> 'e + 'b) \<Rightarrow> 'a list \<Rightarrow> 'e + 'b list" where
  "collect_results f [] = Inr []"
| "collect_results f (x # xs) = and_then (f x) (\<lambda>y. and_then (collect_results f xs) (\<lambda>ys. Inr (y # ys)))"

section \<open>Lemmas on the loops\<close>

declare and_then_Inr [simp]

lemma and_then_Inr_unit: "and_then x f = Inr y \<longleftrightarrow> x = Inr () \<and> f () = Inr y"
  by simp

lemma and_then_simps [simp]: "and_then (Inr z) f = f z" "and_then (Inl e) f = Inl e"
  by (simp_all add: and_then_def)

lemma from_canonical_Inr [simp]: "from_canonical x = Inr y \<longleftrightarrow> x = Inr y"
  by (auto simp: from_canonical_def split: sum.splits)

lemma require_uuid_Inr [simp]: "require_uuid u f = Inr y \<longleftrightarrow> u \<noteq> 0"
  by (simp add: require_uuid_def)

lemma require_v7_Inr [simp]: "require_v7 is_v7 u f = Inr y \<longleftrightarrow> u \<noteq> 0 \<and> is_v7 u"
  by (simp add: require_v7_def)

lemma check_limit_Inr [simp]: "check_limit p n = Inr y \<longleftrightarrow> n \<le> MAX_KNOWLEDGE_ROWS"
  by (simp add: check_limit_def)

lemma scan_unique_Inr:
  "scan_unique validate ident name rows ids = Inr y \<longleftrightarrow>
     (\<forall>r\<in>set rows. validate r = Inr ()) \<and> distinct (map ident rows) \<and> ident ` set rows \<inter> ids = {}"
  by (induction rows arbitrary: ids) auto

definition indexes :: "('r \<Rightarrow> uuid) \<Rightarrow> (uuid \<rightharpoonup> 'r) \<Rightarrow> 'r list \<Rightarrow> bool" where
  "indexes ident by_id rows \<longleftrightarrow> distinct (map ident rows) \<and> (\<forall>k r. by_id k = Some r \<longleftrightarrow> r \<in> set rows \<and> ident r = k)"

lemma indexes_snoc:
  "indexes ident by_id rows \<Longrightarrow> by_id (ident r) = None \<Longrightarrow> indexes ident (by_id(ident r \<mapsto> r)) (rows @ [r])"
  unfolding indexes_def by auto (metis option.distinct(1))+

lemma indexes_index_by: "distinct (map ident rows) \<Longrightarrow> indexes ident (index_by ident rows) rows"
proof (induction rows rule: rev_induct)
  case Nil
  show ?case by (simp add: indexes_def index_by_def)
next
  case (snoc r rows)
  then have i: "indexes ident (index_by ident rows) rows" and n: "ident r \<notin> ident ` set rows" by auto
  then have "index_by ident rows (ident r) = None"
    unfolding indexes_def by (metis image_iff not_None_eq)
  from indexes_snoc [OF i this] show ?case by (simp add: index_by_def del: fun_upd_apply)
qed

lemma indexes_lookup:
  assumes "indexes ident by_id rows"
  shows "by_id (ident r) = None \<longleftrightarrow> ident r \<notin> ident ` set rows"
    and "by_id (ident r) = Some s \<Longrightarrow> s \<in> set rows \<and> ident s = ident r"
  using assms unfolding indexes_def by (metis image_iff not_None_eq)+

lemma indexes_inj: "indexes ident by_id rows \<Longrightarrow> inj_on ident (set rows)"
  by (simp add: indexes_def distinct_map)

lemma stage_by_id_Inr:
  "indexes ident by_id rows \<Longrightarrow>
   stage_by_id ident name check rows by_id staged = Inr l \<Longrightarrow>
     distinct (map ident l) \<and> set l = set rows \<union> set staged \<and>
     (\<forall>r\<in>set staged - set rows. check r = Inr ()) \<and> (\<exists>added. l = rows @ added)"
proof (induction staged arbitrary: rows by_id)
  case Nil
  then show ?case by (simp add: indexes_def)
next
  case (Cons r staged)
  show ?case
  proof (cases "by_id (ident r)")
    case None
    with Cons.prems have c: "check r = Inr ()"
      and s: "stage_by_id ident name check (rows @ [r]) (by_id(ident r \<mapsto> r)) staged = Inr l" by auto
    from Cons.IH [OF indexes_snoc [OF Cons.prems(1) None] s] c show ?thesis by auto
  next
    case (Some e)
    with Cons.prems have e: "e = r" "r \<in> set rows"
      and s: "stage_by_id ident name check rows by_id staged = Inr l"
      using indexes_lookup(2) [OF Cons.prems(1) Some] by (auto split: if_splits)
    from Cons.IH [OF Cons.prems(1) s] e show ?thesis by auto
  qed
qed

lemma stage_by_id_complete:
  "indexes ident by_id rows \<Longrightarrow> inj_on ident (set rows \<union> set staged) \<Longrightarrow>
   \<forall>r\<in>set staged - set rows. check r = Inr () \<Longrightarrow>
   \<exists>l. stage_by_id ident name check rows by_id staged = Inr l"
proof (induction staged arbitrary: rows by_id)
  case (Cons r staged)
  show ?case
  proof (cases "by_id (ident r)")
    case None
    then have "r \<notin> set rows" using indexes_lookup(1) [OF Cons.prems(1)] by blast
    then have c: "check r = Inr ()" using Cons.prems(3) by simp
    have "\<exists>l. stage_by_id ident name check (rows @ [r]) (by_id(ident r \<mapsto> r)) staged = Inr l"
      by (rule Cons.IH [OF indexes_snoc [OF Cons.prems(1) None]])
        (use Cons.prems(2,3) in \<open>auto simp: insert_absorb2 insert_commute\<close>)
    with None c show ?thesis by simp
  next
    case (Some e)
    then have e: "e = r"
      using indexes_lookup(2) [OF Cons.prems(1) Some] Cons.prems(2) by (metis UnCI inj_onD list.set_intros(1))
    have "\<exists>l. stage_by_id ident name check rows by_id staged = Inr l"
      by (rule Cons.IH [OF Cons.prems(1)]) (use Cons.prems(2,3) in \<open>auto intro: inj_on_subset\<close>)
    with Some e show ?thesis by simp
  qed
qed simp

lemma find_indexes:
  "indexes ident by_id rows \<Longrightarrow> List.find (\<lambda>c. ident c = ident r) rows = by_id (ident r)"
proof (cases "by_id (ident r)")
  case None
  assume "indexes ident by_id rows"
  with None show ?thesis using indexes_lookup(1) [of ident by_id rows r] by (simp add: find_None_iff) (metis imageI)
next
  case (Some e)
  assume i: "indexes ident by_id rows"
  from indexes_lookup(2) [OF i Some] have e: "e \<in> set rows" "ident e = ident r" by auto
  then obtain f where f: "List.find (\<lambda>c. ident c = ident r) rows = Some f"
    by (cases "List.find (\<lambda>c. ident c = ident r) rows") (auto simp: find_None_iff)
  then have "f \<in> set rows" "ident f = ident r" by (auto simp: find_Some_iff)
  with e indexes_inj [OF i] have "f = e" by (metis inj_onD)
  with f Some show ?thesis by simp
qed

text \<open>The linear search stages the same rows as the hash map.\<close>

lemma stage_by_find_eq:
  "indexes ident by_id rows \<Longrightarrow>
   stage_by_find ident name rows staged = stage_by_id ident name (\<lambda>_. Inr ()) rows by_id staged"
proof (induction staged arbitrary: rows by_id)
  case (Cons r staged)
  then show ?case
    using indexes_snoc [OF Cons.prems, of r]
    by (cases "by_id (ident r)") (simp_all add: find_indexes del: fun_upd_apply)
qed simp

lemma stage_by_find_index:
  "distinct (map ident base) \<Longrightarrow>
    stage_by_find ident name base staged = stage_by_id ident name (\<lambda>_. Inr ()) base (index_by ident base) staged"
  by (rule stage_by_find_eq [OF indexes_index_by])

section \<open>The order of a ledger\<close>

definition ordered :: "('r \<Rightarrow> 64 word) \<Rightarrow> ('r \<Rightarrow> uuid) \<Rightarrow> 'r list \<Rightarrow> bool" where
  "ordered time ident l \<longleftrightarrow> distinct (map ident l) \<and> sorted (map (ledger_key time ident) l)"

lemma inj_on_ledger_key: "inj_on ident A \<Longrightarrow> inj_on (ledger_key time ident) A"
  by (auto simp: inj_on_def ledger_key_def)

lemma ordered_unique:
  assumes "ordered time ident a" and "ordered time ident b" and "set a = set b"
  shows "a = b"
proof (rule map_sorted_distinct_set_unique [of "ledger_key time ident"])
  have i: "inj_on ident (set a)" using assms(1) by (simp add: ordered_def distinct_map)
  then have k: "inj_on (ledger_key time ident) (set a)" by (rule inj_on_ledger_key)
  with assms(3) show "inj_on (ledger_key time ident) (set a \<union> set b)" by simp
  show "distinct (map (ledger_key time ident) a)" "distinct (map (ledger_key time ident) b)"
    using k assms by (auto simp: ordered_def distinct_map)
qed (use assms in \<open>auto simp: ordered_def\<close>)

lemma ordered_sort_key:
  "distinct (map ident rows) \<Longrightarrow> ordered time ident (sort_key (ledger_key time ident) rows)"
  by (simp add: ordered_def distinct_map)

lemma sort_key_ordered: "ordered time ident l \<Longrightarrow> sort_key (ledger_key time ident) l = l"
  by (rule ordered_unique [of time ident]) (auto simp: ordered_def distinct_map)

lemma distinct_map_length:
  "distinct (map f rows) \<Longrightarrow> distinct rows' \<Longrightarrow> set rows' = set rows \<Longrightarrow> length rows' = length rows"
  by (metis distinct_card distinct_map)

lemma ordered_filter: "ordered time ident l \<Longrightarrow> ordered time ident (filter P l)"
  by (auto simp: ordered_def distinct_map_filter intro: sorted_filter)

lemma foldl_max_key:
  fixes key :: "'r \<Rightarrow> 'k :: linorder"
  defines "pick \<equiv> \<lambda>y x. if key y \<le> key x then x else y"
  shows "foldl pick x xs \<in> insert x (set xs) \<and> key x \<le> key (foldl pick x xs) \<and>
    (\<forall>y\<in>set xs. key y \<le> key (foldl pick x xs))"
proof (induction xs arbitrary: x)
  case (Cons y xs)
  have "key x \<le> key (pick x y)" "key y \<le> key (pick x y)" "pick x y \<in> {x, y}" by (auto simp: pick_def)
  with Cons [of "pick x y"] show ?case by (auto intro: order_trans)
qed simp

lemma max_by_key_Some:
  "max_by_key key xs = Some y \<Longrightarrow> y \<in> set xs \<and> (\<forall>x\<in>set xs. key x \<le> key y)"
  using foldl_max_key [of key] by (cases xs) auto

lemma max_by_key_None [simp]: "max_by_key key xs = None \<longleftrightarrow> xs = []"
  by (cases xs) auto

lemma max_by_key_eq:
  assumes "inj_on key (set xs)" and "y \<in> set xs" and "\<forall>x\<in>set xs. key x \<le> key y"
  shows "max_by_key key xs = Some y"
proof -
  obtain z where z: "max_by_key key xs = Some z" using assms(2) by (cases "max_by_key key xs") auto
  from max_by_key_Some [OF z] assms have "key z = key y" by (auto intro: antisym)
  with max_by_key_Some [OF z] assms z show ?thesis by (metis inj_onD)
qed

lemma sorted_wrt_ordered:
  assumes "ordered time ident l"
  shows "sorted_wrt P l \<longleftrightarrow> (\<forall>e\<in>set l. \<forall>f\<in>set l. ledger_key time ident e < ledger_key time ident f \<longrightarrow> P e f)"
proof -
  let ?k = "ledger_key time ident"
  have "distinct (map ?k l)"
    using assms inj_on_ledger_key [of ident "set l" time] by (auto simp: ordered_def distinct_map)
  then have "sorted_wrt (<) (map ?k l)" using assms by (simp add: ordered_def strict_sorted_iff)
  then have s: "?k (l ! i) < ?k (l ! j)" if "i < j" "j < length l" for i j
    using that by (simp add: sorted_wrt_iff_nth_less)
  have lt: "i < j" if "?k (l ! i) < ?k (l ! j)" "i < length l" "j < length l" for i j
    using that s [of j i] by (cases i j rule: linorder_cases) auto
  show ?thesis
  proof
    assume "sorted_wrt P l"
    then show "\<forall>e\<in>set l. \<forall>f\<in>set l. ?k e < ?k f \<longrightarrow> P e f"
      using lt by (auto simp: sorted_wrt_iff_nth_less in_set_conv_nth)
  next
    assume "\<forall>e\<in>set l. \<forall>f\<in>set l. ?k e < ?k f \<longrightarrow> P e f"
    then show "sorted_wrt P l" using s by (simp add: sorted_wrt_iff_nth_less)
  qed
qed

lemma stage_by_id_replay:
  "indexes ident by_id rows \<Longrightarrow> set staged \<subseteq> set rows \<Longrightarrow> stage_by_id ident name check rows by_id staged = Inr rows"
proof (induction staged)
  case (Cons r staged)
  then have "by_id (ident r) = Some r" by (auto simp: indexes_def)
  with Cons show ?case by simp
qed simp

lemma stage_by_id_check_irrelevant:
  "stage_by_id ident name check rows by_id staged = Inr l \<Longrightarrow> stage_by_id ident name (\<lambda>_. Inr ()) rows by_id staged = Inr l"
  by (induction staged arbitrary: rows by_id) (auto split: option.splits if_splits)

section \<open>The contract of a ledger\<close>

text \<open>Merging a sequence of staged ledgers, one after the other.\<close>

fun merge_all :: "('l \<Rightarrow> 'l \<Rightarrow> 'e + 'l) \<Rightarrow> 'l \<Rightarrow> 'l list \<Rightarrow> 'e + 'l" where
  "merge_all merge base [] = Inr base"
| "merge_all merge base (staged # rest) = and_then (merge base staged) (\<lambda>base. merge_all merge base rest)"

lemma merge_all_append:
  "merge_all merge base (xs @ ys) = and_then (merge_all merge base xs) (\<lambda>b. merge_all merge b ys)"
  by (induction xs arbitrary: base) (auto simp: and_then_def split: sum.splits)

text \<open>
  What a ledger promises to its users, as a log of rows that only grows: merging adds the staged rows to those that are
  there and keeps the order and the identities; the rows that are there can be merged again to no effect; and the
  ledger reached depends on the rows that were merged, not on the order or the grouping of the merges.
\<close>

definition append_only_log :: "('r \<Rightarrow> uuid) \<Rightarrow> ('r \<Rightarrow> 64 word) \<Rightarrow> ('r list \<Rightarrow> knowledge_error + 'r list) \<Rightarrow> ('r list \<Rightarrow> 'r list \<Rightarrow> knowledge_error + 'r list) \<Rightarrow> bool" where
  "append_only_log ident time new merge \<longleftrightarrow>
     (\<forall>rows base stages l. new rows = Inr base \<and> merge_all merge base stages = Inr l \<longrightarrow>
        set l = set rows \<union> (\<Union>s\<in>set stages. set s) \<and> sorted (map (ledger_key time ident) l) \<and> distinct (map ident l) \<and>
        (\<forall>staged. set staged \<subseteq> set l \<longrightarrow> merge l staged = Inr l)) \<and>
     (\<forall>rows base stages stages' l l'. new rows = Inr base \<and> merge_all merge base stages = Inr l \<and>
        merge_all merge base stages' = Inr l' \<and> (\<Union>s\<in>set stages. set s) = (\<Union>s\<in>set stages'. set s) \<longrightarrow> l = l')"

text \<open>
  A ledger is made by \<open>new\<close>, which sorts rows of distinct identities, whatever their order, and grows by \<open>merge\<close>,
  which stages the rows of another ledger. Rows that are already there change nothing.
\<close>

locale append_ledger =
  fixes ident :: "'r \<Rightarrow> uuid" and time :: "'r \<Rightarrow> 64 word" and name :: string
    and check :: "'r list \<Rightarrow> 'r \<Rightarrow> knowledge_error + unit"
    and new :: "'r list \<Rightarrow> knowledge_error + 'r list"
    and merge :: "'r list \<Rightarrow> 'r list \<Rightarrow> knowledge_error + 'r list"
  assumes new_sorts: "new rows = Inr l \<Longrightarrow> distinct (map ident rows) \<and> l = sort_key (ledger_key time ident) rows"
    and new_any_order: "new rows = Inr l \<Longrightarrow> distinct rows' \<Longrightarrow> set rows' = set rows \<Longrightarrow> \<exists>l'. new rows' = Inr l'"
    and merge_stages: "ordered time ident base \<Longrightarrow> merge base staged = Inr l \<Longrightarrow>
      \<exists>rows. stage_by_id ident name (check base) base (index_by ident base) staged = Inr rows \<and>
        l = sort_key (ledger_key time ident) rows"
    and merge_replay: "new rows = Inr base \<or> ordered time ident b \<and> merge b s = Inr base \<Longrightarrow>
      set staged \<subseteq> set base \<Longrightarrow> merge base staged = Inr base"
begin

lemma new_ordered: "new rows = Inr l \<Longrightarrow> ordered time ident l \<and> set l = set rows"
  using new_sorts ordered_sort_key by (metis set_sort)

lemma new_order_irrelevant:
  assumes "new rows = Inr l" and "distinct rows'" and "set rows' = set rows"
  shows "new rows' = Inr l"
proof -
  from new_any_order [OF assms] obtain l' where l': "new rows' = Inr l'" by blast
  from new_ordered [OF l'] new_ordered [OF assms(1)] assms(3) have "l' = l"
    by (intro ordered_unique [of time ident]) auto
  with l' show ?thesis by simp
qed

lemma new_again: "new rows = Inr l \<Longrightarrow> new l = Inr l"
  using new_order_irrelevant [of rows l l] new_ordered [of rows l]
  by (auto simp: ordered_def distinct_map)

lemma merge_union:
  assumes "ordered time ident base" and "merge base staged = Inr l"
  shows "ordered time ident l \<and> set l = set base \<union> set staged"
proof -
  from merge_stages [OF assms] obtain rows where r:
    "stage_by_id ident name (check base) base (index_by ident base) staged = Inr rows"
    "l = sort_key (ledger_key time ident) rows" by blast
  from assms(1) have "indexes ident (index_by ident base) base" by (simp add: indexes_index_by ordered_def)
  from stage_by_id_Inr [OF this r(1)] r(2) show ?thesis by (simp add: ordered_sort_key)
qed

lemma merge_keeps_rows:
  assumes "ordered time ident base" and "merge base staged = Inr l" and "r \<in> set base \<union> set staged"
  shows "List.find (\<lambda>c. ident c = ident r) l = Some r"
proof -
  from merge_union [OF assms(1,2)] assms(3) have l: "ordered time ident l" "r \<in> set l" by auto
  then have i: "indexes ident (index_by ident l) l" by (simp add: indexes_index_by ordered_def)
  with l show ?thesis using find_indexes [OF i, of r] by (auto simp: indexes_def)
qed

lemma merge_all_union:
  "ordered time ident base \<Longrightarrow> merge_all merge base stages = Inr l \<Longrightarrow>
    ordered time ident l \<and> set l = set base \<union> (\<Union>s\<in>set stages. set s)"
proof (induction stages arbitrary: base)
  case (Cons s stages)
  then obtain b where b: "merge base s = Inr b" "merge_all merge b stages = Inr l" by auto
  from merge_union [OF Cons.prems(1) b(1)] have "ordered time ident b" "set b = set base \<union> set s" by auto
  with Cons.IH [OF _ b(2)] show ?case by auto
qed simp

lemma merge_all_replay:
  assumes "new rows = Inr base" and "merge_all merge base stages = Inr l" and "set staged \<subseteq> set l"
  shows "merge l staged = Inr l"
proof (cases stages rule: rev_cases)
  case Nil
  with assms(2) have "l = base" by simp
  with assms(1,3) show ?thesis using merge_replay by blast
next
  case (snoc before s)
  with assms(2) obtain b where b: "merge_all merge base before = Inr b" "merge b s = Inr l"
    by (auto simp: merge_all_append)
  from merge_all_union [OF _ b(1)] new_ordered [OF assms(1)] have "ordered time ident b" by auto
  with b(2) assms(3) show ?thesis using merge_replay by blast
qed

lemma merges_converge:
  assumes "new rows = Inr base" and "merge_all merge base stages = Inr l" and "merge_all merge base stages' = Inr l'"
    and "(\<Union>s\<in>set stages. set s) = (\<Union>s\<in>set stages'. set s)"
  shows "l = l'"
  using merge_all_union [of base stages l] merge_all_union [of base stages' l'] new_ordered [OF assms(1)] assms
  by (intro ordered_unique [of time ident]) auto

lemma append_only: "append_only_log ident time new merge"
  unfolding append_only_log_def
proof (intro conjI allI impI; elim conjE)
  fix rows base stages l
  assume n: "new rows = Inr base" and m: "merge_all merge base stages = Inr l"
  have o: "ordered time ident base" "set base = set rows" using new_ordered [OF n] by auto
  from merge_all_union [OF o(1) m] o(2)
  show "set l = set rows \<union> (\<Union>s\<in>set stages. set s)" "sorted (map (ledger_key time ident) l)" "distinct (map ident l)"
    by (auto simp: ordered_def)
  show "merge l staged = Inr l" if "set staged \<subseteq> set l" for staged
    using merge_all_replay [OF n m that] .
next
  fix rows base stages stages' l l'
  assume "new rows = Inr base" "merge_all merge base stages = Inr l" "merge_all merge base stages' = Inr l'"
    "(\<Union>s\<in>set stages. set s) = (\<Union>s\<in>set stages'. set s)"
  then show "l = l'" by (rule merges_converge)
qed

end

text \<open>A ledger whose merge hands the staged rows to its constructor. Every merged ledger is then one the constructor
  accepts.\<close>

locale staged_ledger =
  fixes ident :: "'r \<Rightarrow> uuid" and time :: "'r \<Rightarrow> 64 word" and name :: string
    and new :: "'r list \<Rightarrow> knowledge_error + 'r list"
    and merge :: "'r list \<Rightarrow> 'r list \<Rightarrow> knowledge_error + 'r list"
  assumes sorts: "new rows = Inr l \<Longrightarrow> distinct (map ident rows) \<and> l = sort_key (ledger_key time ident) rows"
    and any_order: "new rows = Inr l \<Longrightarrow> distinct rows' \<Longrightarrow> set rows' = set rows \<Longrightarrow> \<exists>l'. new rows' = Inr l'"
    and merge_new: "distinct (map ident base) \<Longrightarrow>
      merge base staged = and_then (stage_by_id ident name (\<lambda>_. Inr ()) base (index_by ident base) staged) new"

sublocale staged_ledger \<subseteq> append_ledger ident time name "\<lambda>_ _. Inr ()" new merge
proof
  show "distinct (map ident rows) \<and> l = sort_key (ledger_key time ident) rows" if "new rows = Inr l" for rows l
    using sorts [OF that] .
  show "\<exists>l'. new rows' = Inr l'" if "new rows = Inr l" "distinct rows'" "set rows' = set rows" for rows rows' l
    using any_order [OF that] .
  show "\<exists>rows. stage_by_id ident name (\<lambda>_. Inr ()) base (index_by ident base) staged = Inr rows \<and>
      l = sort_key (ledger_key time ident) rows"
    if "ordered time ident base" "merge base staged = Inr l" for base staged l
    using that sorts by (auto simp: merge_new ordered_def)
  show "merge base staged = Inr base"
    if m: "new rows = Inr base \<or> ordered time ident b \<and> merge b s = Inr base" and s: "set staged \<subseteq> set base"
    for rows base b s staged
  proof -
    from m obtain rows where r: "new rows = Inr base" by (auto simp: merge_new ordered_def)
    from sorts [OF r] have d: "distinct (map ident base)" "distinct base" "set base = set rows" by (auto simp: distinct_map)
    from any_order [OF r d(2,3)] obtain l where l: "new base = Inr l" by blast
    with sorts [OF l] sorts [OF r] have "l = base" using sort_key_ordered ordered_sort_key by metis
    with l d(1) s show ?thesis by (simp add: merge_new stage_by_id_replay [OF indexes_index_by])
  qed
qed

context staged_ledger
begin

lemma merge_accepted: "distinct (map ident base) \<Longrightarrow> merge base staged = Inr l \<Longrightarrow> new l = Inr l"
  by (auto simp: merge_new intro: new_again)

lemma merge_iff:
  assumes "ordered time ident base"
  shows "merge base staged = Inr l \<longleftrightarrow>
    inj_on ident (set base \<union> set staged) \<and> new l = Inr l \<and> set l = set base \<union> set staged"
proof
  assume m: "merge base staged = Inr l"
  from merge_union [OF assms m] have "ordered time ident l" "set l = set base \<union> set staged" by auto
  moreover have "new l = Inr l" using m assms by (intro merge_accepted) (auto simp: ordered_def)
  ultimately show "inj_on ident (set base \<union> set staged) \<and> new l = Inr l \<and> set l = set base \<union> set staged"
    by (auto simp: ordered_def distinct_map)
next
  assume r: "inj_on ident (set base \<union> set staged) \<and> new l = Inr l \<and> set l = set base \<union> set staged"
  have d: "distinct (map ident base)" using assms by (simp add: ordered_def)
  from stage_by_id_complete [OF indexes_index_by [OF d], of staged "\<lambda>_. Inr ()" name] r obtain rows where
    s: "stage_by_id ident name (\<lambda>_. Inr ()) base (index_by ident base) staged = Inr rows" by blast
  note st = stage_by_id_Inr [OF indexes_index_by [OF d] s]
  have "distinct (map ident rows)" "set rows = set base \<union> set staged"
    by (rule st [THEN conjunct1], rule st [THEN conjunct2, THEN conjunct1])
  then have "distinct rows" "set rows = set base \<union> set staged" by (simp_all add: distinct_map)
  then have "new rows = Inr l" using r new_order_irrelevant [of l l rows] by metis
  with s d show "merge base staged = Inr l" by (simp add: merge_new)
qed

end

lemma stage_by_id_conflict:
  "indexes ident by_id rows \<Longrightarrow> \<not> inj_on ident (set rows \<union> set staged) \<Longrightarrow>
   stage_by_id ident name (\<lambda>_. Inr ()) rows by_id staged = Inl (Conflict name)"
proof (induction staged arbitrary: rows by_id)
  case Nil
  then show ?case using indexes_inj by auto
next
  case (Cons r staged)
  show ?case
  proof (cases "by_id (ident r)")
    case None
    have "set (rows @ [r]) \<union> set staged = set rows \<union> set (r # staged)" by auto
    with Cons.IH [OF indexes_snoc [OF Cons.prems(1) None]] Cons.prems(2) None show ?thesis by (simp del: fun_upd_apply)
  next
    case (Some e)
    show ?thesis
    proof (cases "e = r")
      case True
      then have "set rows \<union> set (r # staged) = set rows \<union> set staged"
        using indexes_lookup(2) [OF Cons.prems(1) Some] by auto
      with Cons.prems(2) have n: "\<not> inj_on ident (set rows \<union> set staged)" by metis
      show ?thesis using Cons.IH [OF Cons.prems(1) n] Some True by simp
    qed (simp add: Some)
  qed
qed

text \<open>The merge of a ledger as a partial union: it fails with the conflict of an identity that has two contents, and
  otherwise accepts what the constructor accepts of the union.\<close>

definition merges_as_union :: "('r \<Rightarrow> uuid) \<Rightarrow> string \<Rightarrow> ('r list \<Rightarrow> knowledge_error + 'r list) \<Rightarrow> ('r list \<Rightarrow> 'r list \<Rightarrow> knowledge_error + 'r list) \<Rightarrow> bool" where
  "merges_as_union ident name new merge \<longleftrightarrow>
     (\<forall>rows base staged. new rows = Inr base \<longrightarrow>
        (if inj_on ident (set base \<union> set staged)
         then \<forall>l. merge base staged = Inr l \<longleftrightarrow> new l = Inr l \<and> set l = set base \<union> set staged
         else merge base staged = Inl (Conflict name)))"

context staged_ledger
begin

lemma partial_union: "merges_as_union ident name new merge"
  unfolding merges_as_union_def
proof (intro allI impI)
  fix rows base staged
  assume n: "new rows = Inr base"
  have o: "ordered time ident base" using new_ordered [OF n] by simp
  then have d: "distinct (map ident base)" by (simp add: ordered_def)
  show "if inj_on ident (set base \<union> set staged)
      then \<forall>l. merge base staged = Inr l \<longleftrightarrow> new l = Inr l \<and> set l = set base \<union> set staged
      else merge base staged = Inl (Conflict name)"
  proof (cases "inj_on ident (set base \<union> set staged)")
    case True
    then show ?thesis using merge_iff [OF o] by simp
  next
    case False
    then show ?thesis using stage_by_id_conflict [OF indexes_index_by [OF d] False] by (simp add: merge_new [OF d])
  qed
qed

end

section \<open>Row payloads\<close>

text \<open>
  The bytes of a row are a sequence of fixed-width fields, length-prefixed texts and tagged optional identifiers. The
  rules \<open>payload\<close> split an equality of two such sequences into the equalities of their fields, and compute a chain
  of writer calls whose bytes fit.
\<close>

named_theorems payload

fun put_opt :: "uuid option \<Rightarrow> byte list" where
  "put_opt None = [0]"
| "put_opt (Some u) = 1 # uuid_bytes u"

lemma length_uuid_bytes [simp]: "length (uuid_bytes u) = 16"
  by (simp add: uuid_bytes_def)

lemma uuid_bytes_inj: "uuid_bytes u = uuid_bytes v \<longleftrightarrow> u = v"
proof -
  have "unat u < 256 ^ 16" "unat v < 256 ^ 16" using unsigned_less [of u] unsigned_less [of v] by simp_all
  then show ?thesis by (simp add: uuid_bytes_def be_bytes_inj word_unat_eq_iff)
qed

lemma be_bytes_word_inj:
  "be_bytes 4 (unat (a :: 32 word)) = be_bytes 4 (unat b) \<longleftrightarrow> a = b"
  "be_bytes 8 (unat (c :: 64 word)) = be_bytes 8 (unat d) \<longleftrightarrow> c = d"
  by (metis from_be_word(1)) (metis from_be_word(2))

lemma uuid_append [payload]: "uuid_bytes u @ xs = uuid_bytes v @ ys \<longleftrightarrow> u = v \<and> xs = ys"
  by (simp add: append_eq_append_conv uuid_bytes_inj)

lemma u32_append [payload]:
  "be_bytes 4 (unat (a :: 32 word)) @ xs = be_bytes 4 (unat b) @ ys \<longleftrightarrow> a = b \<and> xs = ys"
  by (simp add: append_eq_append_conv be_bytes_word_inj)

lemma u64_append [payload]:
  "be_bytes 8 (unat (a :: 64 word)) @ xs = be_bytes 8 (unat b) @ ys \<longleftrightarrow> a = b \<and> xs = ys"
  by (simp add: append_eq_append_conv be_bytes_word_inj)

lemma put_opt_append [payload]: "put_opt u @ xs = put_opt v @ ys \<longleftrightarrow> u = v \<and> xs = ys"
  by (cases u; cases v) (simp_all add: payload)

lemma put_text_append [payload]:
  assumes "length s < 256 ^ 8" and "length t < 256 ^ 8"
  shows "put_text s @ xs = put_text t @ ys \<longleftrightarrow> s = t \<and> xs = ys"
proof
  assume e: "put_text s @ xs = put_text t @ ys"
  then have "be_bytes 8 (length s) = be_bytes 8 (length t)" by (simp add: put_text_def append_eq_append_conv)
  with assms have "length s = length t" by (simp add: be_bytes_inj)
  with e show "s = t \<and> xs = ys" by (simp add: put_text_def append_eq_append_conv)
qed simp

lemma put_text_inj [payload]:
  "length s < 256 ^ 8 \<Longrightarrow> length t < 256 ^ 8 \<Longrightarrow> put_text s = put_text t \<longleftrightarrow> s = t"
  using put_text_append [of s t "[]" "[]"] by simp

lemma writer_text_fits [payload]:
  assumes "length bs \<le> MAX_CANONICAL_TEXT_BYTES" and "length (w_bytes w) + (8 + length bs) \<le> MAX_CANONICAL_PAYLOAD_BYTES"
  shows "writer_text bs w = Inr (w\<lparr>w_bytes := w_bytes w @ put_text bs\<rparr>)"
proof -
  have "length bs < 2 ^ 64" using assms(1) by (simp add: MAX_CANONICAL_TEXT_BYTES_def)
  then have "unat (word_of_nat (length bs) :: 64 word) = length bs" by (simp add: unat_of_nat)
  then show ?thesis using assms
    by (simp add: writer_text_def writer_u64_def writer_raw_fits put_text_def usize_max_def MAX_CANONICAL_TEXT_BYTES_def)
qed

lemma length_put_text [simp]: "length (put_text bs) = 8 + length bs"
  by (simp add: put_text_def)

lemma length_put_opt: "length (put_opt u) \<le> 17"
  by (cases u) simp_all

lemma fingerprint_fits [payload]:
  assumes "length p \<le> 100000"
  shows "fingerprint sha256 d CANONICAL_CONTRACT_VERSION p = Inr (sha256 (preimage_bytes d CANONICAL_CONTRACT_VERSION p))"
  using assms as_str_length [of d]
  by (simp add: fingerprint_def preimage_spec length_preimage usize_max_def MAX_CANONICAL_PAYLOAD_BYTES_def)

lemmas writer_fits = writer_raw_fits writer_u8_def writer_u16_def writer_u32_def writer_u64_def writer_i64_def
  writer_new_def writer_finish_def

end
