(* ===== verification/Status.thy ===== *)
theory Status
  imports Ledger
begin

text \<open>
  \<open>crates/graphforge-knowledge/src/status.rs\<close>: the closed status registry, a status event, and the ledger of status
  events with its constructor, merge, row fingerprints and the current status of an assertion. A ledger is the list
  of its events. \<open>is_v7\<close> is the version test of the UUID library and \<open>sha256\<close> the digest.
\<close>

section \<open>Data\<close>

definition ASSERTION_STATUS_CONTRACT_VERSION :: "32 word" where
  "ASSERTION_STATUS_CONTRACT_VERSION = 1"

datatype assertion_status = Hypothesis | Supported | Refuted | Disputed | Retracted | Superseded

fun status_as_str :: "assertion_status \<Rightarrow> string" where
  "status_as_str Hypothesis = ''hypothesis''"
| "status_as_str Supported = ''supported''"
| "status_as_str Refuted = ''refuted''"
| "status_as_str Disputed = ''disputed''"
| "status_as_str Retracted = ''retracted''"
| "status_as_str Superseded = ''superseded''"

definition status_parse :: "string \<Rightarrow> knowledge_error + assertion_status" where
  "status_parse value =
     (if value = ''hypothesis'' then Inr Hypothesis
      else if value = ''supported'' then Inr Supported
      else if value = ''refuted'' then Inr Refuted
      else if value = ''disputed'' then Inr Disputed
      else if value = ''retracted'' then Inr Retracted
      else if value = ''superseded'' then Inr Superseded
      else Inl (Invalid ''assertion_status.status'' ''unknown registry value''))"

fun is_terminal :: "assertion_status \<Rightarrow> bool" where
  "is_terminal Superseded = True"
| "is_terminal _ = False"

record status_event =
  se_status_event_uuid :: uuid
  se_assertion_uuid :: uuid
  se_status :: assertion_status
  se_confidence_uuid :: "uuid option"
  se_reasoning_uuid :: "uuid option"
  se_provenance_uuid :: uuid
  se_recorded_at_micros :: "64 word"
  se_contract_version :: "32 word"

type_synonym status_ledger = "status_event list"

abbreviation status_key :: "status_event \<Rightarrow> int \<times> uuid" where
  "status_key \<equiv> ledger_key se_recorded_at_micros se_status_event_uuid"

section \<open>Validation\<close>

definition status_require_uuid :: "uuid \<Rightarrow> string \<Rightarrow> knowledge_error + unit" where
  "status_require_uuid value field = (if value = 0 then Inl (Invalid field ''must not be nil'') else Inr ())"

definition status_require_v7 :: "(uuid \<Rightarrow> bool) \<Rightarrow> uuid \<Rightarrow> string \<Rightarrow> knowledge_error + unit" where
  "status_require_v7 is_v7 value field =
     (if \<not> is_v7 value then Inl (Invalid field ''must be UUIDv7'') else status_require_uuid value field)"

definition status_require_v7_opt :: "(uuid \<Rightarrow> bool) \<Rightarrow> uuid option \<Rightarrow> string \<Rightarrow> knowledge_error + unit" where
  "status_require_v7_opt is_v7 value field =
     (case value of Some value \<Rightarrow> status_require_v7 is_v7 value field | None \<Rightarrow> Inr ())"

definition status_event_new :: "(uuid \<Rightarrow> bool) \<Rightarrow> uuid \<Rightarrow> uuid \<Rightarrow> assertion_status \<Rightarrow> uuid option \<Rightarrow> uuid option \<Rightarrow> uuid \<Rightarrow> 64 word \<Rightarrow> knowledge_error + status_event" where
  "status_event_new is_v7 status_event_uuid assertion_uuid status confidence_uuid reasoning_uuid provenance_uuid recorded_at_micros =
     and_then (status_require_v7 is_v7 status_event_uuid ''status_event_uuid'') (\<lambda>_.
     and_then (status_require_v7 is_v7 assertion_uuid ''assertion_uuid'') (\<lambda>_.
     and_then (status_require_v7_opt is_v7 confidence_uuid ''confidence_uuid'') (\<lambda>_.
     and_then (status_require_v7_opt is_v7 reasoning_uuid ''reasoning_uuid'') (\<lambda>_.
     and_then (status_require_uuid provenance_uuid ''provenance_uuid'') (\<lambda>_.
     Inr \<lparr>se_status_event_uuid = status_event_uuid, se_assertion_uuid = assertion_uuid, se_status = status,
           se_confidence_uuid = confidence_uuid, se_reasoning_uuid = reasoning_uuid,
           se_provenance_uuid = provenance_uuid, se_recorded_at_micros = recorded_at_micros,
           se_contract_version = ASSERTION_STATUS_CONTRACT_VERSION\<rparr>)))))"

definition validate_event :: "(uuid \<Rightarrow> bool) \<Rightarrow> status_event \<Rightarrow> knowledge_error + unit" where
  "validate_event is_v7 row =
     (if se_contract_version row \<noteq> ASSERTION_STATUS_CONTRACT_VERSION
      then Inl (Invalid ''assertion_status.contract_version'' ''unsupported version'')
      else
        and_then (status_require_v7 is_v7 (se_status_event_uuid row) ''status_event_uuid'') (\<lambda>_.
        and_then (status_require_v7 is_v7 (se_assertion_uuid row) ''assertion_uuid'') (\<lambda>_.
        and_then (status_require_v7_opt is_v7 (se_confidence_uuid row) ''confidence_uuid'') (\<lambda>_.
        and_then (status_require_v7_opt is_v7 (se_reasoning_uuid row) ''reasoning_uuid'') (\<lambda>_.
        status_require_uuid (se_provenance_uuid row) ''provenance_uuid'')))))"

fun terminal_sequence :: "uuid set \<Rightarrow> status_event list \<Rightarrow> knowledge_error + unit" where
  "terminal_sequence terminal_assertions [] = Inr ()"
| "terminal_sequence terminal_assertions (event # events) =
     (if se_assertion_uuid event \<in> terminal_assertions \<and> \<not> is_terminal (se_status event)
      then Inl (Invalid ''assertion_status.status'' ''superseded is terminal'')
      else if is_terminal (se_status event)
      then terminal_sequence (insert (se_assertion_uuid event) terminal_assertions) events
      else terminal_sequence terminal_assertions events)"

definition validate_terminal_sequence :: "status_event list \<Rightarrow> knowledge_error + unit" where
  "validate_terminal_sequence events = terminal_sequence {} events"

section \<open>The ledger\<close>

definition status_new_with_limit :: "(uuid \<Rightarrow> bool) \<Rightarrow> status_event list \<Rightarrow> nat \<Rightarrow> knowledge_error + status_ledger" where
  "status_new_with_limit is_v7 events max_rows =
     (if length events > max_rows then Inl (RowLimit ''assertion_status_events'' (length events) max_rows)
      else
        and_then (scan_unique (validate_event is_v7) se_status_event_uuid ''status_event_uuid'' events {}) (\<lambda>_.
        let events = sort_key status_key events
        in and_then (validate_terminal_sequence events) (\<lambda>_. Inr events)))"

definition status_new :: "(uuid \<Rightarrow> bool) \<Rightarrow> status_event list \<Rightarrow> knowledge_error + status_ledger" where
  "status_new is_v7 events = status_new_with_limit is_v7 events MAX_KNOWLEDGE_ROWS"

text \<open>The check a staged event passes before it is appended to \<open>base\<close>.\<close>

definition status_admit :: "(uuid \<Rightarrow> bool) \<Rightarrow> status_ledger \<Rightarrow> status_event \<Rightarrow> knowledge_error + unit" where
  "status_admit is_v7 base event =
     (let terminal_assertions = set (map se_assertion_uuid (filter (\<lambda>row. is_terminal (se_status row)) base))
      in if se_assertion_uuid event \<in> terminal_assertions \<and> \<not> is_terminal (se_status event)
         then Inl (Invalid ''assertion_status.status'' ''superseded is terminal'')
         else validate_event is_v7 event)"

definition status_merge_with_limit :: "(uuid \<Rightarrow> bool) \<Rightarrow> status_ledger \<Rightarrow> status_ledger \<Rightarrow> nat \<Rightarrow> knowledge_error + status_ledger" where
  "status_merge_with_limit is_v7 base staged max_rows =
     and_then
       (stage_by_id se_status_event_uuid ''status_event_uuid'' (status_admit is_v7 base)
          base (index_by se_status_event_uuid base) staged)
       (\<lambda>events.
        if length events > max_rows then Inl (RowLimit ''assertion_status_events'' (length events) max_rows)
        else Inr (sort_key status_key events))"

definition status_merge :: "(uuid \<Rightarrow> bool) \<Rightarrow> status_ledger \<Rightarrow> status_ledger \<Rightarrow> knowledge_error + status_ledger" where
  "status_merge is_v7 base staged = status_merge_with_limit is_v7 base staged MAX_KNOWLEDGE_ROWS"

text \<open>The reference the unit tests compare the merge with: stage, then validate the whole ledger again.\<close>

definition merge_with_full_revalidation :: "(uuid \<Rightarrow> bool) \<Rightarrow> status_ledger \<Rightarrow> status_ledger \<Rightarrow> knowledge_error + status_ledger" where
  "merge_with_full_revalidation is_v7 existing staged =
     and_then
       (stage_by_id se_status_event_uuid ''status_event_uuid'' (\<lambda>_. Inr ())
          existing (index_by se_status_event_uuid existing) staged)
       (status_new is_v7)"

definition current_for :: "status_ledger \<Rightarrow> uuid \<Rightarrow> status_event option" where
  "current_for events assertion_uuid =
     max_by_key status_key (filter (\<lambda>row. se_assertion_uuid row = assertion_uuid) events)"

section \<open>Fingerprints\<close>

definition optional_uuid :: "uuid option \<Rightarrow> canonical_writer \<Rightarrow> canonical_error + canonical_writer" where
  "optional_uuid value w =
     (case value of
        Some value \<Rightarrow> and_then (writer_u8 1 w) (writer_raw (uuid_bytes value))
      | None \<Rightarrow> writer_u8 0 w)"

definition event_fingerprint_for_row :: "(byte list \<Rightarrow> byte list) \<Rightarrow> status_event \<Rightarrow> knowledge_error + byte list" where
  "event_fingerprint_for_row sha256 row =
     from_canonical
       (and_then (writer_raw (uuid_bytes (se_status_event_uuid row)) writer_new) (\<lambda>w.
        and_then (writer_raw (uuid_bytes (se_assertion_uuid row)) w) (\<lambda>w.
        and_then (writer_text (str_bytes (status_as_str (se_status row))) w) (\<lambda>w.
        and_then (optional_uuid (se_confidence_uuid row) w) (\<lambda>w.
        and_then (optional_uuid (se_reasoning_uuid row) w) (\<lambda>w.
        and_then (writer_raw (uuid_bytes (se_provenance_uuid row)) w) (\<lambda>w.
        and_then (writer_i64 (se_recorded_at_micros row) w) (\<lambda>w.
        and_then (writer_u32 (se_contract_version row) w) (\<lambda>w.
        fingerprint sha256 AssertionStatus CANONICAL_CONTRACT_VERSION (writer_finish w))))))))))"

definition event_fingerprint :: "(byte list \<Rightarrow> byte list) \<Rightarrow> status_ledger \<Rightarrow> uuid \<Rightarrow> knowledge_error + byte list" where
  "event_fingerprint sha256 events status_event_uuid =
     (case List.find (\<lambda>row. se_status_event_uuid row = status_event_uuid) events of
        None \<Rightarrow> Inl (Dangling ''status_event_uuid'')
      | Some row \<Rightarrow> event_fingerprint_for_row sha256 row)"

definition event_fingerprints :: "(byte list \<Rightarrow> byte list) \<Rightarrow> status_ledger \<Rightarrow> knowledge_error + (uuid \<times> byte list) list" where
  "event_fingerprints sha256 events =
     collect_results (\<lambda>row. and_then (event_fingerprint_for_row sha256 row) (\<lambda>fp. Inr (se_status_event_uuid row, fp))) events"

section \<open>Payload\<close>

lemma optional_uuid_fits [payload]:
  "length (w_bytes w) + 17 \<le> MAX_CANONICAL_PAYLOAD_BYTES \<Longrightarrow>
    optional_uuid u w = Inr (w\<lparr>w_bytes := w_bytes w @ put_opt u\<rparr>)"
  by (cases u) (simp_all add: optional_uuid_def writer_u8_def writer_raw_fits)

lemma status_as_str_length: "length (status_as_str s) \<le> 10"
  by (cases s) simp_all

lemma status_as_str_inj: "status_as_str s = status_as_str t \<longleftrightarrow> s = t"
  by (cases s; cases t) simp_all

definition event_payload :: "status_event \<Rightarrow> byte list" where
  "event_payload row =
     uuid_bytes (se_status_event_uuid row) @ uuid_bytes (se_assertion_uuid row) @
     put_text (str_bytes (status_as_str (se_status row))) @ put_opt (se_confidence_uuid row) @
     put_opt (se_reasoning_uuid row) @ uuid_bytes (se_provenance_uuid row) @
     be_bytes 8 (unat (se_recorded_at_micros row)) @ be_bytes 4 (unat (se_contract_version row)) @ []"

lemma event_payload_inj: "event_payload r = event_payload s \<longleftrightarrow> r = s"
  using status_as_str_length [of "se_status r"] status_as_str_length [of "se_status s"]
  by (auto simp add: event_payload_def payload str_bytes_inj status_as_str_inj be_bytes_word_inj intro: status_event.equality)

lemma event_fingerprint_eq:
  "event_fingerprint_for_row sha256 row =
     Inr (sha256 (preimage_bytes AssertionStatus CANONICAL_CONTRACT_VERSION (event_payload row)))"
  using status_as_str_length [of "se_status row"] length_put_opt [of "se_confidence_uuid row"]
    length_put_opt [of "se_reasoning_uuid row"]
  by (simp add: event_fingerprint_for_row_def payload writer_fits event_payload_def MAX_CANONICAL_PAYLOAD_BYTES_def
      MAX_CANONICAL_TEXT_BYTES_def from_canonical_def)

section \<open>Accepted ledgers\<close>

text \<open>No event of an assertion is recorded after its supersession unless it is a supersession too.\<close>

definition superseded_last :: "status_event set \<Rightarrow> bool" where
  "superseded_last S \<longleftrightarrow>
     (\<forall>e\<in>S. \<forall>f\<in>S. se_assertion_uuid e = se_assertion_uuid f \<and> is_terminal (se_status e) \<and> status_key e < status_key f \<longrightarrow>
        is_terminal (se_status f))"

lemma status_require_simps [simp]:
  "status_require_uuid u f = Inr y \<longleftrightarrow> u \<noteq> 0"
  "status_require_v7 is_v7 u f = Inr y \<longleftrightarrow> is_v7 u \<and> u \<noteq> 0"
  by (simp_all add: status_require_uuid_def status_require_v7_def)

lemma terminal_sequence_Inr:
  "terminal_sequence T es = Inr y \<longleftrightarrow>
     (\<forall>e\<in>set es. se_assertion_uuid e \<in> T \<longrightarrow> is_terminal (se_status e)) \<and>
     sorted_wrt (\<lambda>e f. se_assertion_uuid e = se_assertion_uuid f \<and> is_terminal (se_status e) \<longrightarrow> is_terminal (se_status f)) es"
  by (induction es arbitrary: T) auto

lemma validate_terminal_Inr:
  "ordered se_recorded_at_micros se_status_event_uuid l \<Longrightarrow>
   validate_terminal_sequence l = Inr y \<longleftrightarrow> superseded_last (set l)"
  by (simp add: validate_terminal_sequence_def terminal_sequence_Inr sorted_wrt_ordered superseded_last_def) blast

lemma status_new_Inr:
  "status_new_with_limit is_v7 events n = Inr l \<longleftrightarrow>
     length events \<le> n \<and> (\<forall>e\<in>set events. validate_event is_v7 e = Inr ()) \<and>
     distinct (map se_status_event_uuid events) \<and> superseded_last (set events) \<and> l = sort_key status_key events"
  by (auto simp: status_new_with_limit_def scan_unique_Inr Let_def validate_terminal_Inr ordered_sort_key)

interpretation status: append_ledger se_status_event_uuid se_recorded_at_micros "''status_event_uuid''"
  "status_admit is_v7" "status_new is_v7" "status_merge is_v7" for is_v7
proof
  show "distinct (map se_status_event_uuid rows) \<and> l = sort_key status_key rows" if "status_new is_v7 rows = Inr l" for rows l
    using that by (simp add: status_new_def status_new_Inr)
  show "\<exists>l'. status_new is_v7 rows' = Inr l'"
    if "status_new is_v7 rows = Inr l" "distinct rows'" "set rows' = set rows" for rows rows' l
  proof -
    have "distinct rows" using that(1) by (auto simp: status_new_def status_new_Inr distinct_map)
    then have "length rows' = length rows" using that(2,3) by (metis distinct_card)
    with that show ?thesis by (auto simp: status_new_def status_new_Inr distinct_map)
  qed
  show "\<exists>rows. stage_by_id se_status_event_uuid ''status_event_uuid'' (status_admit is_v7 base) base
      (index_by se_status_event_uuid base) staged = Inr rows \<and> l = sort_key status_key rows"
    if "status_merge is_v7 base staged = Inr l" for base staged l
    using that by (auto simp: status_merge_def status_merge_with_limit_def split: if_splits)
  show "status_merge is_v7 base staged = Inr base"
    if m: "status_new is_v7 rows = Inr base \<or>
        ordered se_recorded_at_micros se_status_event_uuid b \<and> status_merge is_v7 b s = Inr base"
      and s: "set staged \<subseteq> set base" for rows base b s staged
  proof -
    have b: "ordered se_recorded_at_micros se_status_event_uuid base" "length base \<le> MAX_KNOWLEDGE_ROWS"
      using m stage_by_id_Inr [OF indexes_index_by [of se_status_event_uuid b]]
      by (auto simp: status_new_def status_new_Inr ordered_sort_key status_merge_def status_merge_with_limit_def
          ordered_def [of _ _ b] split: if_splits)
    then have "distinct (map se_status_event_uuid base)" by (simp add: ordered_def)
    with b s show ?thesis
      by (simp add: status_merge_def status_merge_with_limit_def stage_by_id_replay [OF indexes_index_by] sort_key_ordered)
  qed
qed

section \<open>The merge\<close>

lemma status_admit_Inr:
  "status_admit is_v7 base e = Inr y \<longleftrightarrow>
     validate_event is_v7 e = Inr y \<and>
     ((\<exists>f\<in>set base. se_assertion_uuid f = se_assertion_uuid e \<and> is_terminal (se_status f)) \<longrightarrow> is_terminal (se_status e))"
  by (simp add: status_admit_def Let_def image_iff) metis

text \<open>Merging keeps a superseded assertion superseded.\<close>

definition superseded_in :: "status_ledger \<Rightarrow> uuid \<Rightarrow> bool" where
  "superseded_in l a \<longleftrightarrow> (\<exists>e\<in>set l. se_assertion_uuid e = a \<and> is_terminal (se_status e)) \<and>
     (\<exists>c. current_for l a = Some c \<and> is_terminal (se_status c))"

lemma current_for_iff:
  assumes "ordered se_recorded_at_micros se_status_event_uuid l"
  shows "current_for l a = Some c \<longleftrightarrow>
    c \<in> set l \<and> se_assertion_uuid c = a \<and> (\<forall>e\<in>set l. se_assertion_uuid e = a \<longrightarrow> status_key e \<le> status_key c)"
proof
  assume "current_for l a = Some c"
  then show "c \<in> set l \<and> se_assertion_uuid c = a \<and> (\<forall>e\<in>set l. se_assertion_uuid e = a \<longrightarrow> status_key e \<le> status_key c)"
    using max_by_key_Some [of status_key "filter (\<lambda>row. se_assertion_uuid row = a) l" c]
    by (auto simp: current_for_def)
next
  assume c: "c \<in> set l \<and> se_assertion_uuid c = a \<and> (\<forall>e\<in>set l. se_assertion_uuid e = a \<longrightarrow> status_key e \<le> status_key c)"
  have "inj_on se_status_event_uuid (set (filter (\<lambda>row. se_assertion_uuid row = a) l))"
    using assms by (auto simp: ordered_def distinct_map intro: inj_on_subset)
  then show "current_for l a = Some c"
    unfolding current_for_def using c by (intro max_by_key_eq inj_on_ledger_key) auto
qed

lemma current_for_exists: "e \<in> set l \<Longrightarrow> \<exists>c. current_for l (se_assertion_uuid e) = Some c"
  by (cases "current_for l (se_assertion_uuid e)") (auto simp: current_for_def filter_empty_conv)

lemma status_stage:
  assumes "ordered se_recorded_at_micros se_status_event_uuid base" and "status_merge is_v7 base staged = Inr l"
  shows "\<forall>e\<in>set staged - set base. status_admit is_v7 base e = Inr ()"
proof -
  from assms(1) have i: "indexes se_status_event_uuid (index_by se_status_event_uuid base) base"
    by (simp add: indexes_index_by ordered_def)
  from status.merge_stages [OF assms] obtain rows where
    "stage_by_id se_status_event_uuid ''status_event_uuid'' (status_admit is_v7 base) base
       (index_by se_status_event_uuid base) staged = Inr rows" by blast
  from stage_by_id_Inr [OF i this] show ?thesis by blast
qed

lemma superseded_in_merge:
  assumes o: "ordered se_recorded_at_micros se_status_event_uuid base" and m: "status_merge is_v7 base staged = Inr l"
    and s: "superseded_in base a"
  shows "superseded_in l a"
proof -
  from status.merge_union [OF o m] have l: "ordered se_recorded_at_micros se_status_event_uuid l"
    "set l = set base \<union> set staged" by auto
  from s obtain e where e: "e \<in> set base" "se_assertion_uuid e = a" "is_terminal (se_status e)"
    by (auto simp: superseded_in_def)
  from s obtain b where b: "current_for base a = Some b" "is_terminal (se_status b)" by (auto simp: superseded_in_def)
  from current_for_exists [of e l] e l obtain c where c: "current_for l a = Some c" by auto
  have "is_terminal (se_status c)"
  proof (cases "c \<in> set base")
    case True
    have cl: "se_assertion_uuid c = a" "\<forall>f\<in>set l. se_assertion_uuid f = a \<longrightarrow> status_key f \<le> status_key c"
      using c current_for_iff [OF l(1)] by auto
    have bb: "b \<in> set base" "se_assertion_uuid b = a" "status_key c \<le> status_key b"
      using b(1) True cl(1) current_for_iff [OF o] by auto
    with cl l(2) have "status_key c = status_key b" by (auto intro: antisym)
    with bb(1) True o have "c = b" by (auto simp: ordered_def ledger_key_def distinct_map dest: inj_onD)
    with b show ?thesis by simp
  next
    case False
    then have "c \<in> set staged - set base" "se_assertion_uuid c = a" using c current_for_iff [OF l(1)] l(2) by auto
    then show ?thesis using status_stage [OF o m] e by (auto simp: status_admit_Inr)
  qed
  with c e l show ?thesis by (auto simp: superseded_in_def)
qed

lemma superseded_in_merge_all:
  "ordered se_recorded_at_micros se_status_event_uuid base \<Longrightarrow> superseded_in base a \<Longrightarrow>
   merge_all (status_merge is_v7) base stages = Inr l \<Longrightarrow> superseded_in l a"
proof (induction stages arbitrary: base)
  case (Cons s stages)
  then obtain b where b: "status_merge is_v7 base s = Inr b" "merge_all (status_merge is_v7) b stages = Inr l" by auto
  show ?case
    using Cons.IH [OF _ superseded_in_merge [OF Cons.prems(1) b(1) Cons.prems(2)] b(2)]
      status.merge_union [OF Cons.prems(1) b(1)] by simp
qed simp

lemma superseded_in_new:
  assumes n: "status_new is_v7 rows = Inr base" and e: "e \<in> set base" "is_terminal (se_status e)"
  shows "superseded_in base (se_assertion_uuid e)"
proof -
  from status.new_ordered [OF n] have o: "ordered se_recorded_at_micros se_status_event_uuid base" "set base = set rows" by auto
  obtain c where c: "current_for base (se_assertion_uuid e) = Some c" using current_for_exists [OF e(1)] by blast
  then have cb: "c \<in> set base" "se_assertion_uuid c = se_assertion_uuid e" "status_key e \<le> status_key c"
    using current_for_iff [OF o(1)] e(1) by auto
  have "superseded_last (set base)" using n o by (simp add: status_new_def status_new_Inr)
  moreover have "status_key e = status_key c \<Longrightarrow> e = c"
    using o(1) e(1) cb(1) by (auto simp: ordered_def ledger_key_def distinct_map dest: inj_onD)
  ultimately have "is_terminal (se_status c)" using cb e unfolding superseded_last_def by (metis order_le_less)
  with c e show ?thesis by (auto simp: superseded_in_def)
qed

lemma status_merge_Inr:
  assumes "ordered se_recorded_at_micros se_status_event_uuid base"
  shows "status_merge is_v7 base staged = Inr l \<longleftrightarrow>
    (\<exists>rows. stage_by_id se_status_event_uuid ''status_event_uuid'' (\<lambda>_. Inr ()) base
        (index_by se_status_event_uuid base) staged = Inr rows \<and>
      length rows \<le> MAX_KNOWLEDGE_ROWS \<and> l = sort_key status_key rows) \<and>
    (\<forall>e\<in>set staged - set base. status_admit is_v7 base e = Inr ())" (is "?m \<longleftrightarrow> ?r")
proof
  assume m: ?m
  then show ?r using status_stage [OF assms m]
    by (auto simp: status_merge_def status_merge_with_limit_def split: if_splits dest: stage_by_id_check_irrelevant)
next
  assume r: ?r
  have i: "indexes se_status_event_uuid (index_by se_status_event_uuid base) base"
    using assms by (simp add: indexes_index_by ordered_def)
  from r obtain rows where rows: "stage_by_id se_status_event_uuid ''status_event_uuid'' (\<lambda>_. Inr ()) base
        (index_by se_status_event_uuid base) staged = Inr rows"
      "length rows \<le> MAX_KNOWLEDGE_ROWS" "l = sort_key status_key rows" by blast
  from stage_by_id_Inr [OF i rows(1)] have "inj_on se_status_event_uuid (set base \<union> set staged)"
    by (auto simp: distinct_map)
  from stage_by_id_complete [OF i this] r obtain rows' where
    r': "stage_by_id se_status_event_uuid ''status_event_uuid'' (status_admit is_v7 base) base
        (index_by se_status_event_uuid base) staged = Inr rows'" by blast
  from stage_by_id_check_irrelevant [OF r'] rows have "rows' = rows" by simp
  with r' rows show ?m by (simp add: status_merge_def status_merge_with_limit_def)
qed

lemma superseded_last_union:
  assumes A: "superseded_last A" and B: "superseded_last B" and later: "\<forall>e\<in>B - A. \<forall>f\<in>A. status_key f < status_key e"
  shows "superseded_last (A \<union> B) \<longleftrightarrow>
    (\<forall>e\<in>B - A. (\<exists>f\<in>A. se_assertion_uuid f = se_assertion_uuid e \<and> is_terminal (se_status f)) \<longrightarrow> is_terminal (se_status e))"
    (is "_ \<longleftrightarrow> ?r")
proof
  assume "superseded_last (A \<union> B)"
  with later show ?r unfolding superseded_last_def by blast
next
  assume r: ?r
  show "superseded_last (A \<union> B)"
    unfolding superseded_last_def
  proof (intro ballI impI)
    fix e f
    assume e: "e \<in> A \<union> B" and f: "f \<in> A \<union> B"
      and ef: "se_assertion_uuid e = se_assertion_uuid f \<and> is_terminal (se_status e) \<and> status_key e < status_key f"
    have "\<not> (e \<in> B - A \<and> f \<in> A)" using later ef by (meson order_less_asym)
    with e f consider "e \<in> A" "f \<in> A" | "e \<in> A" "f \<in> B - A" | "e \<in> B" "f \<in> B" by blast
    then show "is_terminal (se_status f)"
    proof cases
      case 1
      with A ef show ?thesis unfolding superseded_last_def by blast
    next
      case 2
      with r ef show ?thesis by blast
    next
      case 3
      with B ef show ?thesis unfolding superseded_last_def by blast
    qed
  qed
qed

lemma superseded_last_admitted:
  assumes A: "superseded_last A" and B: "superseded_last B"
    and admitted: "\<forall>e\<in>B - A. (\<exists>f\<in>A. se_assertion_uuid f = se_assertion_uuid e \<and> is_terminal (se_status f)) \<longrightarrow> is_terminal (se_status e)"
  shows "superseded_last (A \<union> B) \<longleftrightarrow>
    \<not> (\<exists>e\<in>B. \<exists>f\<in>A. se_assertion_uuid e = se_assertion_uuid f \<and> is_terminal (se_status e) \<and> \<not> is_terminal (se_status f) \<and>
      status_key e < status_key f)" (is "?l \<longleftrightarrow> ?r")
proof
  assume ?l
  then show ?r unfolding superseded_last_def by blast
next
  assume r: ?r
  show ?l
    unfolding superseded_last_def
  proof (intro ballI impI)
    fix e f
    assume e: "e \<in> A \<union> B" and f: "f \<in> A \<union> B"
      and ef: "se_assertion_uuid e = se_assertion_uuid f \<and> is_terminal (se_status e) \<and> status_key e < status_key f"
    from e f consider "e \<in> A" "f \<in> A" | "e \<in> A" "f \<in> B - A" | "e \<in> B" "f \<in> A" | "e \<in> B" "f \<in> B" by blast
    then show "is_terminal (se_status f)"
    proof cases
      case 1
      with A ef show ?thesis unfolding superseded_last_def by blast
    next
      case 2
      with admitted ef show ?thesis by blast
    next
      case 3
      with r ef show ?thesis by blast
    next
      case 4
      with B ef show ?thesis unfolding superseded_last_def by blast
    qed
  qed
qed

lemma terminal_sequence_outcome:
  "terminal_sequence T es = Inr () \<or> terminal_sequence T es = Inl (Invalid ''assertion_status.status'' ''superseded is terminal'')"
  by (induction es arbitrary: T) auto

lemma status_new_outcome:
  assumes "ordered se_recorded_at_micros se_status_event_uuid l" and "length l \<le> MAX_KNOWLEDGE_ROWS"
    and "\<forall>e\<in>set l. validate_event is_v7 e = Inr ()"
  shows "status_new is_v7 l =
    (if superseded_last (set l) then Inr l else Inl (Invalid ''assertion_status.status'' ''superseded is terminal''))"
proof -
  have "scan_unique (validate_event is_v7) se_status_event_uuid ''status_event_uuid'' l {} = Inr ()"
    using assms by (simp add: scan_unique_Inr ordered_def)
  then show ?thesis
    using assms terminal_sequence_outcome [of "{}" l] validate_terminal_Inr [OF assms(1), of "()"]
    by (auto simp: status_new_def status_new_with_limit_def Let_def sort_key_ordered validate_terminal_sequence_def)
qed

text \<open>A status event with the identifiers of an example.\<close>

definition sample_event :: "uuid \<Rightarrow> uuid \<Rightarrow> assertion_status \<Rightarrow> 64 word \<Rightarrow> status_event" where
  "sample_event i a s t = \<lparr>se_status_event_uuid = i, se_assertion_uuid = a, se_status = s, se_confidence_uuid = None,
     se_reasoning_uuid = None, se_provenance_uuid = 9, se_recorded_at_micros = t, se_contract_version = 1\<rparr>"

lemmas status_eval = sample_event_def status_new_def status_new_with_limit_def validate_event_def status_require_v7_def
  status_require_uuid_def status_require_v7_opt_def ASSERTION_STATUS_CONTRACT_VERSION_def validate_terminal_sequence_def
  MAX_KNOWLEDGE_ROWS_def ledger_key_def status_merge_def status_merge_with_limit_def index_by_def status_admit_def
  current_for_def and_then_def less_eq_prod_def less_prod_def

section \<open>Properties\<close>

text \<open>C24. The constructor of a status ledger accepts exactly the lists of valid events with distinct identities, within
  the row limit, in which no event of an assertion is recorded after its supersession unless it is a supersession,
  and it returns them in the order of recording time and identity.\<close>

theorem status_new_accepts:
  "status_new is_v7 events = Inr l \<longleftrightarrow>
     length events \<le> MAX_KNOWLEDGE_ROWS \<and> (\<forall>e\<in>set events. validate_event is_v7 e = Inr ()) \<and>
     distinct (map se_status_event_uuid events) \<and> superseded_last (set events) \<and> l = sort_key status_key events"
  unfolding status_new_def by (rule status_new_Inr)

theorem status_new_accepts_witness:
  "superseded_last {sample_event 2 20 Superseded 5, sample_event 1 20 Supported 3}"
  using status_new_accepts [of "\<lambda>_. True" "[sample_event 2 20 Superseded 5, sample_event 1 20 Supported 3]"
      "[sample_event 1 20 Supported 3, sample_event 2 20 Superseded 5]"]
  by (simp add: status_eval)

text \<open>C3. Supersession is final: once a ledger made by the constructor has a superseding event for an assertion, the current
  status of that assertion is superseded in every ledger that any sequence of merges makes of it.\<close>

theorem superseded_is_final:
  assumes "status_new is_v7 rows = Inr base" and "e \<in> set base" and "is_terminal (se_status e)"
    and "merge_all (status_merge is_v7) base stages = Inr l"
  shows "\<exists>c. current_for l (se_assertion_uuid e) = Some c \<and> se_status c = Superseded"
proof -
  from status.new_ordered [OF assms(1)] have "ordered se_recorded_at_micros se_status_event_uuid base" by simp
  from superseded_in_merge_all [OF this superseded_in_new [OF assms(1-3)] assms(4)]
  obtain c where "current_for l (se_assertion_uuid e) = Some c" "is_terminal (se_status c)"
    by (auto simp: superseded_in_def)
  then show ?thesis by (cases "se_status c") auto
qed

theorem superseded_is_final_witness:
  "\<exists>c. current_for [sample_event 1 20 Superseded 5, sample_event 3 21 Disputed 6, sample_event 2 20 Superseded 7] 20 = Some c \<and>
     se_status c = Superseded"
proof -
  have b: "status_new (\<lambda>_. True) [sample_event 1 20 Superseded 5] = Inr [sample_event 1 20 Superseded 5]"
    by (simp add: status_eval)
  have m: "merge_all (status_merge (\<lambda>_. True)) [sample_event 1 20 Superseded 5]
      [[sample_event 2 20 Superseded 7], [sample_event 3 21 Disputed 6]] =
    Inr [sample_event 1 20 Superseded 5, sample_event 3 21 Disputed 6, sample_event 2 20 Superseded 7]"
    by (simp add: status_eval)
  show ?thesis
    using superseded_is_final [OF b _ _ m, of "sample_event 1 20 Superseded 5"] by (simp add: sample_event_def)
qed

text \<open>C23. When the new events are recorded after those of the ledger, the incremental merge gives what validating the
  whole merged ledger again would give: the same ledger when the latter accepts, and an error when it does not.\<close>

theorem merge_matches_revalidation:
  assumes "status_new is_v7 base = Inr base" and "status_new is_v7 staged = Inr staged"
    and "\<forall>e\<in>set staged - set base. \<forall>f\<in>set base. status_key f < status_key e"
  shows "status_merge is_v7 base staged = Inr l \<longleftrightarrow> merge_with_full_revalidation is_v7 base staged = Inr l"
proof -
  have o: "ordered se_recorded_at_micros se_status_event_uuid base" using status.new_ordered [OF assms(1)] by simp
  have i: "indexes se_status_event_uuid (index_by se_status_event_uuid base) base"
    using o by (simp add: indexes_index_by ordered_def)
  have v: "\<forall>e\<in>set base \<union> set staged. validate_event is_v7 e = Inr ()"
    and b: "superseded_last (set base)" and s: "superseded_last (set staged)"
    using assms(1,2) by (auto simp: status_new_def status_new_Inr)
  have "(\<forall>e\<in>set staged - set base. status_admit is_v7 base e = Inr ()) \<longleftrightarrow> superseded_last (set base \<union> set staged)"
    using v superseded_last_union [OF b s assms(3)] by (auto simp: status_admit_Inr)
  then show ?thesis
    unfolding status_merge_Inr [OF o] merge_with_full_revalidation_def status_new_def and_then_Inr status_new_Inr
    using stage_by_id_Inr [OF i, of _ "\<lambda>_. Inr ()"] v by (auto simp: Ball_def)
qed

theorem merge_matches_revalidation_witness:
  "merge_with_full_revalidation (\<lambda>_. True) [sample_event 1 20 Supported 5] [sample_event 2 20 Superseded 6] =
     Inr [sample_event 1 20 Supported 5, sample_event 2 20 Superseded 6]"
proof -
  have "status_merge (\<lambda>_. True) [sample_event 1 20 Supported 5] [sample_event 2 20 Superseded 6] =
      Inr [sample_event 1 20 Supported 5, sample_event 2 20 Superseded 6]"
    by (simp add: status_eval)
  then show ?thesis
    by (subst (asm) merge_matches_revalidation) (simp_all add: status_eval)
qed

text \<open>C25. When two accepted ledgers are merged, the constructor, which also reads the persisted ledger, gives the merged
  ledger back, unless the staged ledger supersedes an assertion at a key (time and identity) before that of an event of
  the base with another status. Then the merge has succeeded and the constructor rejects its result with the error for a
  superseded assertion, and it has no other reason to reject it.\<close>

theorem merged_ledger_readable:
  assumes "status_new is_v7 base = Inr base" and "status_new is_v7 staged = Inr staged"
    and "status_merge is_v7 base staged = Inr l"
  shows "status_new is_v7 l =
    (if \<exists>e\<in>set staged. \<exists>f\<in>set base. se_assertion_uuid e = se_assertion_uuid f \<and> is_terminal (se_status e) \<and>
          \<not> is_terminal (se_status f) \<and> status_key e < status_key f
     then Inl (Invalid ''assertion_status.status'' ''superseded is terminal'') else Inr l)"
proof -
  have o: "ordered se_recorded_at_micros se_status_event_uuid base" using status.new_ordered [OF assms(1)] by simp
  from status.merge_union [OF o assms(3)]
  have l: "ordered se_recorded_at_micros se_status_event_uuid l" "set l = set base \<union> set staged" by auto
  have v: "\<forall>e\<in>set l. validate_event is_v7 e = Inr ()" and b: "superseded_last (set base)" and s: "superseded_last (set staged)"
    using assms(1,2) l(2) by (auto simp: status_new_def status_new_Inr)
  have "length l \<le> MAX_KNOWLEDGE_ROWS" using assms(3) by (auto simp: status_merge_Inr [OF o])
  then have "status_new is_v7 l =
      (if superseded_last (set l) then Inr l else Inl (Invalid ''assertion_status.status'' ''superseded is terminal''))"
    using v l(1) by (simp add: status_new_outcome)
  moreover have "\<forall>e\<in>set staged - set base. status_admit is_v7 base e = Inr ()" by (rule status_stage [OF o assms(3)])
  then have "\<forall>e\<in>set staged - set base. (\<exists>f\<in>set base. se_assertion_uuid f = se_assertion_uuid e \<and> is_terminal (se_status f)) \<longrightarrow>
      is_terminal (se_status e)" by (simp add: status_admit_Inr)
  ultimately show ?thesis using superseded_last_admitted [OF b s] l(2) by simp
qed

text \<open>With version 7 identifiers and the version nibble of the UUID read: the superseding event is recorded at an earlier
  time than an event of the base.\<close>

theorem merged_ledger_readable_witness:
  "\<exists>is_v7 base staged l. is_v7 = (\<lambda>u :: uuid. drop_bit 76 u AND 15 = 7) \<and>
     base = [sample_event 0x01900000000070008000000000000001 0x01900000000070008000000000000014 Supported 5] \<and>
     staged = [sample_event 0x01900000000070008000000000000002 0x01900000000070008000000000000014 Superseded 4] \<and>
     status_merge is_v7 base staged = Inr l \<and>
     status_new is_v7 l = Inl (Invalid ''assertion_status.status'' ''superseded is terminal'')"
proof -
  let ?v = "\<lambda>u :: uuid. drop_bit 76 u AND 15 = 7"
  let ?b = "[sample_event 0x01900000000070008000000000000001 0x01900000000070008000000000000014 Supported 5]"
  let ?s = "[sample_event 0x01900000000070008000000000000002 0x01900000000070008000000000000014 Superseded 4]"
  have b: "status_new ?v ?b = Inr ?b" and s: "status_new ?v ?s = Inr ?s" by (simp_all add: status_eval)
  have m: "status_merge ?v ?b ?s = Inr (?s @ ?b)" by (simp add: status_eval)
  from merged_ledger_readable [OF b s m]
  have "status_new ?v (?s @ ?b) = Inl (Invalid ''assertion_status.status'' ''superseded is terminal'')" by (simp add: status_eval)
  with m show ?thesis by blast
qed

end
