(* ===== verification/Cycle_Search.thy ===== *)
theory Cycle_Search
  imports Main
begin

text \<open>
  The two depth-first searches for a cycle of the knowledge ledgers: \<open>visit\<close> of
  \<open>crates/graphforge-knowledge/src/supersession.rs\<close> and \<open>dfs_cycle\<close> of \<open>derivation.rs\<close>. The sets they share between
  calls are passed in and out, and each search terminates because the nodes on the stack only grow along a path. Both
  decide acyclicity for every order in which the hash map yields its keys. A hash map of successor lists is an
  association list in the order of insertion, and \<open>hash_keys\<close> of an arbitrary \<open>hash_order\<close> yields its keys.
\<close>

section \<open>Adjacency\<close>

type_synonym 'n adjacency = "('n \<times> 'n list) list"

text \<open>\<open>adjacency.entry(k).or_default().push(v)\<close>, \<open>adjacency.get(n)\<close> and the keys of the map.\<close>

fun push_entry :: "'n \<Rightarrow> 'n \<Rightarrow> 'n adjacency \<Rightarrow> 'n adjacency" where
  "push_entry k v [] = [(k, [v])]"
| "push_entry k v ((k', vs) # entries) = (if k' = k then (k', vs @ [v]) # entries else (k', vs) # push_entry k v entries)"

definition adjacency_of :: "('n \<times> 'n) list \<Rightarrow> 'n adjacency" where
  "adjacency_of edges = foldl (\<lambda>adjacency (a, b). push_entry a b adjacency) [] edges"

definition children :: "'n adjacency \<Rightarrow> 'n \<Rightarrow> 'n list" where
  "children adjacency node = (case map_of adjacency node of None \<Rightarrow> [] | Some next \<Rightarrow> next)"

text \<open>An iteration order of a hash map: every key is yielded.\<close>

typedef 'k hash_order = "{f :: 'k list \<Rightarrow> 'k list. \<forall>ks. set (f ks) = set ks}"
  morphisms hash_keys Abs_hash_order
  by (rule exI [of _ "\<lambda>ks. ks"]) simp

setup_lifting type_definition_hash_order

lift_definition insertion_order :: "'k hash_order" is "\<lambda>ks. ks"
  by simp

lemma set_hash_keys [simp]: "set (hash_keys order ks) = set ks"
  using hash_keys [of order] by simp

section \<open>The searches\<close>

function visit :: "'n adjacency \<Rightarrow> 'n \<Rightarrow> 'n set \<times> 'n set \<Rightarrow> bool \<times> ('n set \<times> 'n set)"
  and any_fails :: "'n adjacency \<Rightarrow> 'n list \<Rightarrow> 'n set \<times> 'n set \<Rightarrow> bool \<times> ('n set \<times> 'n set)" where
  "visit adjacency node (visiting, acyclic_nodes) =
     (if node \<in> acyclic_nodes then (True, (visiting, acyclic_nodes))
      else if node \<in> visiting then (False, (visiting, acyclic_nodes))
      else case any_fails adjacency (children adjacency node) (insert node visiting, acyclic_nodes) of
        (True, st) \<Rightarrow> (False, st)
      | (False, (visiting, acyclic_nodes)) \<Rightarrow> (True, (visiting - {node}, insert node acyclic_nodes)))"
| "any_fails adjacency [] st = (False, st)"
| "any_fails adjacency (child # next) st =
     (case visit adjacency child st of
        (True, st) \<Rightarrow> any_fails adjacency next st
      | (False, st) \<Rightarrow> (True, st))"
  by pat_completeness auto

lemma visiting_grows:
  "visit_any_fails_dom (Inl (adjacency, node, st)) \<Longrightarrow> fst st \<subseteq> fst (snd (visit adjacency node st))"
  "visit_any_fails_dom (Inr (adjacency, next, st)) \<Longrightarrow> fst st \<subseteq> fst (snd (any_fails adjacency next st))"
proof (induction adjacency node st and adjacency "next" st rule: visit_any_fails.pinduct)
  case (1 adjacency node visiting acyclic_nodes)
  then show ?case by (auto simp: visit.psimps split: prod.splits bool.splits)
next
  case (2 adjacency st)
  then show ?case by (simp add: any_fails.psimps)
next
  case (3 adjacency child "next" st)
  then show ?case by (fastforce simp: any_fails.psimps split: prod.splits bool.splits)
qed

definition search_measure :: "('n adjacency \<times> 'n \<times> 'n set \<times> 'n set) + ('n adjacency \<times> 'n list \<times> 'n set \<times> 'n set) \<Rightarrow> nat \<times> nat" where
  "search_measure x =
     (case x of
        Inl (adjacency, node, st) \<Rightarrow> (card (fst ` set adjacency - fst st), 1)
      | Inr (adjacency, next, st) \<Rightarrow> (card (fst ` set adjacency - fst st), 2 * length next))"

lemma unvisited_antimono: "v \<subseteq> v' \<Longrightarrow> card (fst ` set adjacency - v') \<le> card (fst ` set adjacency - v)"
  by (intro card_mono) auto

lemma children_domain: "node \<notin> fst ` set adjacency \<Longrightarrow> children adjacency node = []"
  by (simp add: children_def map_of_eq_None_iff [THEN iffD2])

lemma search_descends:
  assumes "node \<notin> visiting"
  shows "(Inr (adjacency, children adjacency node, insert node visiting, acyclic_nodes), Inl (adjacency, node, visiting, acyclic_nodes))
    \<in> inv_image (less_than <*lex*> less_than) search_measure"
proof (cases "node \<in> fst ` set adjacency")
  case True
  with assms have "card (fst ` set adjacency - insert node visiting) < card (fst ` set adjacency - visiting)"
    by (intro psubset_card_mono) auto
  then show ?thesis by (simp add: search_measure_def)
next
  case False
  then have "fst ` set adjacency - insert node visiting = fst ` set adjacency - visiting" by auto
  with children_domain [OF False] show ?thesis by (simp add: search_measure_def)
qed

lemma search_advances:
  assumes "fst st \<subseteq> fst st'"
  shows "(Inr (adjacency, next, st'), Inr (adjacency, child # next, st)) \<in> inv_image (less_than <*lex*> less_than) search_measure"
  using unvisited_antimono [OF assms, of adjacency] by (auto simp: search_measure_def order_le_less)

termination visit
proof (relation "inv_image (less_than <*lex*> less_than) search_measure", goal_cases)
  case (2 adjacency node visiting acyclic_nodes)
  then show ?case by (intro search_descends)
next
  case (4 adjacency child "next" st b st')
  then have "fst st \<subseteq> fst st'" using visiting_grows(1) [of adjacency child st] by (metis snd_conv)
  then show ?case by (rule search_advances)
qed (auto simp: search_measure_def)

function dfs_cycle :: "'n adjacency \<Rightarrow> 'n \<Rightarrow> 'n set \<times> 'n set \<Rightarrow> bool \<times> ('n set \<times> 'n set)"
  and any_cycle :: "'n adjacency \<Rightarrow> 'n list \<Rightarrow> 'n set \<times> 'n set \<Rightarrow> bool \<times> ('n set \<times> 'n set)" where
  "dfs_cycle adjacency node (visiting, visited) =
     (if node \<in> visiting then (True, (visiting, visited))
      else if node \<in> visited then (False, (visiting, visited))
      else case any_cycle adjacency (children adjacency node) (insert node visiting, visited) of
        (True, st) \<Rightarrow> (True, st)
      | (False, (visiting, visited)) \<Rightarrow> (False, (visiting - {node}, insert node visited)))"
| "any_cycle adjacency [] st = (False, st)"
| "any_cycle adjacency (neighbor # neighbors) st =
     (case dfs_cycle adjacency neighbor st of
        (True, st) \<Rightarrow> (True, st)
      | (False, st) \<Rightarrow> any_cycle adjacency neighbors st)"
  by pat_completeness auto

lemma dfs_visiting_grows:
  "dfs_cycle_any_cycle_dom (Inl (adjacency, node, st)) \<Longrightarrow> fst st \<subseteq> fst (snd (dfs_cycle adjacency node st))"
  "dfs_cycle_any_cycle_dom (Inr (adjacency, next, st)) \<Longrightarrow> fst st \<subseteq> fst (snd (any_cycle adjacency next st))"
proof (induction adjacency node st and adjacency "next" st rule: dfs_cycle_any_cycle.pinduct)
  case (1 adjacency node visiting visited)
  then show ?case by (auto simp: dfs_cycle.psimps split: prod.splits bool.splits)
next
  case (2 adjacency st)
  then show ?case by (simp add: any_cycle.psimps)
next
  case (3 adjacency neighbor neighbors st)
  obtain b st' where r: "dfs_cycle adjacency neighbor st = (b, st')" by (cases "dfs_cycle adjacency neighbor st")
  with 3(1,2) 3(3) [OF r [symmetric]] show ?case by (cases b) (auto simp: any_cycle.psimps)
qed

termination dfs_cycle
proof (relation "inv_image (less_than <*lex*> less_than) search_measure", goal_cases)
  case (2 adjacency node visiting visited)
  then show ?case by (intro search_descends)
next
  case (4 adjacency neighbor neighbors st b st')
  then have "fst st \<subseteq> fst st'" using dfs_visiting_grows(1) [of adjacency neighbor st] by (metis snd_conv)
  then show ?case by (rule search_advances)
qed (auto simp: search_measure_def)

section \<open>Correctness\<close>

definition edge_rel :: "'n adjacency \<Rightarrow> ('n \<times> 'n) set" where
  "edge_rel adjacency = {(a, b). b \<in> set (children adjacency a)}"

text \<open>The finished nodes are closed under successors, on no cycle and apart from the nodes on the stack.\<close>

definition sound :: "'n adjacency \<Rightarrow> 'n set \<times> 'n set \<Rightarrow> bool" where
  "sound adjacency st \<longleftrightarrow>
     fst st \<inter> snd st = {} \<and> (\<forall>a\<in>snd st. set (children adjacency a) \<subseteq> snd st) \<and>
     (\<forall>a\<in>snd st. (a, a) \<notin> (edge_rel adjacency)\<^sup>+)"

lemma closed_trancl:
  assumes "(a, b) \<in> (edge_rel adjacency)\<^sup>+" and "\<forall>a\<in>S. set (children adjacency a) \<subseteq> S" and "set (children adjacency a) \<subseteq> S"
  shows "b \<in> S"
  using assms by (induction rule: trancl_induct) (auto simp: edge_rel_def)

lemma sound_finish:
  assumes "sound adjacency (insert node visiting, done)" and "set (children adjacency node) \<subseteq> done" and "node \<notin> visiting"
  shows "sound adjacency (visiting, insert node done)"
proof -
  have "node \<notin> done" "\<forall>a\<in>done. set (children adjacency a) \<subseteq> done" using assms(1) by (auto simp: sound_def)
  then have "(node, node) \<notin> (edge_rel adjacency)\<^sup>+" using closed_trancl [of node node adjacency "done"] assms(2) by blast
  with assms show ?thesis by (auto simp: sound_def)
qed

lemma search_correct:
  "sound adjacency st \<Longrightarrow> \<forall>v\<in>fst st. (v, node) \<in> (edge_rel adjacency)\<^sup>+ \<Longrightarrow> visit adjacency node st = (b, st') \<Longrightarrow>
     (if b then fst st' = fst st \<and> sound adjacency st' \<and> insert node (snd st) \<subseteq> snd st'
      else \<exists>a. (a, a) \<in> (edge_rel adjacency)\<^sup>+)"
  "sound adjacency st \<Longrightarrow> \<forall>v\<in>fst st. \<forall>c\<in>set next. (v, c) \<in> (edge_rel adjacency)\<^sup>+ \<Longrightarrow> any_fails adjacency next st = (b, st') \<Longrightarrow>
     (if b then \<exists>a. (a, a) \<in> (edge_rel adjacency)\<^sup>+
      else fst st' = fst st \<and> sound adjacency st' \<and> set next \<union> snd st \<subseteq> snd st')"
proof (induction adjacency node st and adjacency "next" st arbitrary: b st' and b st' rule: visit_any_fails.induct)
  case (1 adjacency node visiting acyclic_nodes)
  consider "node \<in> acyclic_nodes" | "node \<notin> acyclic_nodes" "node \<in> visiting" | "node \<notin> acyclic_nodes" "node \<notin> visiting" by blast
  then show ?case
  proof cases
    case 3
    obtain f v d where r: "any_fails adjacency (children adjacency node) (insert node visiting, acyclic_nodes) = (f, (v, d))"
      by (metis prod.collapse)
    have "sound adjacency (insert node visiting, acyclic_nodes)" using 1(2) 3 by (auto simp: sound_def)
    moreover have "\<forall>v\<in>insert node visiting. \<forall>c\<in>set (children adjacency node). (v, c) \<in> (edge_rel adjacency)\<^sup>+"
      using 1(3) by (auto simp: edge_rel_def intro: trancl_into_trancl)
    ultimately have "if f then \<exists>a. (a, a) \<in> (edge_rel adjacency)\<^sup>+
        else v = insert node visiting \<and> sound adjacency (v, d) \<and> set (children adjacency node) \<union> acyclic_nodes \<subseteq> d"
      using 1(1) [OF 3 _ _ r] by (cases f) auto
    then show ?thesis using 1(4) 3 r sound_finish [of adjacency node visiting d] by (cases f) auto
  qed (use 1 in auto)
next
  case (3 adjacency child "next" st)
  obtain f st2 where r: "visit adjacency child st = (f, st2)" by (cases "visit adjacency child st")
  show ?case
  proof (cases f)
    case True
    with r 3(1) [of True st2] 3(3,4) have s: "fst st2 = fst st" "sound adjacency st2" "insert child (snd st) \<subseteq> snd st2" by auto
    have "any_fails adjacency next st2 = (b, st')" using 3(5) r True by simp
    with 3(2) [OF r [symmetric] _ s(2)] True s(1) 3(4)
    have "if b then \<exists>a. (a, a) \<in> (edge_rel adjacency)\<^sup>+
      else fst st' = fst st \<and> sound adjacency st' \<and> set next \<union> snd st2 \<subseteq> snd st'" by (cases b) simp_all
    with s(3) show ?thesis by (cases b) auto
  next
    case False
    with r 3(1) [of False st2] 3(3-5) show ?thesis by auto
  qed
qed auto

section \<open>Search from every key\<close>

fun visit_all :: "'n adjacency \<Rightarrow> 'n list \<Rightarrow> 'n set \<times> 'n set \<Rightarrow> bool" where
  "visit_all adjacency [] st = True"
| "visit_all adjacency (node # nodes) st =
     (case visit adjacency node st of (True, st) \<Rightarrow> visit_all adjacency nodes st | (False, _) \<Rightarrow> False)"

fun dfs_all :: "'n adjacency \<Rightarrow> 'n list \<Rightarrow> 'n set \<times> 'n set \<Rightarrow> bool" where
  "dfs_all adjacency [] st = False"
| "dfs_all adjacency (start # starts) (visiting, visited) =
     (if start \<in> visited then dfs_all adjacency starts (visiting, visited)
      else case dfs_cycle adjacency start ({}, visited) of
        (True, _) \<Rightarrow> True
      | (False, st) \<Rightarrow> dfs_all adjacency starts st)"

lemma visit_all_sound:
  "sound adjacency ({}, fin) \<Longrightarrow> visit_all adjacency nodes ({}, fin) \<Longrightarrow>
     \<exists>fin'. sound adjacency ({}, fin') \<and> set nodes \<union> fin \<subseteq> fin'"
proof (induction nodes arbitrary: fin)
  case (Cons node nodes)
  obtain b v d where r: "visit adjacency node ({}, fin) = (b, (v, d))" by (metis prod.collapse)
  with Cons.prems(2) have b: "b" by (cases b) auto
  with search_correct(1) [OF Cons.prems(1) _ r] have s: "v = {}" "sound adjacency ({}, d)" "insert node fin \<subseteq> d" by auto
  then have "visit_all adjacency nodes ({}, d)" using Cons.prems(2) r b by simp
  from Cons.IH [OF s(2) this] s(3) show ?case by auto
qed auto

lemma visit_all_fails:
  "sound adjacency ({}, fin) \<Longrightarrow> \<not> visit_all adjacency nodes ({}, fin) \<Longrightarrow> \<exists>a. (a, a) \<in> (edge_rel adjacency)\<^sup>+"
proof (induction nodes arbitrary: fin)
  case (Cons node nodes)
  obtain b v d where r: "visit adjacency node ({}, fin) = (b, (v, d))" by (metis prod.collapse)
  show ?case
  proof (cases b)
    case True
    with search_correct(1) [OF Cons.prems(1) _ r] have "v = {}" "sound adjacency ({}, d)" by auto
    with Cons.IH [of d] Cons.prems(2) r True show ?thesis by auto
  next
    case False
    with search_correct(1) [OF Cons.prems(1) _ r] show ?thesis by auto
  qed
qed auto

lemma visit_all_acyclic:
  assumes "fst ` set adjacency \<subseteq> set nodes"
  shows "visit_all adjacency nodes ({}, {}) \<longleftrightarrow> acyclic (edge_rel adjacency)"
proof
  have s: "sound adjacency ({}, {})" by (simp add: sound_def)
  assume "visit_all adjacency nodes ({}, {})"
  from visit_all_sound [OF s this] obtain fin where f: "sound adjacency ({}, fin)" "set nodes \<subseteq> fin" by auto
  show "acyclic (edge_rel adjacency)"
    unfolding acyclic_def
  proof (intro allI notI)
    fix a
    assume c: "(a, a) \<in> (edge_rel adjacency)\<^sup>+"
    then obtain b where "b \<in> set (children adjacency a)" by (auto simp: edge_rel_def dest: tranclD)
    then have "a \<in> fst ` set adjacency" using children_domain [of a adjacency] by (metis empty_iff list.set(1))
    with assms f(2) have "a \<in> fin" by blast
    with f(1) c show False by (auto simp: sound_def)
  qed
next
  assume "acyclic (edge_rel adjacency)"
  then show "visit_all adjacency nodes ({}, {})"
    using visit_all_fails [of adjacency "{}" nodes] by (auto simp: sound_def acyclic_def)
qed

text \<open>The search of the derivation ledger answers the opposite question with its tests in the other order. The two agree
  because no node is at once on the stack and finished.\<close>

lemma dfs_cycle_visit:
  "fst st \<inter> snd st = {} \<Longrightarrow>
     dfs_cycle adjacency node st = (\<not> fst (visit adjacency node st), snd (visit adjacency node st)) \<and>
     fst (snd (visit adjacency node st)) \<inter> snd (snd (visit adjacency node st)) = {}"
  "fst st \<inter> snd st = {} \<Longrightarrow>
     any_cycle adjacency next st = any_fails adjacency next st \<and>
     fst (snd (any_fails adjacency next st)) \<inter> snd (snd (any_fails adjacency next st)) = {}"
proof (induction adjacency node st and adjacency "next" st rule: visit_any_fails.induct)
  case (1 adjacency node visiting acyclic_nodes)
  obtain f v d where "any_fails adjacency (children adjacency node) (insert node visiting, acyclic_nodes) = (f, (v, d))"
    by (metis prod.collapse)
  with 1 show ?case by (cases f) (auto simp: disjoint_iff)
next
  case (3 adjacency child "next" st)
  obtain f st2 where "visit adjacency child st = (f, st2)" by (cases "visit adjacency child st")
  with 3 show ?case by (cases f) auto
qed auto

lemma dfs_all_visit_all:
  "sound adjacency ({}, fin) \<Longrightarrow> dfs_all adjacency nodes ({}, fin) \<longleftrightarrow> \<not> visit_all adjacency nodes ({}, fin)"
proof (induction nodes arbitrary: fin)
  case (Cons node nodes)
  obtain b v d where r: "visit adjacency node ({}, fin) = (b, (v, d))" by (metis prod.collapse)
  then have c: "dfs_cycle adjacency node ({}, fin) = (\<not> b, (v, d))" using dfs_cycle_visit(1) [of "({}, fin)" adjacency node] by simp
  show ?case
  proof (cases "node \<in> fin")
    case True
    with Cons show ?thesis by simp
  next
    case False
    show ?thesis
    proof (cases b)
      case True
      with search_correct(1) [OF Cons.prems _ r] have "v = {}" "sound adjacency ({}, d)" by auto
      with Cons.IH [of d] False True r c show ?thesis by simp
    qed (use False r c in simp)
  qed
qed simp

lemma dfs_all_acyclic:
  "fst ` set adjacency \<subseteq> set nodes \<Longrightarrow> dfs_all adjacency nodes ({}, {}) \<longleftrightarrow> \<not> acyclic (edge_rel adjacency)"
  using dfs_all_visit_all [of adjacency "{}" nodes] visit_all_acyclic [of adjacency nodes] by (simp add: sound_def)

section \<open>The map of the edges\<close>

lemma push_entry_keys: "fst ` set (push_entry k v adjacency) = insert k (fst ` set adjacency)"
  by (induction k v adjacency rule: push_entry.induct) auto

lemma push_entry_map:
  "map_of (push_entry k v adjacency) n =
     (if n = k then Some (children adjacency k @ [v]) else map_of adjacency n)"
  by (induction k v adjacency rule: push_entry.induct) (auto simp: children_def)

lemma edge_rel_push: "edge_rel (push_entry a b adjacency) = insert (a, b) (edge_rel adjacency)"
  by (auto simp: edge_rel_def children_def push_entry_map split: option.splits if_splits)

lemma adjacency_of_snoc: "adjacency_of (edges @ [(a, b)]) = push_entry a b (adjacency_of edges)"
  by (simp add: adjacency_of_def)

lemma edge_rel_adjacency [simp]: "edge_rel (adjacency_of edges) = set edges"
proof (induction edges rule: rev_induct)
  case (snoc e edges)
  then show ?case by (cases e) (simp add: adjacency_of_snoc edge_rel_push)
qed (simp add: adjacency_of_def edge_rel_def children_def)

lemma adjacency_keys [simp]: "fst ` set (adjacency_of edges) = fst ` set edges"
proof (induction edges rule: rev_induct)
  case (snoc e edges)
  then show ?case by (cases e) (simp add: adjacency_of_snoc push_entry_keys)
qed (simp add: adjacency_of_def)

end
