(* ===== verification/Supersession.thy ===== *)
theory Supersession
  imports Ledger Cycle_Search
begin

text \<open>
  \<open>crates/graphforge-knowledge/src/supersession.rs\<close>: the relation between a replaced assertion and its replacement,
  and the ledger of these relations, which is kept free of cycles.
\<close>

section \<open>Data\<close>

definition ASSERTION_SUPERSESSION_CONTRACT_VERSION :: "32 word" where
  "ASSERTION_SUPERSESSION_CONTRACT_VERSION = 1"

record supersession =
  su_supersession_uuid :: uuid
  su_prior_assertion_uuid :: uuid
  su_replacement_assertion_uuid :: uuid
  su_status_event_uuid :: uuid
  su_reasoning_uuid :: uuid
  su_provenance_uuid :: uuid
  su_recorded_at_micros :: "64 word"
  su_contract_version :: "32 word"

type_synonym supersession_ledger = "supersession list"

abbreviation supersession_key :: "supersession \<Rightarrow> int \<times> uuid" where
  "supersession_key \<equiv> ledger_key su_recorded_at_micros su_supersession_uuid"

section \<open>Validation\<close>

definition supersession_require_uuid :: "uuid \<Rightarrow> string \<Rightarrow> knowledge_error + unit" where
  "supersession_require_uuid value field = (if value = 0 then Inl (Invalid field ''must not be nil'') else Inr ())"

definition supersession_require_v7 :: "(uuid \<Rightarrow> bool) \<Rightarrow> uuid \<Rightarrow> string \<Rightarrow> knowledge_error + unit" where
  "supersession_require_v7 is_v7 value field =
     (if \<not> is_v7 value then Inl (Invalid field ''must be UUIDv7'') else supersession_require_uuid value field)"

fun require_each :: "(uuid \<Rightarrow> string \<Rightarrow> knowledge_error + unit) \<Rightarrow> (uuid \<times> string) list \<Rightarrow> knowledge_error + unit" where
  "require_each require [] = Inr ()"
| "require_each require ((value, field) # rest) = and_then (require value field) (\<lambda>_. require_each require rest)"

definition supersession_row_new :: "(uuid \<Rightarrow> bool) \<Rightarrow> uuid \<Rightarrow> uuid \<Rightarrow> uuid \<Rightarrow> uuid \<Rightarrow> uuid \<Rightarrow> uuid \<Rightarrow> 64 word \<Rightarrow> knowledge_error + supersession" where
  "supersession_row_new is_v7 supersession_uuid prior_assertion_uuid replacement_assertion_uuid status_event_uuid reasoning_uuid
     provenance_uuid recorded_at_micros =
     and_then (require_each (supersession_require_v7 is_v7)
       [(supersession_uuid, ''supersession_uuid''), (prior_assertion_uuid, ''prior_assertion_uuid''),
        (replacement_assertion_uuid, ''replacement_assertion_uuid''), (status_event_uuid, ''status_event_uuid''),
        (reasoning_uuid, ''reasoning_uuid'')]) (\<lambda>_.
     and_then (supersession_require_uuid provenance_uuid ''provenance_uuid'') (\<lambda>_.
     if prior_assertion_uuid = replacement_assertion_uuid
     then Inl (Invalid ''replacement_assertion_uuid'' ''must differ from prior_assertion_uuid'')
     else
       Inr \<lparr>su_supersession_uuid = supersession_uuid, su_prior_assertion_uuid = prior_assertion_uuid,
             su_replacement_assertion_uuid = replacement_assertion_uuid, su_status_event_uuid = status_event_uuid,
             su_reasoning_uuid = reasoning_uuid, su_provenance_uuid = provenance_uuid,
             su_recorded_at_micros = recorded_at_micros,
             su_contract_version = ASSERTION_SUPERSESSION_CONTRACT_VERSION\<rparr>))"

definition validate_relation :: "(uuid \<Rightarrow> bool) \<Rightarrow> supersession \<Rightarrow> knowledge_error + unit" where
  "validate_relation is_v7 row =
     (if su_contract_version row \<noteq> ASSERTION_SUPERSESSION_CONTRACT_VERSION
      then Inl (Invalid ''assertion_supersession.contract_version'' ''unsupported version'')
      else
        and_then
          (supersession_row_new is_v7 (su_supersession_uuid row) (su_prior_assertion_uuid row)
             (su_replacement_assertion_uuid row) (su_status_event_uuid row) (su_reasoning_uuid row)
             (su_provenance_uuid row) (su_recorded_at_micros row))
          (\<lambda>_. Inr ()))"

definition supersession_edges :: "supersession list \<Rightarrow> (uuid \<times> uuid) list" where
  "supersession_edges relations = map (\<lambda>row. (su_prior_assertion_uuid row, su_replacement_assertion_uuid row)) relations"

definition validate_acyclic :: "uuid hash_order \<Rightarrow> supersession list \<Rightarrow> knowledge_error + unit" where
  "validate_acyclic order relations =
     (let adjacency = adjacency_of (supersession_edges relations)
      in if visit_all adjacency (hash_keys order (map fst adjacency)) ({}, {}) then Inr ()
         else Inl (Invalid ''assertion_supersession'' ''cycle detected''))"

section \<open>The ledger\<close>

fun scan_relations :: "(uuid \<Rightarrow> bool) \<Rightarrow> supersession list \<Rightarrow> uuid set \<Rightarrow> uuid set \<Rightarrow> knowledge_error + unit" where
  "scan_relations is_v7 [] ids status_ids = Inr ()"
| "scan_relations is_v7 (relation # relations) ids status_ids =
     and_then (validate_relation is_v7 relation) (\<lambda>_.
     if su_supersession_uuid relation \<in> ids then Inl (Duplicate ''supersession_uuid'')
     else if su_status_event_uuid relation \<in> status_ids then Inl (Duplicate ''status_event_uuid'')
     else scan_relations is_v7 relations (insert (su_supersession_uuid relation) ids)
       (insert (su_status_event_uuid relation) status_ids))"

definition supersession_new :: "(uuid \<Rightarrow> bool) \<Rightarrow> uuid hash_order \<Rightarrow> supersession list \<Rightarrow> knowledge_error + supersession_ledger" where
  "supersession_new is_v7 order relations =
     (if length relations > MAX_KNOWLEDGE_ROWS
      then Inl (RowLimit ''assertion_supersessions'' (length relations) MAX_KNOWLEDGE_ROWS)
      else
        and_then (scan_relations is_v7 relations {} {}) (\<lambda>_.
        and_then (validate_acyclic order relations) (\<lambda>_.
        Inr (sort_key supersession_key relations))))"

definition supersession_merge :: "(uuid \<Rightarrow> bool) \<Rightarrow> uuid hash_order \<Rightarrow> supersession_ledger \<Rightarrow> supersession_ledger \<Rightarrow> knowledge_error + supersession_ledger" where
  "supersession_merge is_v7 order base staged =
     and_then
       (stage_by_id su_supersession_uuid ''supersession_uuid'' (\<lambda>_. Inr ())
          base (index_by su_supersession_uuid base) staged)
       (supersession_new is_v7 order)"

section \<open>Fingerprints\<close>

fun raw_each :: "uuid list \<Rightarrow> canonical_writer \<Rightarrow> canonical_error + canonical_writer" where
  "raw_each [] w = Inr w"
| "raw_each (value # rest) w = and_then (writer_raw (uuid_bytes value) w) (raw_each rest)"

definition relation_fingerprint_for_row :: "(byte list \<Rightarrow> byte list) \<Rightarrow> supersession \<Rightarrow> knowledge_error + byte list" where
  "relation_fingerprint_for_row sha256 row =
     from_canonical
       (and_then
          (raw_each [su_supersession_uuid row, su_prior_assertion_uuid row, su_replacement_assertion_uuid row,
                     su_status_event_uuid row, su_reasoning_uuid row, su_provenance_uuid row] writer_new) (\<lambda>w.
        and_then (writer_i64 (su_recorded_at_micros row) w) (\<lambda>w.
        and_then (writer_u32 (su_contract_version row) w) (\<lambda>w.
        fingerprint sha256 AssertionSupersession CANONICAL_CONTRACT_VERSION (writer_finish w)))))"

definition relation_fingerprint :: "(byte list \<Rightarrow> byte list) \<Rightarrow> supersession_ledger \<Rightarrow> uuid \<Rightarrow> knowledge_error + byte list" where
  "relation_fingerprint sha256 relations supersession_uuid =
     (case List.find (\<lambda>row. su_supersession_uuid row = supersession_uuid) relations of
        None \<Rightarrow> Inl (Dangling ''supersession_uuid'')
      | Some row \<Rightarrow> relation_fingerprint_for_row sha256 row)"

definition relation_fingerprints :: "(byte list \<Rightarrow> byte list) \<Rightarrow> supersession_ledger \<Rightarrow> knowledge_error + (uuid \<times> byte list) list" where
  "relation_fingerprints sha256 relations =
     collect_results (\<lambda>row. and_then (relation_fingerprint_for_row sha256 row) (\<lambda>fp. Inr (su_supersession_uuid row, fp))) relations"

section \<open>Accepted ledgers\<close>

lemma validate_acyclic_Inr:
  "validate_acyclic order relations = Inr y \<longleftrightarrow> acyclic (set (supersession_edges relations))"
  by (simp add: validate_acyclic_def Let_def visit_all_acyclic)

lemma scan_relations_Inr:
  "scan_relations is_v7 rows ids sids = Inr y \<longleftrightarrow>
     (\<forall>r\<in>set rows. validate_relation is_v7 r = Inr ()) \<and>
     distinct (map su_supersession_uuid rows) \<and> su_supersession_uuid ` set rows \<inter> ids = {} \<and>
     distinct (map su_status_event_uuid rows) \<and> su_status_event_uuid ` set rows \<inter> sids = {}"
  by (induction rows arbitrary: ids sids) auto

lemma supersession_new_Inr:
  "supersession_new is_v7 order relations = Inr l \<longleftrightarrow>
     length relations \<le> MAX_KNOWLEDGE_ROWS \<and> (\<forall>r\<in>set relations. validate_relation is_v7 r = Inr ()) \<and>
     distinct (map su_supersession_uuid relations) \<and> distinct (map su_status_event_uuid relations) \<and>
     acyclic (set (supersession_edges relations)) \<and> l = sort_key supersession_key relations"
  by (auto simp: supersession_new_def scan_relations_Inr validate_acyclic_Inr)

lemma supersession_edges_set:
  "set rows = set rows' \<Longrightarrow> set (supersession_edges rows) = set (supersession_edges rows')"
  by (simp add: supersession_edges_def)

interpretation supersessions: staged_ledger su_supersession_uuid su_recorded_at_micros "''supersession_uuid''"
  "supersession_new is_v7 order" "supersession_merge is_v7 order" for is_v7 order
proof
  show "distinct (map su_supersession_uuid rows) \<and> l = sort_key supersession_key rows"
    if "supersession_new is_v7 order rows = Inr l" for rows l
    using that by (simp add: supersession_new_Inr)
  show "\<exists>l'. supersession_new is_v7 order rows' = Inr l'"
    if "supersession_new is_v7 order rows = Inr l" "distinct rows'" "set rows' = set rows" for rows rows' l
  proof -
    have "distinct rows" using that(1) by (auto simp: supersession_new_Inr distinct_map)
    then have "length rows' = length rows" using that(2,3) by (metis distinct_card)
    with that supersession_edges_set [OF that(3)] show ?thesis by (auto simp: supersession_new_Inr distinct_map)
  qed
qed (simp add: supersession_merge_def)

section \<open>Payload\<close>

definition relation_payload :: "supersession \<Rightarrow> byte list" where
  "relation_payload row =
     uuid_bytes (su_supersession_uuid row) @ uuid_bytes (su_prior_assertion_uuid row) @
     uuid_bytes (su_replacement_assertion_uuid row) @ uuid_bytes (su_status_event_uuid row) @
     uuid_bytes (su_reasoning_uuid row) @ uuid_bytes (su_provenance_uuid row) @
     be_bytes 8 (unat (su_recorded_at_micros row)) @ be_bytes 4 (unat (su_contract_version row))"

lemma relation_payload_inj: "relation_payload r = relation_payload s \<longleftrightarrow> r = s"
  by (auto simp add: relation_payload_def payload be_bytes_word_inj intro: supersession.equality)

lemma relation_fingerprint_eq:
  "relation_fingerprint_for_row sha256 row =
     Inr (sha256 (preimage_bytes AssertionSupersession CANONICAL_CONTRACT_VERSION (relation_payload row)))"
  by (simp add: relation_fingerprint_for_row_def payload writer_fits relation_payload_def MAX_CANONICAL_PAYLOAD_BYTES_def
      from_canonical_def)

section \<open>Properties\<close>

definition sample_relation :: "uuid \<Rightarrow> uuid \<Rightarrow> uuid \<Rightarrow> 64 word \<Rightarrow> supersession" where
  "sample_relation i a b t = \<lparr>su_supersession_uuid = i, su_prior_assertion_uuid = a, su_replacement_assertion_uuid = b,
     su_status_event_uuid = i + 100, su_reasoning_uuid = 7, su_provenance_uuid = 9, su_recorded_at_micros = t,
     su_contract_version = 1\<rparr>"

lemmas supersession_eval = sample_relation_def supersession_new_def validate_relation_def supersession_row_new_def
  supersession_require_v7_def supersession_require_uuid_def ASSERTION_SUPERSESSION_CONTRACT_VERSION_def
  MAX_KNOWLEDGE_ROWS_def ledger_key_def supersession_merge_def index_by_def validate_acyclic_def supersession_edges_def
  adjacency_of_def children_def insertion_order.rep_eq and_then_def less_eq_prod_def less_prod_def

text \<open>C4. The search for cycles always terminates, and it accepts a list of relations exactly when the relation from an
  assertion to its replacements has no cycle, in whatever order the hash map yields its keys. The constructor
  accepts exactly the lists of valid relations with distinct identities and distinct status events, within the row
  limit, that are free of cycles, and sorts them.\<close>

theorem supersessions_acyclic:
  "validate_acyclic order relations =
     (if acyclic (set (supersession_edges relations)) then Inr ()
      else Inl (Invalid ''assertion_supersession'' ''cycle detected'')) \<and>
   (supersession_new is_v7 order relations = Inr l \<longleftrightarrow>
     length relations \<le> MAX_KNOWLEDGE_ROWS \<and> (\<forall>r\<in>set relations. validate_relation is_v7 r = Inr ()) \<and>
     distinct (map su_supersession_uuid relations) \<and> distinct (map su_status_event_uuid relations) \<and>
     acyclic (set (supersession_edges relations)) \<and> l = sort_key supersession_key relations)"
  by (simp add: supersession_new_Inr) (simp add: validate_acyclic_def Let_def visit_all_acyclic)

theorem supersessions_acyclic_witness:
  "acyclic (set (supersession_edges [sample_relation 1 3 4 0, sample_relation 2 1 3 5, sample_relation 3 1 2 2])) \<and>
   \<not> acyclic (set (supersession_edges [sample_relation 1 1 2 0, sample_relation 2 2 1 5]))"
proof
  let ?a = "[sample_relation 1 3 4 0, sample_relation 2 1 3 5, sample_relation 3 1 2 2]"
  let ?b = "[sample_relation 1 1 2 0, sample_relation 2 2 1 5]"
  have "validate_acyclic insertion_order ?a = Inr ()" by (simp add: supersession_eval)
  then show "acyclic (set (supersession_edges ?a))"
    using supersessions_acyclic [of insertion_order ?a, THEN conjunct1] by (metis Inl_Inr_False)
  have "validate_acyclic insertion_order ?b \<noteq> Inr ()" by (simp add: supersession_eval)
  then show "\<not> acyclic (set (supersession_edges ?b))"
    using supersessions_acyclic [of insertion_order ?b, THEN conjunct1] by metis
qed

end
