(* ===== verification/Derivation.thy ===== *)
theory Derivation
  imports Ledger Cycle_Search
begin

text \<open>
  \<open>crates/graphforge-knowledge/src/derivation.rs\<close>: the edge from an input of a derivation to its output, whose
  identity is computed from its content, and the ledger of these edges, which is kept free of cycles and of repeated
  ordinals.
\<close>

section \<open>Data\<close>

definition ARTIFACT_DERIVATION_CONTRACT_VERSION :: "32 word" where
  "ARTIFACT_DERIVATION_CONTRACT_VERSION = 1"

datatype derivation_subject_kind =
  SourceSubject | ArtifactSubject | NodeSubject | EdgeSubject | AssertionSubject | EvidenceLinkSubject | AlgorithmRunSubject

fun subject_kind_as_str :: "derivation_subject_kind \<Rightarrow> string" where
  "subject_kind_as_str SourceSubject = ''source''"
| "subject_kind_as_str ArtifactSubject = ''artifact''"
| "subject_kind_as_str NodeSubject = ''node''"
| "subject_kind_as_str EdgeSubject = ''edge''"
| "subject_kind_as_str AssertionSubject = ''assertion''"
| "subject_kind_as_str EvidenceLinkSubject = ''evidence_link''"
| "subject_kind_as_str AlgorithmRunSubject = ''algorithm_run''"

definition subject_kind_parse :: "string \<Rightarrow> knowledge_error + derivation_subject_kind" where
  "subject_kind_parse value =
     (if value = ''source'' then Inr SourceSubject
      else if value = ''artifact'' then Inr ArtifactSubject
      else if value = ''node'' then Inr NodeSubject
      else if value = ''edge'' then Inr EdgeSubject
      else if value = ''assertion'' then Inr AssertionSubject
      else if value = ''evidence_link'' then Inr EvidenceLinkSubject
      else if value = ''algorithm_run'' then Inr AlgorithmRunSubject
      else Inl (Invalid ''derivation_subject_kind'' ''unknown closed value''))"

datatype derivation_role = InputRole

fun role_as_str :: "derivation_role \<Rightarrow> string" where
  "role_as_str InputRole = ''input''"

definition role_parse :: "string \<Rightarrow> knowledge_error + derivation_role" where
  "role_parse value =
     (if value = ''input'' then Inr InputRole else Inl (Invalid ''derivation_role'' ''unknown closed value''))"

record derivation =
  ad_derivation_uuid :: uuid
  ad_output_uuid :: uuid
  ad_output_kind :: derivation_subject_kind
  ad_input_uuid :: uuid
  ad_input_kind :: derivation_subject_kind
  ad_derivation_role :: derivation_role
  ad_ordinal :: "32 word"
  ad_provenance_uuid :: uuid
  ad_recorded_at_micros :: "64 word"
  ad_contract_version :: "32 word"

type_synonym derivation_ledger = "derivation list"

type_synonym subject = "uuid \<times> derivation_subject_kind"

abbreviation derivation_key :: "derivation \<Rightarrow> int \<times> uuid" where
  "derivation_key \<equiv> ledger_key ad_recorded_at_micros ad_derivation_uuid"

section \<open>Validation\<close>

definition derivation_identity_uuid :: "(byte list \<Rightarrow> byte list) \<Rightarrow> uuid \<Rightarrow> derivation_subject_kind \<Rightarrow> uuid \<Rightarrow> derivation_subject_kind \<Rightarrow> derivation_role \<Rightarrow> 32 word \<Rightarrow> knowledge_error + uuid" where
  "derivation_identity_uuid sha256 output_uuid output_kind input_uuid input_kind derivation_role ordinal =
     from_canonical
       (and_then (writer_raw (uuid_bytes output_uuid) writer_new) (\<lambda>w.
        and_then (writer_text (str_bytes (subject_kind_as_str output_kind)) w) (\<lambda>w.
        and_then (writer_raw (uuid_bytes input_uuid) w) (\<lambda>w.
        and_then (writer_text (str_bytes (subject_kind_as_str input_kind)) w) (\<lambda>w.
        and_then (writer_text (str_bytes (role_as_str derivation_role)) w) (\<lambda>w.
        and_then (writer_u32 ordinal w) (\<lambda>w.
        and_then (fingerprint sha256 ArtifactDerivation ARTIFACT_DERIVATION_CONTRACT_VERSION (writer_finish w)) (\<lambda>digest.
        Inr (uuid_from_bytes (uuid_v8 digest))))))))))"

definition validate_derivation :: "(byte list \<Rightarrow> byte list) \<Rightarrow> derivation \<Rightarrow> knowledge_error + unit" where
  "validate_derivation sha256 row =
     (if ad_contract_version row \<noteq> ARTIFACT_DERIVATION_CONTRACT_VERSION
      then Inl (Invalid ''derivation.contract_version'' ''unsupported version'')
      else
        and_then (require_uuid (ad_derivation_uuid row) ''derivation_uuid'') (\<lambda>_.
        and_then (require_uuid (ad_output_uuid row) ''output_uuid'') (\<lambda>_.
        and_then (require_uuid (ad_input_uuid row) ''input_uuid'') (\<lambda>_.
        and_then (require_uuid (ad_provenance_uuid row) ''provenance_uuid'') (\<lambda>_.
        if ad_output_uuid row = ad_input_uuid row \<and> ad_output_kind row = ad_input_kind row
        then Inl (Invalid ''derivation'' ''self-loop is forbidden'')
        else
          and_then (derivation_identity_uuid sha256 (ad_output_uuid row) (ad_output_kind row) (ad_input_uuid row)
                      (ad_input_kind row) (ad_derivation_role row) (ad_ordinal row)) (\<lambda>expected.
          if ad_derivation_uuid row \<noteq> expected then Inl (Invalid ''derivation_uuid'' ''identity mismatch'')
          else Inr ()))))))"

definition derivation_row_new :: "(byte list \<Rightarrow> byte list) \<Rightarrow> uuid \<Rightarrow> derivation_subject_kind \<Rightarrow> uuid \<Rightarrow> derivation_subject_kind \<Rightarrow> derivation_role \<Rightarrow> 32 word \<Rightarrow> uuid \<Rightarrow> 64 word \<Rightarrow> knowledge_error + derivation" where
  "derivation_row_new sha256 output_uuid output_kind input_uuid input_kind derivation_role ordinal provenance_uuid recorded_at_micros =
     and_then (derivation_identity_uuid sha256 output_uuid output_kind input_uuid input_kind derivation_role ordinal) (\<lambda>derivation_uuid.
     let row = \<lparr>ad_derivation_uuid = derivation_uuid, ad_output_uuid = output_uuid, ad_output_kind = output_kind,
                ad_input_uuid = input_uuid, ad_input_kind = input_kind, ad_derivation_role = derivation_role,
                ad_ordinal = ordinal, ad_provenance_uuid = provenance_uuid, ad_recorded_at_micros = recorded_at_micros,
                ad_contract_version = ARTIFACT_DERIVATION_CONTRACT_VERSION\<rparr>
     in and_then (validate_derivation sha256 row) (\<lambda>_. Inr row))"

definition output_of :: "derivation \<Rightarrow> subject" where
  "output_of row = (ad_output_uuid row, ad_output_kind row)"

definition input_of :: "derivation \<Rightarrow> subject" where
  "input_of row = (ad_input_uuid row, ad_input_kind row)"

definition detect_cycles :: "subject hash_order \<Rightarrow> derivation list \<Rightarrow> knowledge_error + unit" where
  "detect_cycles order derivations =
     (let adjacency = adjacency_of (map (\<lambda>row. (input_of row, output_of row)) derivations)
      in if dfs_all adjacency (hash_keys order (map fst adjacency)) ({}, {})
         then Inl (Invalid ''derivation'' ''cycle detected'') else Inr ())"

text \<open>The ordinals of each output, in a map from the output to the set of its ordinals.\<close>

definition ordinals_by_output :: "derivation list \<Rightarrow> subject \<rightharpoonup> 32 word set" where
  "ordinals_by_output derivations =
     foldl (\<lambda>m row. m(output_of row \<mapsto> insert (ad_ordinal row) (case m (output_of row) of None \<Rightarrow> {} | Some s \<Rightarrow> s)))
       Map.empty derivations"

definition ordinals_repeat :: "derivation list \<Rightarrow> subject \<Rightarrow> bool" where
  "ordinals_repeat derivations output =
     (case ordinals_by_output derivations output of
        None \<Rightarrow> False
      | Some seen \<Rightarrow> card seen \<noteq> length (filter (\<lambda>row. output_of row = output) derivations))"

definition validate_derivations :: "(byte list \<Rightarrow> byte list) \<Rightarrow> subject hash_order \<Rightarrow> derivation list \<Rightarrow> knowledge_error + unit" where
  "validate_derivations sha256 order derivations =
     and_then (check_limit ''artifact_derivations'' (length derivations)) (\<lambda>_.
     and_then (scan_unique (validate_derivation sha256) ad_derivation_uuid ''derivation_uuid'' derivations {}) (\<lambda>_.
     if list_ex (ordinals_repeat derivations) (hash_keys order (remdups (map output_of derivations)))
     then Inl (Duplicate ''ordinal'')
     else and_then (detect_cycles order derivations) (\<lambda>_. Inr ())))"

section \<open>The ledger\<close>

definition derivation_new :: "(byte list \<Rightarrow> byte list) \<Rightarrow> subject hash_order \<Rightarrow> derivation list \<Rightarrow> knowledge_error + derivation_ledger" where
  "derivation_new sha256 order derivations =
     (let derivations = sort_key derivation_key derivations
      in and_then (validate_derivations sha256 order derivations) (\<lambda>_. Inr derivations))"

definition derivation_merge :: "(byte list \<Rightarrow> byte list) \<Rightarrow> subject hash_order \<Rightarrow> derivation_ledger \<Rightarrow> derivation_ledger \<Rightarrow> knowledge_error + derivation_ledger" where
  "derivation_merge sha256 order base staged =
     and_then (stage_by_find ad_derivation_uuid ''derivation_uuid'' base staged) (derivation_new sha256 order)"

section \<open>Accepted ledgers\<close>

lemma ordinals_by_output_eq:
  "ordinals_by_output ds out =
     (if out \<in> output_of ` set ds then Some (ad_ordinal ` {r \<in> set ds. output_of r = out}) else None)"
proof (induction ds rule: rev_induct)
  case Nil
  show ?case by (simp add: ordinals_by_output_def)
next
  case (snoc d ds)
  have s: "ordinals_by_output (ds @ [d]) out =
      (if out = output_of d then Some (insert (ad_ordinal d) (case ordinals_by_output ds (output_of d) of None \<Rightarrow> {} | Some s \<Rightarrow> s))
       else ordinals_by_output ds out)" by (simp add: ordinals_by_output_def)
  show ?case
  proof (cases "out = output_of d")
    case True
    show ?thesis
    proof (cases "output_of d \<in> output_of ` set ds")
      case True
      with snoc \<open>out = output_of d\<close> show ?thesis unfolding s by auto
    next
      case False
      then have "{r \<in> set ds. output_of r = output_of d} = {}" by (metis (mono_tags, lifting) Collect_empty_eq image_eqI)
      then have "{r \<in> set (ds @ [d]). output_of r = output_of d} = {d}" by auto
      with False snoc \<open>out = output_of d\<close> show ?thesis unfolding s by simp
    qed
  next
    case False
    with snoc show ?thesis unfolding s by auto
  qed
qed

lemma ordinals_repeat_iff:
  "ordinals_repeat ds out \<longleftrightarrow> \<not> distinct (map ad_ordinal (filter (\<lambda>r. output_of r = out) ds))"
proof (cases "out \<in> output_of ` set ds")
  case True
  then show ?thesis
    using distinct_card [of "map ad_ordinal (filter (\<lambda>r. output_of r = out) ds)"]
      card_distinct [of "map ad_ordinal (filter (\<lambda>r. output_of r = out) ds)"]
    by (auto simp: ordinals_repeat_def ordinals_by_output_eq)
next
  case False
  then have "filter (\<lambda>r. output_of r = out) ds = []" by (auto simp: filter_empty_conv)
  with False show ?thesis by (simp add: ordinals_repeat_def ordinals_by_output_eq)
qed

lemma ordinals_distinct_iff:
  "distinct ds \<Longrightarrow> (\<forall>out\<in>output_of ` set ds. \<not> ordinals_repeat ds out) \<longleftrightarrow> inj_on (\<lambda>r. (output_of r, ad_ordinal r)) (set ds)"
  unfolding ordinals_repeat_iff distinct_map inj_on_def by simp metis

lemma detect_cycles_Inr:
  "detect_cycles order ds = Inr y \<longleftrightarrow> acyclic ((\<lambda>r. (input_of r, output_of r)) ` set ds)"
  by (simp add: detect_cycles_def Let_def dfs_all_acyclic)

lemma validate_derivations_Inr:
  "validate_derivations sha256 order ds = Inr y \<longleftrightarrow>
     length ds \<le> MAX_KNOWLEDGE_ROWS \<and> (\<forall>r\<in>set ds. validate_derivation sha256 r = Inr ()) \<and>
     distinct (map ad_derivation_uuid ds) \<and> inj_on (\<lambda>r. (output_of r, ad_ordinal r)) (set ds) \<and>
     acyclic ((\<lambda>r. (input_of r, output_of r)) ` set ds)"
proof -
  have "distinct (map ad_derivation_uuid ds) \<Longrightarrow> distinct ds" by (simp add: distinct_map)
  with ordinals_distinct_iff [of ds] show ?thesis
    by (auto simp: validate_derivations_def scan_unique_Inr detect_cycles_Inr list_ex_iff split: if_splits)
qed

lemma derivation_new_Inr:
  "derivation_new sha256 order ds = Inr l \<longleftrightarrow>
     length ds \<le> MAX_KNOWLEDGE_ROWS \<and> (\<forall>r\<in>set ds. validate_derivation sha256 r = Inr ()) \<and>
     distinct (map ad_derivation_uuid ds) \<and> inj_on (\<lambda>r. (output_of r, ad_ordinal r)) (set ds) \<and>
     acyclic ((\<lambda>r. (input_of r, output_of r)) ` set ds) \<and> l = sort_key derivation_key ds"
  by (auto simp: derivation_new_def Let_def validate_derivations_Inr distinct_map)

interpretation derivations: staged_ledger ad_derivation_uuid ad_recorded_at_micros "''derivation_uuid''"
  "derivation_new sha256 order" "derivation_merge sha256 order" for sha256 order
proof
  show "distinct (map ad_derivation_uuid rows) \<and> l = sort_key derivation_key rows"
    if "derivation_new sha256 order rows = Inr l" for rows l
    using that by (simp add: derivation_new_Inr)
  show "\<exists>l'. derivation_new sha256 order rows' = Inr l'"
    if "derivation_new sha256 order rows = Inr l" "distinct rows'" "set rows' = set rows" for rows rows' l
  proof -
    have "distinct rows" using that(1) by (auto simp: derivation_new_Inr distinct_map)
    then have "length rows' = length rows" using that(2,3) by (metis distinct_card)
    with that show ?thesis by (auto simp: derivation_new_Inr distinct_map)
  qed
qed (simp add: derivation_merge_def stage_by_find_index)

section \<open>Derived identities\<close>

lemma from_be_eq_0: "from_be bs = 0 \<longleftrightarrow> (\<forall>b\<in>set bs. b = 0)"
  by (induction bs) (simp_all add: from_be_Cons unat_eq_zero)

lemma from_be_less: "from_be bs < 256 ^ length bs"
proof (induction bs)
  case (Cons b bs)
  have "unat b < 2 ^ LENGTH(8)" by (rule unsigned_less)
  then have "unat b + 1 \<le> 256" by simp
  then have "(unat b + 1) * 256 ^ length bs \<le> 256 * 256 ^ length bs" by (intro mult_right_mono) auto
  then have "unat b * 256 ^ length bs + 256 ^ length bs \<le> 256 ^ length (b # bs)" by (simp add: algebra_simps)
  with Cons show ?case unfolding from_be_Cons by linarith
qed simp

lemma uuid_v8_not_nil:
  assumes "length digest = 32"
  shows "uuid_from_bytes (uuid_v8 digest) \<noteq> 0"
proof -
  define bs where "bs = uuid_v8 digest"
  have l: "length bs = 16" using assms by (simp add: bs_def uuid_v8_def Let_def)
  have "bs ! 6 = (digest ! 6 AND 0x0f) OR 0x80" using assms by (simp add: bs_def uuid_v8_def Let_def)
  then have "bs ! 6 AND 0xf0 = 0x80" by (simp only: uuid_bits)
  then have "bs ! 6 \<noteq> 0" by auto
  moreover have "bs ! 6 \<in> set bs" using l by simp
  ultimately have "from_be bs \<noteq> 0" by (auto simp: from_be_eq_0)
  moreover have "from_be bs < 2 ^ 128" using from_be_less [of bs] l by simp
  ultimately have "unat (word_of_nat (from_be bs) :: uuid) \<noteq> 0" by (simp add: unat_of_nat)
  then show ?thesis by (auto simp: uuid_from_bytes_def bs_def)
qed

definition identity_payload :: "uuid \<Rightarrow> derivation_subject_kind \<Rightarrow> uuid \<Rightarrow> derivation_subject_kind \<Rightarrow> derivation_role \<Rightarrow> 32 word \<Rightarrow> byte list" where
  "identity_payload output_uuid output_kind input_uuid input_kind role ordinal =
     uuid_bytes output_uuid @ put_text (str_bytes (subject_kind_as_str output_kind)) @ uuid_bytes input_uuid @
     put_text (str_bytes (subject_kind_as_str input_kind)) @ put_text (str_bytes (role_as_str role)) @
     be_bytes 4 (unat ordinal)"

lemma subject_kind_length: "length (subject_kind_as_str k) \<le> 13"
  by (cases k) simp_all

lemma subject_kind_inj: "subject_kind_as_str k = subject_kind_as_str k' \<longleftrightarrow> k = k'"
  by (cases k; cases k') simp_all

lemma role_length: "length (role_as_str r) = 5"
  by (cases r) simp

lemma derivation_identity_eq:
  "derivation_identity_uuid sha256 output_uuid output_kind input_uuid input_kind role ordinal =
     Inr (uuid_from_bytes (uuid_v8 (sha256 (preimage_bytes ArtifactDerivation 1
       (identity_payload output_uuid output_kind input_uuid input_kind role ordinal)))))"
  using subject_kind_length [of output_kind] subject_kind_length [of input_kind] fingerprint_fits [unfolded CANONICAL_CONTRACT_VERSION_def]
  by (simp add: derivation_identity_uuid_def payload writer_fits identity_payload_def MAX_CANONICAL_PAYLOAD_BYTES_def
      MAX_CANONICAL_TEXT_BYTES_def from_canonical_def role_length ARTIFACT_DERIVATION_CONTRACT_VERSION_def)

lemma identity_payload_inj:
  "identity_payload o1 ok1 i1 ik1 r1 n1 = identity_payload o2 ok2 i2 ik2 r2 n2 \<longleftrightarrow>
     o1 = o2 \<and> ok1 = ok2 \<and> i1 = i2 \<and> ik1 = ik2 \<and> r1 = r2 \<and> n1 = n2"
  using subject_kind_length [of ok1] subject_kind_length [of ok2] subject_kind_length [of ik1] subject_kind_length [of ik2]
  by (cases r1; cases r2)
    (auto simp: identity_payload_def payload str_bytes_inj subject_kind_inj role_length be_bytes_word_inj)

lemma validate_derivation_Inr:
  "validate_derivation sha256 r = Inr y \<longleftrightarrow>
     ad_contract_version r = 1 \<and> ad_derivation_uuid r \<noteq> 0 \<and> ad_output_uuid r \<noteq> 0 \<and> ad_input_uuid r \<noteq> 0 \<and>
     ad_provenance_uuid r \<noteq> 0 \<and> output_of r \<noteq> input_of r \<and>
     ad_derivation_uuid r = uuid_from_bytes (uuid_v8 (sha256 (preimage_bytes ArtifactDerivation 1
       (identity_payload (ad_output_uuid r) (ad_output_kind r) (ad_input_uuid r) (ad_input_kind r) (ad_derivation_role r) (ad_ordinal r)))))"
  by (auto simp: validate_derivation_def derivation_identity_eq output_of_def input_of_def
      ARTIFACT_DERIVATION_CONTRACT_VERSION_def)

lemma derivation_row_new_Inr:
  assumes "\<And>b. length (sha256 b) = 32"
  shows "(\<exists>row. derivation_row_new sha256 out ok inp ik role n prov t = Inr row) \<longleftrightarrow>
    out \<noteq> 0 \<and> inp \<noteq> 0 \<and> prov \<noteq> 0 \<and> (out, ok) \<noteq> (inp, ik)"
  using uuid_v8_not_nil [OF assms]
  by (auto simp: derivation_row_new_def derivation_identity_eq Let_def validate_derivation_Inr output_of_def input_of_def
      ARTIFACT_DERIVATION_CONTRACT_VERSION_def)

lemma derivation_row_new_row:
  "derivation_row_new sha256 out ok inp ik role n prov t = Inr r \<longleftrightarrow>
     validate_derivation sha256 r = Inr () \<and> output_of r = (out, ok) \<and> input_of r = (inp, ik) \<and>
     ad_derivation_role r = role \<and> ad_ordinal r = n \<and> ad_provenance_uuid r = prov \<and> ad_recorded_at_micros r = t"
  by (cases r) (auto simp: derivation_row_new_def derivation_identity_eq Let_def validate_derivation_Inr output_of_def input_of_def
      ARTIFACT_DERIVATION_CONTRACT_VERSION_def)

section \<open>Properties\<close>

text \<open>A row whose identity is that of a digest of zeros.\<close>

definition sample_derivation :: derivation where
  "sample_derivation = \<lparr>ad_derivation_uuid = uuid_from_bytes (uuid_v8 (replicate 32 0)), ad_output_uuid = 1,
     ad_output_kind = ArtifactSubject, ad_input_uuid = 1, ad_input_kind = SourceSubject, ad_derivation_role = InputRole,
     ad_ordinal = 0, ad_provenance_uuid = 2, ad_recorded_at_micros = 5, ad_contract_version = 1\<rparr>"

text \<open>The bytes the identity of a row is the digest of.\<close>

definition identity_preimage :: "derivation \<Rightarrow> byte list" where
  "identity_preimage r = preimage_bytes ArtifactDerivation 1
     (identity_payload (ad_output_uuid r) (ad_output_kind r) (ad_input_uuid r) (ad_input_kind r) (ad_derivation_role r) (ad_ordinal r))"

lemma identity_preimage_inj:
  "identity_preimage r = identity_preimage s \<longleftrightarrow>
     output_of r = output_of s \<and> input_of r = input_of s \<and> ad_derivation_role r = ad_derivation_role s \<and> ad_ordinal r = ad_ordinal s"
proof
  assume "identity_preimage r = identity_preimage s"
  from preimage_bytes_inj(2) [OF this [unfolded identity_preimage_def]] show "output_of r = output_of s \<and> input_of r = input_of s \<and>
      ad_derivation_role r = ad_derivation_role s \<and> ad_ordinal r = ad_ordinal s"
    by (simp add: identity_payload_inj output_of_def input_of_def)
qed (simp add: identity_preimage_def output_of_def input_of_def)

lemma valid_identity:
  "validate_derivation sha256 r = Inr () \<Longrightarrow> ad_derivation_uuid r = uuid_from_bytes (uuid_v8 (sha256 (identity_preimage r)))"
  by (simp add: validate_derivation_Inr identity_preimage_def)

text \<open>C22. The identity of a derivation binds its content. With a 32-byte digest, the constructor makes a row for every edge
  between two different subjects with no nil identifier, and the rows it makes are exactly the valid rows with the given
  content. If two valid rows have the same identity, then their output, input, role and ordinal are the same, or the byte
  strings that these two rows are hashed as are different and the digest of both gives the same UUID: the identity has no
  other way to be ambiguous than a collision of the digest on the two rows themselves.\<close>

theorem derivation_identity_binds:
  assumes "\<forall>b. length (sha256 b) = 32"
  shows "((\<exists>row. derivation_row_new sha256 output_uuid output_kind input_uuid input_kind role ordinal provenance_uuid time = Inr row) \<longleftrightarrow>
      output_uuid \<noteq> 0 \<and> input_uuid \<noteq> 0 \<and> provenance_uuid \<noteq> 0 \<and> (output_uuid, output_kind) \<noteq> (input_uuid, input_kind)) \<and>
    (derivation_row_new sha256 output_uuid output_kind input_uuid input_kind role ordinal provenance_uuid time = Inr r \<longleftrightarrow>
      validate_derivation sha256 r = Inr () \<and> output_of r = (output_uuid, output_kind) \<and> input_of r = (input_uuid, input_kind) \<and>
      ad_derivation_role r = role \<and> ad_ordinal r = ordinal \<and> ad_provenance_uuid r = provenance_uuid \<and> ad_recorded_at_micros r = time) \<and>
    (validate_derivation sha256 r = Inr () \<and> validate_derivation sha256 s = Inr () \<and> ad_derivation_uuid r = ad_derivation_uuid s \<longrightarrow>
      (output_of r = output_of s \<and> input_of r = input_of s \<and> ad_derivation_role r = ad_derivation_role s \<and> ad_ordinal r = ad_ordinal s) \<or>
      identity_preimage r \<noteq> identity_preimage s \<and>
      uuid_from_bytes (uuid_v8 (sha256 (identity_preimage r))) = uuid_from_bytes (uuid_v8 (sha256 (identity_preimage s))))"
proof (intro conjI)
  show "(\<exists>row. derivation_row_new sha256 output_uuid output_kind input_uuid input_kind role ordinal provenance_uuid time = Inr row) \<longleftrightarrow>
      output_uuid \<noteq> 0 \<and> input_uuid \<noteq> 0 \<and> provenance_uuid \<noteq> 0 \<and> (output_uuid, output_kind) \<noteq> (input_uuid, input_kind)"
    using assms by (intro derivation_row_new_Inr) simp
  show "derivation_row_new sha256 output_uuid output_kind input_uuid input_kind role ordinal provenance_uuid time = Inr r \<longleftrightarrow>
      validate_derivation sha256 r = Inr () \<and> output_of r = (output_uuid, output_kind) \<and> input_of r = (input_uuid, input_kind) \<and>
      ad_derivation_role r = role \<and> ad_ordinal r = ordinal \<and> ad_provenance_uuid r = provenance_uuid \<and> ad_recorded_at_micros r = time"
    by (rule derivation_row_new_row)
  show "validate_derivation sha256 r = Inr () \<and> validate_derivation sha256 s = Inr () \<and> ad_derivation_uuid r = ad_derivation_uuid s \<longrightarrow>
      (output_of r = output_of s \<and> input_of r = input_of s \<and> ad_derivation_role r = ad_derivation_role s \<and> ad_ordinal r = ad_ordinal s) \<or>
      identity_preimage r \<noteq> identity_preimage s \<and>
      uuid_from_bytes (uuid_v8 (sha256 (identity_preimage r))) = uuid_from_bytes (uuid_v8 (sha256 (identity_preimage s)))"
    using identity_preimage_inj [of r s] valid_identity [of sha256 r] valid_identity [of sha256 s] by auto
qed

text \<open>With a digest that takes the last bytes, both of two edges that differ only in the ordinal have a row, and the rows are
  hashed as different byte strings.\<close>

theorem derivation_identity_binds_witness:
  "\<exists>r s. derivation_row_new (\<lambda>b. take 32 (rev b @ replicate 32 0)) 1 ArtifactSubject 1 SourceSubject InputRole 0 2 5 = Inr r \<and>
     derivation_row_new (\<lambda>b. take 32 (rev b @ replicate 32 0)) 1 ArtifactSubject 1 SourceSubject InputRole 7 2 5 = Inr s \<and>
     validate_derivation (\<lambda>b. take 32 (rev b @ replicate 32 0)) r = Inr () \<and> ad_ordinal s = 7 \<and>
     identity_preimage r \<noteq> identity_preimage s"
proof -
  define sha :: "byte list \<Rightarrow> byte list" where "sha = (\<lambda>b. take 32 (rev b @ replicate 32 0))"
  have len: "\<forall>b. length (sha b) = 32" by (simp add: sha_def min_def)
  note binds = derivation_identity_binds [where ?sha256.0 = sha, OF len]
  obtain r s where rows: "derivation_row_new sha 1 ArtifactSubject 1 SourceSubject InputRole 0 2 5 = Inr r"
    "derivation_row_new sha 1 ArtifactSubject 1 SourceSubject InputRole 7 2 5 = Inr s"
    using conjunct1 [OF binds [of 1 ArtifactSubject 1 SourceSubject InputRole 0 2 5]]
      conjunct1 [OF binds [of 1 ArtifactSubject 1 SourceSubject InputRole 7 2 5]] by auto
  then have "validate_derivation sha r = Inr ()" "ad_ordinal r = 0" "ad_ordinal s = 7"
    using binds [of 1 ArtifactSubject 1 SourceSubject InputRole 0 2 5 r s]
      binds [of 1 ArtifactSubject 1 SourceSubject InputRole 7 2 5 s r] by blast+
  moreover from this have "identity_preimage r \<noteq> identity_preimage s" by (simp add: identity_preimage_inj)
  ultimately show ?thesis using rows unfolding sha_def by blast
qed

text \<open>C21. The constructor of a derivation ledger accepts exactly the lists of valid rows with distinct identities, within the
  row limit, in which the ordinals of each output are distinct and the edges from inputs to outputs have no cycle, in
  whatever order the hash maps yield their keys, and it sorts them.\<close>

theorem derivations_accepted:
  "derivation_new sha256 order derivations = Inr l \<longleftrightarrow>
     length derivations \<le> MAX_KNOWLEDGE_ROWS \<and> (\<forall>r\<in>set derivations. validate_derivation sha256 r = Inr ()) \<and>
     distinct (map ad_derivation_uuid derivations) \<and> inj_on (\<lambda>r. (output_of r, ad_ordinal r)) (set derivations) \<and>
     acyclic ((\<lambda>r. (input_of r, output_of r)) ` set derivations) \<and> l = sort_key derivation_key derivations"
  by (rule derivation_new_Inr)

theorem derivations_accepted_witness:
  "derivation_new (\<lambda>_. replicate 32 0) insertion_order [sample_derivation] = Inr [sample_derivation]"
proof -
  have "validate_derivation (\<lambda>_. replicate 32 0) sample_derivation = Inr ()"
    using uuid_v8_not_nil [of "replicate 32 0"]
    by (simp add: validate_derivation_Inr sample_derivation_def output_of_def input_of_def)
  moreover have "acyclic {(input_of sample_derivation, output_of sample_derivation)}"
    by (simp add: sample_derivation_def output_of_def input_of_def acyclic_def trancl_insert2)
  ultimately show ?thesis by (subst derivations_accepted) (simp add: MAX_KNOWLEDGE_ROWS_def)
qed

end
