(* ===== verification/Preference.thy ===== *)
theory Preference
  imports Ledger
begin

text \<open>
  \<open>crates/graphforge-knowledge/src/artifact_preference.rs\<close> and \<open>retention_dependency.rs\<close>: the ledger of the events
  that select the preferred artifact of a source, and the ledger of the retention dependencies. A reason is the UTF-8
  bytes of its text.
\<close>

section \<open>Preference events\<close>

definition ARTIFACT_PREFERENCE_CONTRACT_VERSION :: "32 word" where
  "ARTIFACT_PREFERENCE_CONTRACT_VERSION = 1"

definition MAX_ARTIFACT_PREFERENCE_REASON_BYTES :: nat where
  "MAX_ARTIFACT_PREFERENCE_REASON_BYTES = 4096"

record preference_event =
  ap_preference_event_uuid :: uuid
  ap_source_uuid :: uuid
  ap_artifact_uuid :: uuid
  ap_prior_artifact_uuid :: "uuid option"
  ap_reason :: "byte list"
  ap_provenance_uuid :: uuid
  ap_recorded_at_micros :: "64 word"
  ap_contract_version :: "32 word"

type_synonym preference_ledger = "preference_event list"

abbreviation preference_key :: "preference_event \<Rightarrow> int \<times> uuid" where
  "preference_key \<equiv> ledger_key ap_recorded_at_micros ap_preference_event_uuid"

definition validate_bounded_text :: "string \<Rightarrow> byte list \<Rightarrow> nat \<Rightarrow> knowledge_error + unit" where
  "validate_bounded_text field value limit =
     (if value = [] then Inl (Invalid field ''value must not be empty'')
      else if length value > limit then Inl (RowLimit field (length value) limit)
      else Inr ())"

definition validate_preference_event :: "(uuid \<Rightarrow> bool) \<Rightarrow> preference_event \<Rightarrow> knowledge_error + unit" where
  "validate_preference_event is_v7 row =
     (if ap_contract_version row \<noteq> ARTIFACT_PREFERENCE_CONTRACT_VERSION
      then Inl (Invalid ''preference.contract_version'' ''unsupported version'')
      else
        and_then (require_v7 is_v7 (ap_preference_event_uuid row) ''preference_event_uuid'') (\<lambda>_.
        and_then (require_v7 is_v7 (ap_source_uuid row) ''source_uuid'') (\<lambda>_.
        and_then (require_v7 is_v7 (ap_artifact_uuid row) ''artifact_uuid'') (\<lambda>_.
        and_then
          (case ap_prior_artifact_uuid row of
             None \<Rightarrow> Inr ()
           | Some prior \<Rightarrow>
               and_then (require_v7 is_v7 prior ''prior_artifact_uuid'') (\<lambda>_.
               if prior = ap_artifact_uuid row
               then Inl (Invalid ''prior_artifact_uuid'' ''must differ from artifact_uuid'') else Inr ())) (\<lambda>_.
        and_then (require_uuid (ap_provenance_uuid row) ''provenance_uuid'') (\<lambda>_.
        and_then (validate_bounded_text ''preference.reason'' (ap_reason row) MAX_ARTIFACT_PREFERENCE_REASON_BYTES) (\<lambda>_.
        Inr ())))))))"

definition preference_event_new :: "(uuid \<Rightarrow> bool) \<Rightarrow> uuid \<Rightarrow> uuid \<Rightarrow> uuid \<Rightarrow> uuid option \<Rightarrow> byte list \<Rightarrow> uuid \<Rightarrow> 64 word \<Rightarrow> knowledge_error + preference_event" where
  "preference_event_new is_v7 preference_event_uuid source_uuid artifact_uuid prior_artifact_uuid reason provenance_uuid recorded_at_micros =
     (let row = \<lparr>ap_preference_event_uuid = preference_event_uuid, ap_source_uuid = source_uuid,
                 ap_artifact_uuid = artifact_uuid, ap_prior_artifact_uuid = prior_artifact_uuid, ap_reason = reason,
                 ap_provenance_uuid = provenance_uuid, ap_recorded_at_micros = recorded_at_micros,
                 ap_contract_version = ARTIFACT_PREFERENCE_CONTRACT_VERSION\<rparr>
      in and_then (validate_preference_event is_v7 row) (\<lambda>_. Inr row))"

definition validate_preference_events :: "(uuid \<Rightarrow> bool) \<Rightarrow> preference_event list \<Rightarrow> knowledge_error + unit" where
  "validate_preference_events is_v7 events =
     and_then (check_limit ''artifact_preference_events'' (length events)) (\<lambda>_.
     scan_unique (validate_preference_event is_v7) ap_preference_event_uuid ''preference_event_uuid'' events {})"

definition preference_new :: "(uuid \<Rightarrow> bool) \<Rightarrow> preference_event list \<Rightarrow> knowledge_error + preference_ledger" where
  "preference_new is_v7 events =
     (let events = sort_key preference_key events
      in and_then (validate_preference_events is_v7 events) (\<lambda>_. Inr events))"

definition preference_merge :: "(uuid \<Rightarrow> bool) \<Rightarrow> preference_ledger \<Rightarrow> preference_ledger \<Rightarrow> knowledge_error + preference_ledger" where
  "preference_merge is_v7 base staged =
     and_then (stage_by_find ap_preference_event_uuid ''preference_event_uuid'' base staged) (preference_new is_v7)"

definition preference_request_fingerprint :: "(byte list \<Rightarrow> byte list) \<Rightarrow> uuid \<Rightarrow> uuid \<Rightarrow> uuid \<Rightarrow> byte list \<Rightarrow> knowledge_error + byte list" where
  "preference_request_fingerprint sha256 preference_event_uuid source_uuid artifact_uuid reason =
     from_canonical
       (and_then (writer_raw (str_bytes ''GFPE'') writer_new) (\<lambda>w.
        and_then (writer_u32 ARTIFACT_PREFERENCE_CONTRACT_VERSION w) (\<lambda>w.
        and_then (writer_raw (uuid_bytes preference_event_uuid) w) (\<lambda>w.
        and_then (writer_raw (uuid_bytes source_uuid) w) (\<lambda>w.
        and_then (writer_raw (uuid_bytes artifact_uuid) w) (\<lambda>w.
        and_then (writer_text reason w) (\<lambda>w.
        fingerprint sha256 ArtifactPreference CANONICAL_CONTRACT_VERSION (writer_finish w))))))))"

definition preference_fingerprint :: "(byte list \<Rightarrow> byte list) \<Rightarrow> preference_ledger \<Rightarrow> uuid \<Rightarrow> knowledge_error + byte list" where
  "preference_fingerprint sha256 events preference_event_uuid =
     (case List.find (\<lambda>row. ap_preference_event_uuid row = preference_event_uuid) events of
        None \<Rightarrow> Inl (Dangling ''preference_event_uuid'')
      | Some row \<Rightarrow>
          from_canonical
            (and_then (writer_raw (str_bytes ''GFPE'') writer_new) (\<lambda>w.
             and_then (writer_u32 ARTIFACT_PREFERENCE_CONTRACT_VERSION w) (\<lambda>w.
             and_then (writer_raw (uuid_bytes (ap_preference_event_uuid row)) w) (\<lambda>w.
             and_then (writer_raw (uuid_bytes (ap_source_uuid row)) w) (\<lambda>w.
             and_then (writer_raw (uuid_bytes (ap_artifact_uuid row)) w) (\<lambda>w.
             and_then (writer_text (ap_reason row) w) (\<lambda>w.
             fingerprint sha256 ArtifactPreference CANONICAL_CONTRACT_VERSION (writer_finish w)))))))))"

definition current_preferred_artifact :: "preference_ledger \<Rightarrow> uuid \<Rightarrow> uuid option" where
  "current_preferred_artifact events source_uuid =
     map_option ap_artifact_uuid (max_by_key preference_key (filter (\<lambda>row. ap_source_uuid row = source_uuid) events))"

section \<open>Retention dependencies\<close>

definition RETENTION_DEPENDENCY_CONTRACT_VERSION :: "32 word" where
  "RETENTION_DEPENDENCY_CONTRACT_VERSION = 1"

datatype retention_required_kind = RequiredArtifact | RequiredEvidenceLink | RequiredSource | RequiredAssertion

fun required_kind_as_str :: "retention_required_kind \<Rightarrow> string" where
  "required_kind_as_str RequiredArtifact = ''artifact''"
| "required_kind_as_str RequiredEvidenceLink = ''evidence_link''"
| "required_kind_as_str RequiredSource = ''source''"
| "required_kind_as_str RequiredAssertion = ''assertion''"

definition required_kind_parse :: "string \<Rightarrow> knowledge_error + retention_required_kind" where
  "required_kind_parse value =
     (if value = ''artifact'' then Inr RequiredArtifact
      else if value = ''evidence_link'' then Inr RequiredEvidenceLink
      else if value = ''source'' then Inr RequiredSource
      else if value = ''assertion'' then Inr RequiredAssertion
      else Inl (Invalid ''retention_required_kind'' ''unknown closed value''))"

datatype retention_dependency_class = RequiredLocalBytes | OutsideReference | ComparisonBaseline

fun dependency_class_as_str :: "retention_dependency_class \<Rightarrow> string" where
  "dependency_class_as_str RequiredLocalBytes = ''required_local_bytes''"
| "dependency_class_as_str OutsideReference = ''outside_reference''"
| "dependency_class_as_str ComparisonBaseline = ''comparison_baseline''"

definition dependency_class_parse :: "string \<Rightarrow> knowledge_error + retention_dependency_class" where
  "dependency_class_parse value =
     (if value = ''required_local_bytes'' then Inr RequiredLocalBytes
      else if value = ''outside_reference'' then Inr OutsideReference
      else if value = ''comparison_baseline'' then Inr ComparisonBaseline
      else Inl (Invalid ''dependency_class'' ''unknown closed value''))"

record retention_dependency =
  rd_dependency_uuid :: uuid
  rd_scope_uuid :: uuid
  rd_required_uuid :: uuid
  rd_required_kind :: retention_required_kind
  rd_dependency_class :: retention_dependency_class
  rd_provenance_uuid :: uuid
  rd_recorded_at_micros :: "64 word"
  rd_contract_version :: "32 word"

type_synonym retention_ledger = "retention_dependency list"

abbreviation retention_key :: "retention_dependency \<Rightarrow> int \<times> uuid" where
  "retention_key \<equiv> ledger_key rd_recorded_at_micros rd_dependency_uuid"

definition validate_dependency :: "(uuid \<Rightarrow> bool) \<Rightarrow> retention_dependency \<Rightarrow> knowledge_error + unit" where
  "validate_dependency is_v7 row =
     (if rd_contract_version row \<noteq> RETENTION_DEPENDENCY_CONTRACT_VERSION
      then Inl (Invalid ''dependency.contract_version'' ''unsupported version'')
      else
        and_then (require_v7 is_v7 (rd_dependency_uuid row) ''dependency_uuid'') (\<lambda>_.
        and_then (require_uuid (rd_scope_uuid row) ''scope_uuid'') (\<lambda>_.
        and_then (require_uuid (rd_required_uuid row) ''required_uuid'') (\<lambda>_.
        and_then (require_uuid (rd_provenance_uuid row) ''provenance_uuid'') (\<lambda>_.
        Inr ())))))"

definition dependency_row_new :: "(uuid \<Rightarrow> bool) \<Rightarrow> uuid \<Rightarrow> uuid \<Rightarrow> uuid \<Rightarrow> retention_required_kind \<Rightarrow> retention_dependency_class \<Rightarrow> uuid \<Rightarrow> 64 word \<Rightarrow> knowledge_error + retention_dependency" where
  "dependency_row_new is_v7 dependency_uuid scope_uuid required_uuid required_kind dependency_class provenance_uuid recorded_at_micros =
     (let row = \<lparr>rd_dependency_uuid = dependency_uuid, rd_scope_uuid = scope_uuid, rd_required_uuid = required_uuid,
                 rd_required_kind = required_kind, rd_dependency_class = dependency_class,
                 rd_provenance_uuid = provenance_uuid, rd_recorded_at_micros = recorded_at_micros,
                 rd_contract_version = RETENTION_DEPENDENCY_CONTRACT_VERSION\<rparr>
      in and_then (validate_dependency is_v7 row) (\<lambda>_. Inr row))"

definition validate_dependencies :: "(uuid \<Rightarrow> bool) \<Rightarrow> retention_dependency list \<Rightarrow> knowledge_error + unit" where
  "validate_dependencies is_v7 dependencies =
     and_then (check_limit ''retention_dependencies'' (length dependencies)) (\<lambda>_.
     scan_unique (validate_dependency is_v7) rd_dependency_uuid ''dependency_uuid'' dependencies {})"

definition retention_new :: "(uuid \<Rightarrow> bool) \<Rightarrow> retention_dependency list \<Rightarrow> knowledge_error + retention_ledger" where
  "retention_new is_v7 dependencies =
     (let dependencies = sort_key retention_key dependencies
      in and_then (validate_dependencies is_v7 dependencies) (\<lambda>_. Inr dependencies))"

definition retention_merge :: "(uuid \<Rightarrow> bool) \<Rightarrow> retention_ledger \<Rightarrow> retention_ledger \<Rightarrow> knowledge_error + retention_ledger" where
  "retention_merge is_v7 base staged =
     and_then (stage_by_find rd_dependency_uuid ''dependency_uuid'' base staged) (retention_new is_v7)"

section \<open>Accepted ledgers\<close>

lemma preference_new_Inr:
  "preference_new is_v7 events = Inr l \<longleftrightarrow>
     length events \<le> MAX_KNOWLEDGE_ROWS \<and> (\<forall>r\<in>set events. validate_preference_event is_v7 r = Inr ()) \<and>
     distinct (map ap_preference_event_uuid events) \<and> l = sort_key preference_key events"
  by (auto simp: preference_new_def validate_preference_events_def Let_def scan_unique_Inr distinct_map)

lemma retention_new_Inr:
  "retention_new is_v7 rows = Inr l \<longleftrightarrow>
     length rows \<le> MAX_KNOWLEDGE_ROWS \<and> (\<forall>r\<in>set rows. validate_dependency is_v7 r = Inr ()) \<and>
     distinct (map rd_dependency_uuid rows) \<and> l = sort_key retention_key rows"
  by (auto simp: retention_new_def validate_dependencies_def Let_def scan_unique_Inr distinct_map)

interpretation preferences: staged_ledger ap_preference_event_uuid ap_recorded_at_micros "''preference_event_uuid''"
  "preference_new is_v7" "preference_merge is_v7" for is_v7
proof
  show "distinct (map ap_preference_event_uuid rows) \<and> l = sort_key preference_key rows"
    if "preference_new is_v7 rows = Inr l" for rows l
    using that by (simp add: preference_new_Inr)
  show "\<exists>l'. preference_new is_v7 rows' = Inr l'"
    if "preference_new is_v7 rows = Inr l" "distinct rows'" "set rows' = set rows" for rows rows' l
    using that distinct_map_length [OF _ that(2,3), of ap_preference_event_uuid]
    by (auto simp: preference_new_Inr distinct_map)
qed (simp add: preference_merge_def stage_by_find_index)

interpretation retention: staged_ledger rd_dependency_uuid rd_recorded_at_micros "''dependency_uuid''"
  "retention_new is_v7" "retention_merge is_v7" for is_v7
proof
  show "distinct (map rd_dependency_uuid rows) \<and> l = sort_key retention_key rows"
    if "retention_new is_v7 rows = Inr l" for rows l
    using that by (simp add: retention_new_Inr)
  show "\<exists>l'. retention_new is_v7 rows' = Inr l'"
    if "retention_new is_v7 rows = Inr l" "distinct rows'" "set rows' = set rows" for rows rows' l
    using that distinct_map_length [OF _ that(2,3), of rd_dependency_uuid]
    by (auto simp: retention_new_Inr distinct_map)
qed (simp add: retention_merge_def stage_by_find_index)

section \<open>The selection of an artifact\<close>

definition request_payload :: "uuid \<Rightarrow> uuid \<Rightarrow> uuid \<Rightarrow> byte list \<Rightarrow> byte list" where
  "request_payload event source artifact reason =
     str_bytes ''GFPE'' @ be_bytes 4 (unat ARTIFACT_PREFERENCE_CONTRACT_VERSION) @ uuid_bytes event @ uuid_bytes source @
     uuid_bytes artifact @ put_text reason"

lemma request_payload_inj:
  "length reason < 256 ^ 8 \<Longrightarrow> length reason' < 256 ^ 8 \<Longrightarrow>
   request_payload e s a reason = request_payload e' s' a' reason' \<longleftrightarrow> e = e' \<and> s = s' \<and> a = a' \<and> reason = reason'"
  by (auto simp: request_payload_def payload)

lemma preference_request_fingerprint_eq:
  "length reason \<le> MAX_ARTIFACT_PREFERENCE_REASON_BYTES \<Longrightarrow>
   preference_request_fingerprint sha256 e s a reason =
     Inr (sha256 (preimage_bytes ArtifactPreference CANONICAL_CONTRACT_VERSION (request_payload e s a reason)))"
  by (simp add: preference_request_fingerprint_def payload writer_fits request_payload_def MAX_CANONICAL_PAYLOAD_BYTES_def
      MAX_CANONICAL_TEXT_BYTES_def MAX_ARTIFACT_PREFERENCE_REASON_BYTES_def from_canonical_def)

lemma preference_fingerprint_find:
  "List.find (\<lambda>c. ap_preference_event_uuid c = u) l = Some r \<Longrightarrow>
   preference_fingerprint sha256 l u =
     preference_request_fingerprint sha256 (ap_preference_event_uuid r) (ap_source_uuid r) (ap_artifact_uuid r) (ap_reason r)"
  by (simp add: preference_fingerprint_def preference_request_fingerprint_def)

lemma current_preferred_eq:
  assumes "ordered ap_recorded_at_micros ap_preference_event_uuid l" and "r \<in> set l"
    and "\<forall>x\<in>set l. ap_source_uuid x = ap_source_uuid r \<longrightarrow> preference_key x \<le> preference_key r"
  shows "current_preferred_artifact l (ap_source_uuid r) = Some (ap_artifact_uuid r)"
proof -
  have "inj_on ap_preference_event_uuid (set (filter (\<lambda>row. ap_source_uuid row = ap_source_uuid r) l))"
    using assms(1) by (auto simp: ordered_def distinct_map intro: inj_on_subset)
  then have "max_by_key preference_key (filter (\<lambda>row. ap_source_uuid row = ap_source_uuid r) l) = Some r"
    using assms(2,3) by (intro max_by_key_eq inj_on_ledger_key) auto
  then show ?thesis by (simp add: current_preferred_artifact_def)
qed

lemma current_preferred_other:
  assumes "ordered ap_recorded_at_micros ap_preference_event_uuid l" and "ordered ap_recorded_at_micros ap_preference_event_uuid l'"
    and "{r \<in> set l. ap_source_uuid r = s} = {r \<in> set l'. ap_source_uuid r = s}"
  shows "current_preferred_artifact l s = current_preferred_artifact l' s"
proof -
  have "filter (\<lambda>row. ap_source_uuid row = s) l = filter (\<lambda>row. ap_source_uuid row = s) l'"
    using assms by (intro ordered_unique [OF ordered_filter ordered_filter]) auto
  then show ?thesis by (simp add: current_preferred_artifact_def)
qed

section \<open>Properties\<close>

text \<open>C26. Merging one preference event into an accepted ledger: every row of the result answers a replayed request with the
  fingerprint of its own request; the preferred artifact of every other source is unchanged; and an event recorded
  after the other events of its source makes its artifact the preferred one.\<close>

theorem preference_selection:
  assumes "preference_new is_v7 rows = Inr base" and "preference_merge is_v7 base [e] = Inr l"
  shows "(\<forall>r\<in>set base \<union> {e}. preference_fingerprint sha256 l (ap_preference_event_uuid r) =
        preference_request_fingerprint sha256 (ap_preference_event_uuid r) (ap_source_uuid r) (ap_artifact_uuid r) (ap_reason r)) \<and>
    (\<forall>s. s \<noteq> ap_source_uuid e \<longrightarrow> current_preferred_artifact l s = current_preferred_artifact base s) \<and>
    ((\<forall>r\<in>set base. ap_source_uuid r = ap_source_uuid e \<longrightarrow> preference_key r < preference_key e) \<longrightarrow>
      current_preferred_artifact l (ap_source_uuid e) = Some (ap_artifact_uuid e))"
proof (intro conjI ballI allI impI)
  have o: "ordered ap_recorded_at_micros ap_preference_event_uuid base" using preferences.new_ordered [OF assms(1)] by simp
  have l: "ordered ap_recorded_at_micros ap_preference_event_uuid l" "set l = insert e (set base)"
    using preferences.merge_union [OF o assms(2)] by auto
  show "preference_fingerprint sha256 l (ap_preference_event_uuid r) =
      preference_request_fingerprint sha256 (ap_preference_event_uuid r) (ap_source_uuid r) (ap_artifact_uuid r) (ap_reason r)"
    if "r \<in> set base \<union> {e}" for r
    using preferences.merge_keeps_rows [OF o assms(2), of r] that by (intro preference_fingerprint_find) simp
  show "current_preferred_artifact l s = current_preferred_artifact base s" if "s \<noteq> ap_source_uuid e" for s
    using that l o by (intro current_preferred_other) auto
  assume "\<forall>r\<in>set base. ap_source_uuid r = ap_source_uuid e \<longrightarrow> preference_key r < preference_key e"
  with l show "current_preferred_artifact l (ap_source_uuid e) = Some (ap_artifact_uuid e)"
    by (intro current_preferred_eq) (auto intro: less_imp_le)
qed

definition sample_preference :: "uuid \<Rightarrow> uuid \<Rightarrow> uuid \<Rightarrow> 64 word \<Rightarrow> preference_event" where
  "sample_preference i s a t = \<lparr>ap_preference_event_uuid = i, ap_source_uuid = s, ap_artifact_uuid = a,
     ap_prior_artifact_uuid = None, ap_reason = [65], ap_provenance_uuid = 9, ap_recorded_at_micros = t,
     ap_contract_version = 1\<rparr>"

lemmas preference_eval = sample_preference_def preference_new_def preference_merge_def validate_preference_events_def
  validate_preference_event_def validate_bounded_text_def require_v7_def require_uuid_def check_limit_def
  ARTIFACT_PREFERENCE_CONTRACT_VERSION_def MAX_ARTIFACT_PREFERENCE_REASON_BYTES_def MAX_KNOWLEDGE_ROWS_def
  ledger_key_def and_then_def less_eq_prod_def less_prod_def

theorem preference_selection_witness:
  "current_preferred_artifact [sample_preference 1 20 30 5, sample_preference 2 20 31 6] 20 = Some 31"
proof -
  have n: "preference_new (\<lambda>_. True) [sample_preference 1 20 30 5] = Inr [sample_preference 1 20 30 5]"
    by (simp add: preference_eval)
  have m: "preference_merge (\<lambda>_. True) [sample_preference 1 20 30 5] [sample_preference 2 20 31 6] =
      Inr [sample_preference 1 20 30 5, sample_preference 2 20 31 6]"
    by (simp add: preference_eval)
  show ?thesis
    using preference_selection [OF n m] by (simp add: sample_preference_def ledger_key_def less_prod_def)
qed

end
