(* ===== verification/Topology.thy ===== *)
theory Topology
  imports Ledger Rust_Text
begin

text \<open>
  \<open>crates/graphforge-exec/src/algorithm_graph/topology.rs\<close> and the row loop of \<open>export_topology\<close> in
  \<open>algorithm_graph.rs\<close>: the set of selected nodes with its two representations, the flat adjacency over ordinals, the
  builder that fills it row by row, and the cursor into a sorted permutation of its slots. Numbers are natural numbers
  with the bounds of their types written out; \<open>usize\<close> has 64 bits. A reservation of memory may fail, which the
  parameter \<open>reserve\<close> decides. The unstable sort of the standard library leaves the order of equal keys open; it is
  the parameter \<open>sort_by\<close>.
\<close>

section \<open>Node sets\<close>

definition u32_max :: nat where
  "u32_max = 4294967295"

definition u64_max :: nat where
  "u64_max = 18446744073709551615"

definition NO_ORDINAL :: nat where
  "NO_ORDINAL = u32_max"

definition try_u32 :: "nat \<Rightarrow> nat option" where
  "try_u32 n = (if n \<le> u32_max then Some n else None)"

datatype node_set =
  Dense nat nat
| Sparse "nat list" "nat list"

text \<open>\<open>slice::binary_search\<close>, as the index of a match.\<close>

function bisect :: "nat list \<Rightarrow> nat \<Rightarrow> nat \<Rightarrow> nat \<Rightarrow> nat option" where
  "bisect xs x lo hi =
     (if lo \<ge> hi then None
      else let mid = (lo + hi) div 2
           in if xs ! mid = x then Some mid
              else if xs ! mid < x then bisect xs x (mid + 1) hi
              else bisect xs x lo mid)"
  by pat_completeness auto

termination bisect
  by (relation "measure (\<lambda>(_, _, lo, hi). hi - lo)") auto

definition binary_search :: "nat list \<Rightarrow> nat \<Rightarrow> nat option" where
  "binary_search xs x = bisect xs x 0 (length xs)"

fun fill_rank :: "nat \<Rightarrow> nat list \<Rightarrow> nat list \<Rightarrow> nat list" where
  "fill_rank ordinal [] rank = rank"
| "fill_rank ordinal (node_id # ids) rank =
     fill_rank (ordinal + 1) ids
       (if node_id < length rank then rank[node_id := (case try_u32 ordinal of Some n \<Rightarrow> n | None \<Rightarrow> NO_ORDINAL)] else rank)"

definition node_set_from_ids :: "nat list \<Rightarrow> nat \<Rightarrow> node_set" where
  "node_set_from_ids ids rank_cap =
     (case ids of
        [] \<Rightarrow> Dense 0 0
      | first # _ \<Rightarrow>
          if list_all (\<lambda>(node_id, k). node_id = (first + k) mod (u64_max + 1)) (zip ids [0..<length ids])
          then Dense first (length ids)
          else
            let len = min (min (last ids + 1) u64_max) rank_cap
            in Sparse ids (fill_rank 0 ids (replicate len NO_ORDINAL)))"

fun node_set_len :: "node_set \<Rightarrow> nat" where
  "node_set_len (Dense first count) = count"
| "node_set_len (Sparse ids rank) = length ids"

fun ordinal_of :: "node_set \<Rightarrow> nat \<Rightarrow> nat option" where
  "ordinal_of (Dense first count) node_id =
     (if node_id < first then None
      else let ordinal = node_id - first in if ordinal < count then Some ordinal else None)"
| "ordinal_of (Sparse ids rank) node_id =
     (if node_id < length rank
      then (let ordinal = rank ! node_id in if ordinal \<noteq> NO_ORDINAL then Some ordinal else None)
      else binary_search ids node_id)"

fun node_id_of :: "node_set \<Rightarrow> nat \<Rightarrow> nat" where
  "node_id_of (Dense first count) ordinal = (if ordinal < count then min (first + ordinal) u64_max else u64_max)"
| "node_id_of (Sparse ids rank) ordinal = (if ordinal < length ids then ids ! ordinal else u64_max)"

section \<open>The flat adjacency\<close>

record edge_identity =
  i_edge_ids :: "nat list"
  i_edge_uuids :: "uuid list"

text \<open>The type of the weights is a parameter of the record.\<close>

record 'w topology_graph =
  t_directed :: bool
  t_offsets :: "nat list"
  t_neighbors :: "nat list"
  t_weights :: "'w list option"
  t_uuids :: "uuid list"
  t_nodes :: node_set
  t_identity :: "edge_identity option"

definition topology_default :: "'w topology_graph" where
  "topology_default = \<lparr>t_directed = False, t_offsets = [0], t_neighbors = [], t_weights = None, t_uuids = [],
     t_nodes = Dense 0 0, t_identity = None\<rparr>"

definition node_count :: "'w topology_graph \<Rightarrow> nat" where
  "node_count g = node_set_len (t_nodes g)"

definition slots :: "'w topology_graph \<Rightarrow> nat \<Rightarrow> nat \<times> nat" where
  "slots g ordinal =
     (if ordinal + 1 < length (t_offsets g)
      then (let end = min (t_offsets g ! (ordinal + 1)) (length (t_neighbors g))
            in (min (t_offsets g ! ordinal) end, end))
      else (0, 0))"

definition neighbor_ordinals :: "'w topology_graph \<Rightarrow> nat \<Rightarrow> nat list" where
  "neighbor_ordinals g ordinal =
     (case slots g ordinal of (start, end) \<Rightarrow> take (end - start) (drop start (t_neighbors g)))"

definition uuid_of_ordinal :: "'w topology_graph \<Rightarrow> nat \<Rightarrow> uuid option" where
  "uuid_of_ordinal g ordinal = (if ordinal < length (t_uuids g) then Some (t_uuids g ! ordinal) else None)"

definition edge_entry_count :: "'w topology_graph \<Rightarrow> nat" where
  "edge_entry_count g = length (t_neighbors g)"

section \<open>The builder\<close>

record topology_builder =
  b_offsets :: "nat list"
  b_neighbors :: "nat list"
  b_edge_ids :: "nat list option"
  b_unsorted :: "(nat \<times> nat) list"

definition size_error :: "string \<Rightarrow> string + 'a" where
  "size_error message = Inl message"

definition builder_new :: "(nat \<Rightarrow> bool) \<Rightarrow> nat \<Rightarrow> nat \<Rightarrow> bool \<Rightarrow> string + topology_builder" where
  "builder_new reserve nodes entry_hint keep_edge_ids =
     (if \<not> reserve (nodes + 1) then size_error ''analyst export offsets allocation failed''
      else if \<not> reserve entry_hint then size_error ''analyst export neighbors allocation failed''
      else if keep_edge_ids \<and> \<not> reserve entry_hint then size_error ''analyst export edge identity allocation failed''
      else Inr \<lparr>b_offsets = [0], b_neighbors = [], b_edge_ids = (if keep_edge_ids then Some [] else None), b_unsorted = []\<rparr>)"

definition next_ordinal :: "topology_builder \<Rightarrow> nat" where
  "next_ordinal b = length (b_offsets b) - 1"

definition keep :: "node_set \<Rightarrow> nat \<Rightarrow> nat \<Rightarrow> topology_builder \<Rightarrow> string + topology_builder" where
  "keep nodes edge_id neighbor_id b =
     (case ordinal_of nodes neighbor_id of
        None \<Rightarrow> Inr b
      | Some ordinal \<Rightarrow>
          (case try_u32 ordinal of
             None \<Rightarrow> size_error ''analyst export exceeds 2^32 - 1 nodes''
           | Some ordinal \<Rightarrow>
               Inr (b\<lparr>b_neighbors := b_neighbors b @ [ordinal],
                      b_edge_ids := map_option (\<lambda>edge_ids. edge_ids @ [edge_id]) (b_edge_ids b)\<rparr>)))"

fun keep_all :: "node_set \<Rightarrow> (nat \<times> nat) list \<Rightarrow> topology_builder \<Rightarrow> string + topology_builder" where
  "keep_all nodes [] b = Inr b"
| "keep_all nodes ((edge_id, neighbor_id) # row) b = and_then (keep nodes edge_id neighbor_id b) (keep_all nodes row)"

fun row_ordered :: "(nat \<times> nat) list \<Rightarrow> bool" where
  "row_ordered (x # y # row) = (x \<le> y \<and> row_ordered (y # row))"
| "row_ordered _ = True"

definition push_row :: "node_set \<Rightarrow> nat list \<Rightarrow> nat list \<Rightarrow> topology_builder \<Rightarrow> string + topology_builder" where
  "push_row nodes edge_ids neighbor_ids b =
     (let row = zip edge_ids neighbor_ids
      in and_then
           (if row_ordered row then keep_all nodes row b
            else let row = sort row
                 in and_then (keep_all nodes row (b\<lparr>b_unsorted := []\<rparr>)) (\<lambda>b. Inr (b\<lparr>b_unsorted := row\<rparr>))) (\<lambda>b.
         case try_u32 (length (b_neighbors b)) of
           None \<Rightarrow> size_error ''analyst export exceeds 2^32 - 1 adjacency entries''
         | Some end \<Rightarrow> Inr (b\<lparr>b_offsets := b_offsets b @ [end]\<rparr>)))"

text \<open>\<open>Vec::resize\<close>.\<close>

definition resize :: "nat \<Rightarrow> 'a \<Rightarrow> 'a list \<Rightarrow> 'a list" where
  "resize n x xs = take n xs @ replicate (n - length xs) x"

definition builder_finish :: "nat \<Rightarrow> topology_builder \<Rightarrow> nat list \<times> nat list \<times> nat list option" where
  "builder_finish nodes b =
     (let end = (if b_offsets b = [] then 0 else last (b_offsets b))
      in (resize (nodes + 1) end (b_offsets b), b_neighbors b, b_edge_ids b))"

text \<open>The rows an adjacency walk yields: a node, the edges of its row and their neighbors.\<close>

type_synonym adjacency_row = "nat \<times> nat list \<times> nat list"

fun walk_rows :: "node_set \<Rightarrow> adjacency_row list \<Rightarrow> topology_builder \<Rightarrow> string + topology_builder" where
  "walk_rows nodes [] b = Inr b"
| "walk_rows nodes ((node_id, edge_ids, neighbor_ids) # rows) b =
     (case ordinal_of nodes node_id of
        None \<Rightarrow> walk_rows nodes rows b
      | Some ordinal \<Rightarrow>
          if ordinal \<noteq> next_ordinal b then Inl (''adjacency row '' @ show_nat node_id @ '' arrived out of node order'')
          else and_then (push_row nodes edge_ids neighbor_ids b) (walk_rows nodes rows))"

definition export_rows :: "(nat \<Rightarrow> bool) \<Rightarrow> node_set \<Rightarrow> nat \<Rightarrow> bool \<Rightarrow> adjacency_row list \<Rightarrow> string + (nat list \<times> nat list \<times> nat list option)" where
  "export_rows reserve nodes entry_hint keep_edge_ids rows =
     (let count = node_set_len nodes
      in and_then (builder_new reserve count entry_hint keep_edge_ids) (\<lambda>b.
         and_then (if count > 0 then walk_rows nodes rows b else Inr b) (\<lambda>b.
         Inr (builder_finish count b))))"

section \<open>The cursor\<close>

definition slot_order :: "(nat \<Rightarrow> bool) \<Rightarrow> ((nat \<Rightarrow> 'k) \<Rightarrow> nat list \<Rightarrow> nat list) \<Rightarrow> nat \<Rightarrow> (nat \<Rightarrow> 'k :: linorder) \<Rightarrow> string + nat list" where
  "slot_order reserve sort_by n key =
     (if \<not> reserve n then size_error ''analyst export slot order allocation failed''
      else if n > u32_max + 1 then size_error ''analyst export exceeds 2^32 - 1 slots''
      else Inr (sort_by key [0..<n]))"

record 'k sorted_cursor =
  c_position :: nat
  c_previous :: "'k option"

definition cursor_new :: "'k sorted_cursor" where
  "cursor_new = \<lparr>c_position = 0, c_previous = None\<rparr>"

text \<open>\<open>slice::partition_point\<close> on a slice whose elements that satisfy the predicate come first.\<close>

definition partition_point :: "('a \<Rightarrow> bool) \<Rightarrow> 'a list \<Rightarrow> nat" where
  "partition_point p xs = length (takeWhile p xs)"

definition skip_while :: "('a \<Rightarrow> bool) \<Rightarrow> 'a list \<Rightarrow> nat \<Rightarrow> nat" where
  "skip_while p xs i = i + length (takeWhile p (drop i xs))"

definition cursor_find :: "nat list \<Rightarrow> (nat \<Rightarrow> 'k :: linorder) \<Rightarrow> 'k \<Rightarrow> 'k sorted_cursor \<Rightarrow> (nat \<times> nat) \<times> 'k sorted_cursor" where
  "cursor_find order key wanted c =
     (let position =
            (if (case c_previous c of None \<Rightarrow> False | Some previous \<Rightarrow> wanted < previous)
             then partition_point (\<lambda>slot. key slot < wanted) order
             else skip_while (\<lambda>slot. key slot < wanted) order (c_position c));
          end = skip_while (\<lambda>slot. key slot = wanted) order position
      in ((position, end), c\<lparr>c_position := position, c_previous := Some wanted\<rparr>))"

section \<open>Node sets represent their identifiers\<close>

definition represents :: "node_set \<Rightarrow> nat list \<Rightarrow> bool" where
  "represents nodes ids \<longleftrightarrow>
     node_set_len nodes = length ids \<and>
     (\<forall>n<length ids. node_id_of nodes n = ids ! n \<and> ordinal_of nodes (ids ! n) = Some n) \<and>
     (\<forall>x. x \<notin> set ids \<longrightarrow> ordinal_of nodes x = None) \<and>
     (\<forall>n. length ids \<le> n \<longrightarrow> node_id_of nodes n = u64_max)"

declare bisect.simps [simp del]

lemma bisect_Some:
  "sorted_wrt (<) xs \<Longrightarrow> hi \<le> length xs \<Longrightarrow> bisect xs x lo hi = Some i \<longleftrightarrow> lo \<le> i \<and> i < hi \<and> xs ! i = x"
proof (induction xs x lo hi rule: bisect.induct)
  case (1 xs x lo hi)
  have d: "distinct xs" using 1(3) by (simp add: strict_sorted_iff)
  have less: "xs ! i < xs ! j" if "i < j" "j < length xs" for i j
    using 1(3) that by (simp add: sorted_wrt_iff_nth_less)
  have le: "i < j" if "xs ! i < xs ! j" "i < length xs" "j < length xs" for i j
    using that less [of j i] by (cases i j rule: linorder_cases) auto
  show ?case
  proof (cases "lo \<ge> hi")
    case True
    then show ?thesis by (subst bisect.simps) auto
  next
    case False
    define mid where "mid = (lo + hi) div 2"
    have m: "lo \<le> mid" "mid < hi" using False by (auto simp: mid_def)
    consider "xs ! mid = x" | "xs ! mid < x" | "x < xs ! mid" by linarith
    then show ?thesis
    proof cases
      case 1
      have "bisect xs x lo hi = Some mid" using False 1 by (subst bisect.simps) (simp add: Let_def mid_def)
      moreover have "i < hi \<Longrightarrow> xs ! i = x \<Longrightarrow> i = mid"
        using \<open>xs ! mid = x\<close> m \<open>hi \<le> length xs\<close> nth_eq_iff_index_eq [OF d, of i mid] by simp
      ultimately show ?thesis using m 1 by auto
    next
      case 2
      have "bisect xs x lo hi = bisect xs x (mid + 1) hi" using False 2 by (subst bisect.simps) (simp add: Let_def mid_def)
      moreover have "i < hi \<Longrightarrow> xs ! i = x \<Longrightarrow> mid < i" using 2 le [of mid i] m \<open>hi \<le> length xs\<close> by simp
      ultimately show ?thesis
        using 2 m "1.IH"(1) [OF False mid_def _ _ \<open>sorted_wrt (<) xs\<close> \<open>hi \<le> length xs\<close>] by auto
    next
      case 3
      have "bisect xs x lo hi = bisect xs x lo mid" using False 3 by (subst bisect.simps) (simp add: Let_def mid_def)
      moreover have "i < hi \<Longrightarrow> xs ! i = x \<Longrightarrow> i < mid" using 3 le [of i mid] m \<open>hi \<le> length xs\<close> by simp
      ultimately show ?thesis
        using 3 m \<open>hi \<le> length xs\<close> "1.IH"(2) [OF False mid_def _ _ \<open>sorted_wrt (<) xs\<close>] by auto
    qed
  qed
qed

lemma binary_search_Some:
  "sorted_wrt (<) xs \<Longrightarrow> binary_search xs x = Some i \<longleftrightarrow> i < length xs \<and> xs ! i = x"
  by (simp add: binary_search_def bisect_Some)

lemma binary_search_None:
  "sorted_wrt (<) xs \<Longrightarrow> binary_search xs x = None \<longleftrightarrow> x \<notin> set xs"
  using binary_search_Some [of xs x] by (metis in_set_conv_nth not_Some_eq)

lemma length_fill_rank [simp]: "length (fill_rank k ids rank) = length rank"
  by (induction k ids rank rule: fill_rank.induct) auto

lemma fill_rank_other: "j \<notin> set ids \<Longrightarrow> fill_rank k ids rank ! j = rank ! j"
  by (induction k ids rank rule: fill_rank.induct) auto

lemma fill_rank_nth:
  "distinct ids \<Longrightarrow> k + length ids \<le> u32_max \<Longrightarrow> i < length ids \<Longrightarrow> ids ! i < length rank \<Longrightarrow>
   fill_rank k ids rank ! (ids ! i) = k + i"
proof (induction k ids rank arbitrary: i rule: fill_rank.induct)
  case (2 k x ids rank)
  show ?case
  proof (cases i)
    case 0
    with 2 show ?thesis by (simp add: fill_rank_other try_u32_def)
  next
    case (Suc n)
    with 2 show ?thesis by simp
  qed
qed simp

lemma dense_ids:
  assumes "sorted_wrt (<) ids" "\<forall>x\<in>set ids. x \<le> u64_max" "ids \<noteq> []"
    and "list_all (\<lambda>(node_id, k). node_id = (hd ids + k) mod (u64_max + 1)) (zip ids [0..<length ids])"
  shows "ids = [hd ids..<hd ids + length ids]"
proof -
  have e: "ids ! k = (hd ids + k) mod (u64_max + 1)" if "k < length ids" for k
    using assms(4) that by (auto simp: list_all_length)
  have "ids ! k = hd ids + k" if "k < length ids" for k
    using that
  proof (induction k)
    case 0
    then show ?case using assms(3) by (simp add: hd_conv_nth)
  next
    case (Suc k)
    then have i: "ids ! k = hd ids + k" and l: "ids ! k < ids ! Suc k" and b: "ids ! Suc k \<le> u64_max"
      using sorted_wrt_nth_less [OF assms(1), of k "Suc k"] assms(2) by auto
    have "ids ! k + 1 \<le> u64_max" using l b by simp
    then have "(hd ids + Suc k) mod (u64_max + 1) = hd ids + Suc k" using i by simp
    with e [OF Suc(2)] show ?case by simp
  qed
  then show ?thesis by (intro nth_equalityI) auto
qed

lemma from_ids_represents:
  assumes "sorted_wrt (<) ids" "\<forall>x\<in>set ids. x \<le> u64_max" "length ids \<le> u32_max"
  shows "represents (node_set_from_ids ids rank_cap) ids"
proof (cases ids)
  case Nil
  then show ?thesis by (simp add: represents_def node_set_from_ids_def)
next
  case (Cons first rest)
  have s: "\<And>i j. i < j \<Longrightarrow> j < length ids \<Longrightarrow> ids ! i < ids ! j" and d: "distinct ids"
    using sorted_wrt_nth_less [OF assms(1)] assms(1) by (simp_all add: strict_sorted_iff)
  show ?thesis
  proof (cases "list_all (\<lambda>(node_id, k). node_id = (first + k) mod (u64_max + 1)) (zip ids [0..<length ids])")
    case True
    then have "ids = [first..<first + length ids]" using dense_ids [OF assms(1,2)] Cons by simp
    then have n: "ids ! n = first + n" if "n < length ids" for n using that by (metis nth_upt length_upt add_diff_cancel_left' nat_add_left_cancel_less)
    have m: "x \<in> set ids \<longleftrightarrow> first \<le> x \<and> x < first + length ids" for x
      using \<open>ids = [first..<first + length ids]\<close> by (metis set_upt atLeastLessThan_iff)
    have f: "node_set_from_ids ids rank_cap = Dense first (length ids)"
      using True Cons by (simp add: node_set_from_ids_def)
    have b: "first + n \<le> u64_max" if "n < length ids" for n using n [OF that] assms(2) that nth_mem by metis
    show ?thesis
      unfolding represents_def f using n m b by (auto simp: Let_def)
  next
    case False
    define len where "len = min (min (last ids + 1) u64_max) rank_cap"
    define rank where "rank = fill_rank 0 ids (replicate len NO_ORDINAL)"
    have f: "node_set_from_ids ids rank_cap = Sparse ids rank"
      using False Cons by (simp add: node_set_from_ids_def Let_def len_def rank_def)
    have r: "rank ! (ids ! n) = n" if "n < length ids" "ids ! n < length rank" for n
      using fill_rank_nth [of ids 0 n "replicate len NO_ORDINAL"] that d assms(3) by (simp add: rank_def)
    have o: "rank ! x = NO_ORDINAL" if "x \<notin> set ids" "x < length rank" for x
      using that by (simp add: rank_def fill_rank_other)
    have "n \<noteq> NO_ORDINAL" if "n < length ids" for n using that assms(3) by (simp add: NO_ORDINAL_def)
    then show ?thesis
      unfolding represents_def f using r o binary_search_Some [OF assms(1)] binary_search_None [OF assms(1)]
      by (auto simp: Let_def)
  qed
qed

section \<open>The builder collects the selected rows\<close>

text \<open>The entries of a row that are kept: its edges with the ordinals of their selected neighbors, in order.\<close>

definition kept :: "node_set \<Rightarrow> nat list \<times> nat list \<Rightarrow> (nat \<times> nat) list" where
  "kept nodes row =
     map (\<lambda>(e, x). (e, the (ordinal_of nodes x)))
       (filter (\<lambda>(e, x). ordinal_of nodes x \<noteq> None) (sort (zip (fst row) (snd row))))"

definition bounded :: "node_set \<Rightarrow> bool" where
  "bounded nodes \<longleftrightarrow> (\<forall>x n. ordinal_of nodes x = Some n \<longrightarrow> n \<le> u32_max)"

text \<open>The builder holds the rows \<open>ps\<close> of pairs of an edge and an ordinal.\<close>

definition built :: "bool \<Rightarrow> topology_builder \<Rightarrow> (nat \<times> nat) list list \<Rightarrow> bool" where
  "built keep_edge_ids b ps \<longleftrightarrow>
     b_offsets b = map (\<lambda>k. length (concat (take k ps))) [0..<length ps + 1] \<and>
     b_neighbors b = map snd (concat ps) \<and>
     b_edge_ids b = (if keep_edge_ids then Some (map fst (concat ps)) else None)"

lemma keep_all_eq:
  "bounded nodes \<Longrightarrow>
   keep_all nodes row b =
     (let ps = map (\<lambda>(e, x). (e, the (ordinal_of nodes x))) (filter (\<lambda>(e, x). ordinal_of nodes x \<noteq> None) row)
      in Inr (b\<lparr>b_neighbors := b_neighbors b @ map snd ps, b_edge_ids := map_option (\<lambda>es. es @ map fst ps) (b_edge_ids b)\<rparr>))"
proof (induction nodes row b rule: keep_all.induct)
  case (1 nodes b)
  have "map_option (\<lambda>es. es) (b_edge_ids b) = b_edge_ids b" by (simp add: option.map_ident)
  then show ?case by (simp add: Let_def)
next
  case (2 nodes e x row b)
  show ?case
  proof (cases "ordinal_of nodes x")
    case None
    with 2 show ?thesis by (simp add: keep_def Let_def)
  next
    case (Some n)
    with 2(2) have "try_u32 n = Some n" by (auto simp: bounded_def try_u32_def)
    with Some 2 show ?thesis by (simp add: keep_def Let_def option.map_comp comp_def)
  qed
qed

lemma row_ordered_sorted: "row_ordered row \<longleftrightarrow> sorted row"
  by (induction row rule: row_ordered.induct) (auto intro: order_trans)

lemma push_row_eq:
  assumes "bounded nodes"
  shows "\<exists>u. push_row nodes es xs b =
    (let ps = kept nodes (es, xs); end = length (b_neighbors b) + length ps
     in if end \<le> u32_max
        then Inr (b\<lparr>b_neighbors := b_neighbors b @ map snd ps, b_edge_ids := map_option (\<lambda>es. es @ map fst ps) (b_edge_ids b),
                    b_offsets := b_offsets b @ [end], b_unsorted := u\<rparr>)
        else size_error ''analyst export exceeds 2^32 - 1 adjacency entries'')"
proof (cases "row_ordered (zip es xs)")
  case True
  then have "sort (zip es xs) = zip es xs" by (simp add: row_ordered_sorted sorted_sort_id)
  then have "kept nodes (es, xs) = map (\<lambda>(e, x). (e, the (ordinal_of nodes x))) (filter (\<lambda>(e, x). ordinal_of nodes x \<noteq> None) (zip es xs))"
    by (simp add: kept_def)
  with True show ?thesis
    by (intro exI [of _ "b_unsorted b"])
      (simp add: push_row_def keep_all_eq [OF assms] Let_def try_u32_def)
next
  case False
  then show ?thesis
    by (intro exI [of _ "sort (zip es xs)"])
      (simp add: push_row_def keep_all_eq [OF assms] Let_def try_u32_def kept_def)
qed

lemma built_next: "built ke b ps \<Longrightarrow> next_ordinal b = length ps"
  by (simp add: built_def next_ordinal_def)

lemma take_upto: "k \<le> length ps \<Longrightarrow> take k (ps @ [p]) = take k ps"
  by simp

lemma push_row_built:
  assumes "bounded nodes" "built ke b ps"
  shows "if length (concat (ps @ [kept nodes (es, xs)])) \<le> u32_max
    then \<exists>b'. push_row nodes es xs b = Inr b' \<and> built ke b' (ps @ [kept nodes (es, xs)])
    else \<exists>m. push_row nodes es xs b = Inl m"
proof -
  let ?p = "kept nodes (es, xs)"
  obtain u where u: "push_row nodes es xs b =
    (let ps = kept nodes (es, xs); end = length (b_neighbors b) + length ps
     in if end \<le> u32_max
        then Inr (b\<lparr>b_neighbors := b_neighbors b @ map snd ps, b_edge_ids := map_option (\<lambda>es. es @ map fst ps) (b_edge_ids b),
                    b_offsets := b_offsets b @ [end], b_unsorted := u\<rparr>)
        else size_error ''analyst export exceeds 2^32 - 1 adjacency entries'')"
    using push_row_eq [OF assms(1)] by blast
  have n: "length (b_neighbors b) = length (concat ps)" using assms(2) by (simp add: built_def)
  have m: "map (\<lambda>k. length (concat (take k (ps @ [?p])))) [0..<length ps + 1] = map (\<lambda>k. length (concat (take k ps))) [0..<length ps + 1]"
    by (rule map_cong) auto
  have o: "map (\<lambda>k. length (concat (take k (ps @ [?p])))) [0..<length (ps @ [?p]) + 1] =
      map (\<lambda>k. length (concat (take k ps))) [0..<length ps + 1] @ [length (concat ps) + length ?p]"
    using m by simp
  show ?thesis
  proof (cases "length (concat (ps @ [?p])) \<le> u32_max")
    case True
    then show ?thesis using u n assms(2) o by (auto simp: built_def Let_def)
  next
    case False
    then show ?thesis using u n by (simp add: size_error_def Let_def)
  qed
qed

definition selected :: "node_set \<Rightarrow> adjacency_row list \<Rightarrow> adjacency_row list" where
  "selected nodes rows = filter (\<lambda>row. ordinal_of nodes (fst row) \<noteq> None) rows"

lemma walk_rows_built:
  "bounded nodes \<Longrightarrow> built ke b ps \<Longrightarrow> length (concat ps) \<le> u32_max \<Longrightarrow>
   if map (ordinal_of nodes \<circ> fst) (selected nodes rows) = map Some [length ps..<length ps + length (selected nodes rows)] \<and>
      length (concat (ps @ map (kept nodes \<circ> snd) (selected nodes rows))) \<le> u32_max
   then \<exists>b'. walk_rows nodes rows b = Inr b' \<and> built ke b' (ps @ map (kept nodes \<circ> snd) (selected nodes rows))
   else \<exists>m. walk_rows nodes rows b = Inl m"
proof (induction nodes rows b arbitrary: ps rule: walk_rows.induct)
  case (1 nodes b)
  then show ?case by (simp add: selected_def)
next
  case (2 nodes x es xs rows b)
  show ?case
  proof (cases "ordinal_of nodes x")
    case None
    then have "selected nodes ((x, es, xs) # rows) = selected nodes rows"
      and "walk_rows nodes ((x, es, xs) # rows) b = walk_rows nodes rows b" by (simp_all add: selected_def)
    with 2(1) [OF None 2(3-5)] show ?thesis by (simp only:)
  next
    case (Some n)
    let ?p = "kept nodes (es, xs)" and ?s = "selected nodes rows"
    have s: "selected nodes ((x, es, xs) # rows) = (x, es, xs) # ?s" using Some by (simp add: selected_def)
    have up: "map Some [length ps..<length ps + length ((x, es, xs) # ?s)] =
        Some (length ps) # map Some [length (ps @ [?p])..<length (ps @ [?p]) + length ?s]"
      by (simp add: upt_conv_Cons del: upt_Suc)
    show ?thesis
    proof (cases "n = length ps \<and> length (concat (ps @ [?p])) \<le> u32_max")
      case True
      with push_row_built [OF 2(3,4), of es xs] obtain b' where
        b': "push_row nodes es xs b = Inr b'" "built ke b' (ps @ [?p])" by auto
      have w: "walk_rows nodes ((x, es, xs) # rows) b = walk_rows nodes rows b'"
        using Some True b' built_next [OF 2(4)] by simp
      have "\<not> n \<noteq> next_ordinal b" using True built_next [OF 2(4)] by simp
      note IH = 2(2) [OF Some this 2(3) b'(2) True [THEN conjunct2]]
      have c: "map (ordinal_of nodes \<circ> fst) ((x, es, xs) # ?s) = Some (length ps) # u \<longleftrightarrow> map (ordinal_of nodes \<circ> fst) ?s = u" for u
        using Some True by simp
      have q: "ps @ map (kept nodes \<circ> snd) ((x, es, xs) # ?s) = (ps @ [?p]) @ map (kept nodes \<circ> snd) ?s" by simp
      show ?thesis unfolding w s up c q by (rule IH)
    next
      case False
      have "\<exists>m. walk_rows nodes ((x, es, xs) # rows) b = Inl m"
      proof (cases "n = length ps")
        case True
        with False push_row_built [OF 2(3,4), of es xs] show ?thesis using Some built_next [OF 2(4)] by auto
      qed (simp add: Some built_next [OF 2(4)])
      moreover have "\<not> (map (ordinal_of nodes \<circ> fst) (selected nodes ((x, es, xs) # rows)) =
          map Some [length ps..<length ps + length (selected nodes ((x, es, xs) # rows))] \<and>
        length (concat (ps @ map (kept nodes \<circ> snd) (selected nodes ((x, es, xs) # rows)))) \<le> u32_max)"
        unfolding s up using False Some by auto
      ultimately show ?thesis by (simp only: if_False)
    qed
  qed
qed

lemma take_drop_concat:
  "n < length ps \<Longrightarrow> take (length (concat (take (Suc n) ps)) - length (concat (take n ps))) (drop (length (concat (take n ps))) (concat ps)) = ps ! n"
proof -
  assume n: "n < length ps"
  have t: "take (Suc n) ps = take n ps @ [ps ! n]" using n by (simp add: take_Suc_conv_app_nth)
  have "concat ps = concat (take n ps) @ ps ! n @ concat (drop (Suc n) ps)"
    using n by (metis Cons_nth_drop_Suc append_take_drop_id concat.simps(2) concat_append)
  with t show ?thesis by simp
qed

lemma finish_rows:
  assumes "built ke b ps" "length ps \<le> count" "builder_finish count b = (offs, nbrs, eids)"
    and "t_offsets g = offs" "t_neighbors g = nbrs"
  shows "eids = (if ke then Some (map fst (concat ps)) else None)"
    and "n < count \<Longrightarrow> neighbor_ordinals g n = (if n < length ps then map snd (ps ! n) else [])"
proof -
  have ob: "b_offsets b = map (\<lambda>k. length (concat (take k ps))) [0..<length ps + 1]" "nbrs = map snd (concat ps)"
    and e: "eids = (if ke then Some (map fst (concat ps)) else None)"
    using assms(1,3) by (auto simp: built_def builder_finish_def Let_def)
  show "eids = (if ke then Some (map fst (concat ps)) else None)" by (rule e)
  have "last (b_offsets b) = length (concat ps)" unfolding ob(1) by simp
  moreover have "length (b_offsets b) = length ps + 1" unfolding ob(1) by simp
  ultimately have offs: "offs = b_offsets b @ replicate (count - length ps) (length (concat ps))"
    using assms(2,3) by (auto simp: builder_finish_def resize_def Let_def)
  have nth: "offs ! k = length (concat (take k ps))" if "k \<le> count" for k
  proof (cases "k \<le> length ps")
    case True
    then show ?thesis unfolding offs ob(1) by (simp add: nth_append)
  next
    case False
    then show ?thesis unfolding offs ob(1) using that by (simp add: nth_append)
  qed
  have len: "length offs = count + 1" unfolding offs ob(1) using assms(2) by simp
  have mono: "length (concat (take k ps)) \<le> length (concat ps)" for k
    by (metis append_take_drop_id concat_append le_add1 length_append)
  have mono1: "length (concat (take k ps)) \<le> length (concat (take (Suc k) ps))" for k
    by (cases "k < length ps") (simp_all add: take_Suc_conv_app_nth)
  show "neighbor_ordinals g n = (if n < length ps then map snd (ps ! n) else [])" if "n < count" for n
  proof -
    have s: "slots g n = (length (concat (take n ps)), length (concat (take (Suc n) ps)))"
      using that len nth [of n] nth [of "Suc n"] mono [of "Suc n"] mono1 [of n]
      by (simp add: slots_def assms(4,5) ob(2) Let_def min_def)
    show ?thesis
      using take_drop_concat [of n ps]
      by (auto simp: neighbor_ordinals_def s assms(5) ob(2) take_map drop_map)
  qed
qed

lemma represents_bounded:
  assumes "represents nodes ids" "length ids \<le> u32_max + 1"
  shows "bounded nodes" "ordinal_of nodes x = Some n \<longleftrightarrow> n < length ids \<and> ids ! n = x"
proof -
  show s: "ordinal_of nodes x = Some n \<longleftrightarrow> n < length ids \<and> ids ! n = x" for x n
    using assms(1) unfolding represents_def by (metis in_set_conv_nth option.distinct(1) option.inject)
  show "bounded nodes" unfolding bounded_def s using assms(2) by auto
qed

lemma export_rows_eq:
  assumes r: "represents nodes ids" and l: "length ids \<le> u32_max"
  shows "if map fst (selected nodes rows) = take (length (selected nodes rows)) ids \<and>
      length (concat (map (kept nodes \<circ> snd) (selected nodes rows))) \<le> u32_max
    then \<exists>b. export_rows (\<lambda>_. True) nodes hint ke rows = Inr (builder_finish (length ids) b) \<and>
      built ke b (map (kept nodes \<circ> snd) (selected nodes rows)) \<and> length (selected nodes rows) \<le> length ids
    else \<exists>m. export_rows (\<lambda>_. True) nodes hint ke rows = Inl m"
proof -
  let ?s = "selected nodes rows"
  have b: "bounded nodes" and o: "\<And>x n. ordinal_of nodes x = Some n \<longleftrightarrow> n < length ids \<and> ids ! n = x"
    using represents_bounded [OF r] l by auto
  have cond: "map (ordinal_of nodes \<circ> fst) ?s = map Some [0..<length ?s] \<longleftrightarrow> map fst ?s = take (length ?s) ids \<and> length ?s \<le> length ids"
  proof -
    have "(\<forall>i<length ?s. i < length ids \<and> ids ! i = fst (?s ! i)) \<longleftrightarrow>
        length ?s \<le> length ids \<and> (\<forall>i<length ?s. ids ! i = fst (?s ! i))"
      by (meson le_less_linear less_le_trans order_refl less_irrefl)
    then show ?thesis unfolding list_eq_iff_nth_eq by (auto simp: o)
  qed
  have sl: "map fst ?s = take (length ?s) ids \<Longrightarrow> length ?s \<le> length ids"
    by (metis length_map length_take min.cobounded1 min_def)
  have n: "node_set_len nodes = length ids" using r by (simp add: represents_def)
  define b0 where "b0 = \<lparr>b_offsets = [0], b_neighbors = [], b_edge_ids = (if ke then Some [] else None), b_unsorted = []\<rparr>"
  have b0: "built ke b0 []" by (simp add: built_def b0_def)
  have e: "export_rows (\<lambda>_. True) nodes hint ke rows =
      and_then (if length ids > 0 then walk_rows nodes rows b0 else Inr b0) (\<lambda>b. Inr (builder_finish (length ids) b))"
    by (simp add: export_rows_def builder_new_def n Let_def b0_def)
  show ?thesis
  proof (cases "length ids > 0")
    case True
    have w: "if map (ordinal_of nodes \<circ> fst) ?s = map Some [0..<length ?s] \<and> length (concat (map (kept nodes \<circ> snd) ?s)) \<le> u32_max
      then \<exists>b'. walk_rows nodes rows b0 = Inr b' \<and> built ke b' (map (kept nodes \<circ> snd) ?s)
      else \<exists>m. walk_rows nodes rows b0 = Inl m"
      using walk_rows_built [OF b b0, of rows, unfolded append_Nil list.size(3) add_0 concat.simps(1)] by simp
    show ?thesis
    proof (cases "map fst ?s = take (length ?s) ids \<and> length (concat (map (kept nodes \<circ> snd) ?s)) \<le> u32_max")
      case c: True
      with w cond sl obtain b' where "walk_rows nodes rows b0 = Inr b'" "built ke b' (map (kept nodes \<circ> snd) ?s)" by auto
      with c sl True show ?thesis unfolding e by auto
    next
      case c: False
      with w cond sl obtain m where "walk_rows nodes rows b0 = Inl m" by auto
      with True show ?thesis unfolding e if_not_P [OF c] by simp
    qed
  next
    case False
    then have "?s = []" using o by (auto simp: selected_def)
    with False b0 show ?thesis unfolding e by auto
  qed
qed

section \<open>The cursor finds the slots of a key\<close>

lemma takeWhile_nth_holds: "i < length (takeWhile P xs) \<Longrightarrow> P (xs ! i)"
  by (induction xs arbitrary: i) (auto simp: nth_Cons split: if_splits nat.splits)

lemma partition_sorted:
  assumes "sorted (map key order)"
  shows "length (takeWhile (\<lambda>s. key s < (wanted :: 'k :: linorder)) order) = card {i. i < length order \<and> key (order ! i) < wanted}"
    and "\<forall>i<length order. key (order ! i) < wanted \<longleftrightarrow> i < length (takeWhile (\<lambda>s. key s < wanted) order)"
proof -
  let ?n = "length (takeWhile (\<lambda>s. key s < wanted) order)"
  have s: "key (order ! i) \<le> key (order ! j)" if "i \<le> j" "j < length order" for i j
    using sorted_nth_mono [OF assms that(1)] that by simp
  show i: "\<forall>i<length order. key (order ! i) < wanted \<longleftrightarrow> i < ?n"
  proof (intro allI impI)
    fix i assume il: "i < length order"
    show "key (order ! i) < wanted \<longleftrightarrow> i < ?n"
    proof
      assume "i < ?n"
      then show "key (order ! i) < wanted" by (rule takeWhile_nth_holds)
    next
      assume k: "key (order ! i) < wanted"
      show "i < ?n"
      proof (rule ccontr)
        assume "\<not> i < ?n"
        then have n: "?n \<le> i" "?n < length order" using il by auto
        have "\<not> key (order ! ?n) < wanted" using nth_length_takeWhile [OF n(2)] .
        with s [OF n(1) il] k show False by simp
      qed
    qed
  qed
  have "{i. i < length order \<and> key (order ! i) < wanted} = {..<?n}"
    using i length_takeWhile_le [of "\<lambda>s. key s < wanted" order] by auto
  then show "?n = card {i. i < length order \<and> key (order ! i) < wanted}" by simp
qed

text \<open>A cursor stands at the first slot whose key is at least the key it was last asked for.\<close>

definition cursor_at :: "nat list \<Rightarrow> (nat \<Rightarrow> 'k :: linorder) \<Rightarrow> 'k sorted_cursor \<Rightarrow> bool" where
  "cursor_at order key c \<longleftrightarrow>
     (case c_previous c of
        None \<Rightarrow> c_position c = 0
      | Some previous \<Rightarrow> c_position c = length (takeWhile (\<lambda>s. key s < previous) order))"

lemma takeWhile_drop_length:
  assumes "sorted (map key order)" and "\<not> wanted < previous"
  shows "skip_while (\<lambda>s. key s < (wanted :: 'k :: linorder)) order (length (takeWhile (\<lambda>s. key s < previous) order)) =
    length (takeWhile (\<lambda>s. key s < wanted) order)"
proof -
  let ?p = "\<lambda>s. key s < previous"
  have "\<forall>s\<in>set (takeWhile ?p order). key s < wanted" using assms(2) by (auto dest!: set_takeWhileD)
  then have "takeWhile (\<lambda>s. key s < wanted) (takeWhile ?p order @ dropWhile ?p order) =
      takeWhile ?p order @ takeWhile (\<lambda>s. key s < wanted) (dropWhile ?p order)"
    by (intro takeWhile_append2) auto
  then show ?thesis unfolding skip_while_def dropWhile_eq_drop [symmetric] by simp
qed

lemma cursor_find_step:
  assumes "sorted (map key order)" and "cursor_at order key c" and "cursor_find order key wanted c = ((start, end), c')"
  shows "cursor_at order key c' \<and> start \<le> end \<and> end \<le> length order \<and>
    (\<forall>i<length order. key (order ! i) = wanted \<longleftrightarrow> start \<le> i \<and> i < end)"
proof -
  let ?n = "length (takeWhile (\<lambda>s. key s < wanted) order)"
  let ?r = "drop ?n order"
  have pos: "start = ?n"
    using assms takeWhile_drop_length [OF assms(1)]
    by (auto simp: cursor_find_def Let_def cursor_at_def partition_point_def skip_while_def split: option.splits if_splits)
  then have en: "end = ?n + length (takeWhile (\<lambda>s. key s = wanted) ?r)" and c: "c' = c\<lparr>c_position := start, c_previous := Some wanted\<rparr>"
    using assms(3) by (auto simp: cursor_find_def Let_def skip_while_def)
  have l: "?n \<le> length order" by (rule length_takeWhile_le)
  have "length (takeWhile (\<lambda>s. key s = wanted) ?r) \<le> length ?r" by (rule length_takeWhile_le)
  then have le: "start \<le> end" "end \<le> length order" using pos en l by auto
  have low: "key (order ! i) < wanted \<longleftrightarrow> i < ?n" if "i < length order" for i
    using partition_sorted(2) [OF assms(1)] that by blast
  have "key (order ! i) = wanted \<longleftrightarrow> start \<le> i \<and> i < end" if il: "i < length order" for i
  proof (cases "i < ?n")
    case True
    then have "key (order ! i) < wanted" using low [OF il] by simp
    with True pos show ?thesis by auto
  next
    case False
    define j where "j = i - ?n"
    have j: "j < length ?r" "?r ! j = order ! i" using False il by (auto simp: j_def)
    have sr: "sorted (map key ?r)" using assms(1) by (simp add: drop_map [symmetric] sorted_wrt_drop)
    have ge: "\<forall>s\<in>set ?r. wanted \<le> key s"
    proof
      fix s assume "s \<in> set ?r"
      then obtain k where "k < length ?r" "s = ?r ! k" by (auto simp: in_set_conv_nth)
      then have "s = order ! (?n + k)" "?n + k < length order" by auto
      with low [of "?n + k"] show "wanted \<le> key s" by auto
    qed
    have tw: "takeWhile (\<lambda>s. key s = wanted) ?r = takeWhile (\<lambda>s. \<not> wanted < key s) ?r"
      using ge by (intro takeWhile_cong) (auto intro: antisym)
    have "key (?r ! j) = wanted \<longleftrightarrow> j < length (takeWhile (\<lambda>s. key s = wanted) ?r)"
    proof
      assume k: "key (?r ! j) = wanted"
      show "j < length (takeWhile (\<lambda>s. key s = wanted) ?r)"
      proof (rule ccontr)
        let ?m = "length (takeWhile (\<lambda>s. key s = wanted) ?r)"
        assume "\<not> j < ?m"
        then have m: "?m \<le> j" "?m < length ?r" using j by auto
        have "key (?r ! ?m) \<noteq> wanted" using nth_length_takeWhile [OF m(2)] .
        moreover have "key (?r ! ?m) \<le> key (?r ! j)" using sorted_nth_mono [OF sr m(1)] j m by simp
        moreover have "wanted \<le> key (?r ! ?m)" using ge m(2) nth_mem by blast
        ultimately show False using k by simp
      qed
    next
      assume "j < length (takeWhile (\<lambda>s. key s = wanted) ?r)"
      then show "key (?r ! j) = wanted" by (rule takeWhile_nth_holds)
    qed
    with j pos en False show ?thesis by (auto simp: j_def)
  qed
  with le pos c show ?thesis by (simp add: cursor_at_def)
qed

text \<open>A sequence of lookups.\<close>

fun cursor_run :: "nat list \<Rightarrow> (nat \<Rightarrow> 'k :: linorder) \<Rightarrow> 'k list \<Rightarrow> 'k sorted_cursor \<Rightarrow> (nat \<times> nat) list" where
  "cursor_run order key [] c = []"
| "cursor_run order key (wanted # rest) c =
     (case cursor_find order key wanted c of (found, c) \<Rightarrow> found # cursor_run order key rest c)"

lemma cursor_run_ranges:
  "sorted (map key order) \<Longrightarrow> cursor_at order key c \<Longrightarrow>
   list_all2 (\<lambda>wanted (start, end). start \<le> end \<and> end \<le> length order \<and>
     (\<forall>i<length order. key (order ! i) = wanted \<longleftrightarrow> start \<le> i \<and> i < end)) ws (cursor_run order key ws c)"
proof (induction ws arbitrary: c)
  case (Cons w ws)
  obtain s e c' where f: "cursor_find order key w c = ((s, e), c')" by (metis prod.collapse)
  from cursor_find_step [OF Cons.prems f] Cons.IH [OF Cons.prems(1), of c'] f show ?case by simp
qed simp

section \<open>Properties\<close>

text \<open>C34. A node set made of ascending identifiers represents exactly these, in both of its representations and for every
  bound on the rank table: it has one ordinal for each, the two translations are inverse to each other, any other
  identifier has no ordinal, and an ordinal outside the set resolves to the greatest identifier.\<close>

theorem node_set_translates:
  assumes "sorted_wrt (<) ids" and "\<forall>x\<in>set ids. x \<le> u64_max" and "length ids \<le> u32_max"
  shows "node_set_len (node_set_from_ids ids rank_cap) = length ids \<and>
    (\<forall>n<length ids. node_id_of (node_set_from_ids ids rank_cap) n = ids ! n) \<and>
    (\<forall>x n. ordinal_of (node_set_from_ids ids rank_cap) x = Some n \<longleftrightarrow> n < length ids \<and> ids ! n = x) \<and>
    (\<forall>n. length ids \<le> n \<longrightarrow> node_id_of (node_set_from_ids ids rank_cap) n = u64_max)"
  using from_ids_represents [OF assms, of rank_cap] represents_bounded(2) [OF from_ids_represents [OF assms, of rank_cap]] assms(3)
  by (simp add: represents_def)

theorem node_set_translates_witness:
  "ordinal_of (node_set_from_ids [3, 5, 9] 6) 9 = Some 2 \<and> ordinal_of (node_set_from_ids [3, 5, 9] 6) 5 = Some 1"
  using node_set_translates [of "[3, 5, 9]" 6] by (simp add: u64_max_def u32_max_def)

lemma export_rows_neighbors:
  fixes rows :: "adjacency_row list"
  assumes r: "represents nodes ids" and l: "length ids \<le> u32_max"
    and x: "export_rows (\<lambda>_. True) nodes entry_hint keep_edge_ids rows = Inr (t_offsets g, t_neighbors g, edge_ids)"
  shows "map fst (selected nodes rows) = take (length (selected nodes rows)) ids"
    and "edge_ids = (if keep_edge_ids then Some (map fst (concat (map (kept nodes \<circ> snd) (selected nodes rows)))) else None)"
    and "n < length ids \<Longrightarrow> neighbor_ordinals g n =
        (if n < length (selected nodes rows) then map snd (kept nodes (snd (selected nodes rows ! n))) else [])"
    and "n < length ids \<Longrightarrow> m \<in> set (neighbor_ordinals g n) \<Longrightarrow> m < length ids"
proof -
  let ?s = "selected nodes rows" and ?p = "map (kept nodes \<circ> snd) (selected nodes rows)"
  from export_rows_eq [OF r l, of rows entry_hint keep_edge_ids] x obtain b where
    b: "builder_finish (length ids) b = (t_offsets g, t_neighbors g, edge_ids)" "built keep_edge_ids b ?p" "length ?s \<le> length ids"
    and "map fst ?s = take (length ?s) ids" by (auto split: if_splits)
  then show "map fst ?s = take (length ?s) ids" by simp
  have len: "length ?p \<le> length ids" using b(3) by simp
  note f = finish_rows [OF b(2) len b(1) refl refl]
  show "edge_ids = (if keep_edge_ids then Some (map fst (concat ?p)) else None)" by (rule f(1))
  have ob: "ordinal_of nodes y = Some k \<Longrightarrow> k < length ids" for y k
    using represents_bounded(2) [OF r, of y k] l by simp
  have k: "(e, i) \<in> set (kept nodes row) \<Longrightarrow> i < length ids" for e i row
    by (auto simp: kept_def dest: ob)
  show nb: "neighbor_ordinals g n = (if n < length ?s then map snd (kept nodes (snd (?s ! n))) else [])" if "n < length ids"
    using f(2) [OF that] by auto
  show "m < length ids" if "n < length ids" "m \<in> set (neighbor_ordinals g n)"
    using that(2) unfolding nb [OF that(1)] by (auto dest: k split: if_splits)
qed

text \<open>C7. The export of a selection reads the rows of the adjacency walk into the flat topology. It succeeds exactly when the
  rows of the selected nodes come in the order of their ordinals without a gap and their entries number at most
  \<open>2 ^ 32 - 1\<close>. Then the row of every selected node holds the ordinals of its selected neighbors in the order of
  edge and neighbor, every one of them an ordinal of the selection, nodes without a row have an empty one, and the kept
  edge identifiers run parallel to the neighbors.\<close>

theorem export_rows_topology:
  fixes rows :: "adjacency_row list"
  assumes "represents nodes ids" and "length ids \<le> u32_max"
  shows "((\<exists>r. export_rows (\<lambda>_. True) nodes entry_hint keep_edge_ids rows = Inr r) \<longleftrightarrow>
      map fst (selected nodes rows) = take (length (selected nodes rows)) ids \<and>
      length (concat (map (kept nodes \<circ> snd) (selected nodes rows))) \<le> u32_max) \<and>
    (export_rows (\<lambda>_. True) nodes entry_hint keep_edge_ids rows = Inr (t_offsets g, t_neighbors g, edge_ids) \<longrightarrow>
      (\<forall>n<length ids. neighbor_ordinals g n =
        (if n < length (selected nodes rows) then map snd (kept nodes (snd (selected nodes rows ! n))) else []) \<and>
        (\<forall>m\<in>set (neighbor_ordinals g n). m < length ids)) \<and>
      edge_ids = (if keep_edge_ids then Some (map fst (concat (map (kept nodes \<circ> snd) (selected nodes rows)))) else None))"
proof (intro conjI impI)
  let ?s = "selected nodes rows" and ?p = "map (kept nodes \<circ> snd) (selected nodes rows)"
  show "(\<exists>r. export_rows (\<lambda>_. True) nodes entry_hint keep_edge_ids rows = Inr r) \<longleftrightarrow>
      map fst ?s = take (length ?s) ids \<and> length (concat ?p) \<le> u32_max"
    using export_rows_eq [OF assms, of rows entry_hint keep_edge_ids] by (metis Inl_Inr_False)
  assume x: "export_rows (\<lambda>_. True) nodes entry_hint keep_edge_ids rows = Inr (t_offsets g, t_neighbors g, edge_ids)"
  note e = export_rows_neighbors [OF assms x]
  show "edge_ids = (if keep_edge_ids then Some (map fst (concat ?p)) else None)" by (rule e(2))
  show "\<forall>n<length ids. neighbor_ordinals g n = (if n < length ?s then map snd (kept nodes (snd (?s ! n))) else []) \<and>
      (\<forall>m\<in>set (neighbor_ordinals g n). m < length ids)"
    using e(3,4) by blast
qed

theorem export_rows_topology_witness:
  "neighbor_ordinals (topology_default\<lparr>t_offsets := [0, 1, 1, 3], t_neighbors := [2, 0, 2]\<rparr> :: nat topology_graph) 2 = [0, 2]"
proof -
  let ?n = "node_set_from_ids [3, 5, 9] 6"
  let ?rows = "[(3, [7, 8], [9, 4]), (4, [7], [3]), (5, [], []), (9, [8, 6], [9, 3])] :: adjacency_row list"
  have ids: "sorted_wrt (<) [3, 5, 9 :: nat]" "\<forall>x\<in>set [3, 5, 9 :: nat]. x \<le> u64_max" "length [3, 5, 9 :: nat] \<le> u32_max"
    by (simp_all add: u64_max_def u32_max_def)
  have r: "represents ?n [3, 5, 9]" by (rule from_ids_represents [OF ids])
  have o: "ordinal_of ?n 3 = Some 0" "ordinal_of ?n 4 = None" "ordinal_of ?n 5 = Some 1" "ordinal_of ?n 9 = Some 2"
    using r represents_bounded(2) [OF r] by (auto simp: represents_def u32_max_def)
  have e: "export_rows (\<lambda>_. True) ?n 4 False ?rows = Inr ([0, 1, 1, 3], [2, 0, 2], None)"
    by (simp add: export_rows_def builder_new_def walk_rows.simps push_row_def keep_def next_ordinal_def try_u32_def u32_max_def
        builder_finish_def resize_def o r [unfolded represents_def, THEN conjunct1] less_eq_prod_def less_prod_def Let_def)
  have s: "selected ?n ?rows = [(3, [7, 8], [9, 4]), (5, [], []), (9, [8, 6], [9, 3])]" by (simp add: selected_def o)
  let ?g = "topology_default\<lparr>t_offsets := [0, 1, 1, 3], t_neighbors := [2, 0, 2]\<rparr> :: nat topology_graph"
  have "\<forall>n<length [3, 5, 9 :: nat]. neighbor_ordinals ?g n =
      (if n < length (selected ?n ?rows) then map snd (kept ?n (snd (selected ?n ?rows ! n))) else [])"
    using export_rows_topology [OF r ids(3), of 4 False ?rows ?g None] e by simp
  then have "neighbor_ordinals ?g 2 = map snd (kept ?n ([8, 6], [9, 3]))" by (simp add: s)
  then show ?thesis by (simp add: kept_def o less_eq_prod_def less_prod_def)
qed

text \<open>What the standard library documents of \<open>sort_unstable_by_key\<close>: a permutation, ascending by the key.\<close>

definition sorts :: "(('a \<Rightarrow> 'k :: linorder) \<Rightarrow> 'a list \<Rightarrow> 'a list) \<Rightarrow> bool" where
  "sorts sort_by \<longleftrightarrow>
     (\<forall>key xs. sorted (map key (sort_by key xs)) \<and> set (sort_by key xs) = set xs \<and> length (sort_by key xs) = length xs)"

text \<open>C35. A cursor into a permutation sorted by any sort answers any sequence of lookups, in ascending order or not: each
  lookup returns the range of exactly the slots with the wanted key.\<close>

theorem cursor_finds_ranges:
  assumes "sorts sort_by" and "slot_order reserve sort_by n key = Inr order"
  shows "distinct order \<and> set order = {..<n} \<and>
    list_all2 (\<lambda>wanted (start, end). start \<le> end \<and> end \<le> length order \<and>
      (\<forall>i<length order. key (order ! i) = wanted \<longleftrightarrow> start \<le> i \<and> i < end)) ws (cursor_run order key ws cursor_new)"
proof (intro conjI)
  have o: "order = sort_by key [0..<n]" using assms(2) by (auto simp: slot_order_def size_error_def split: if_splits)
  have s: "sorted (map key order)" "set order = {..<n}" "length order = n"
    using assms(1) unfolding sorts_def o by auto
  show "distinct order" by (rule card_distinct) (simp add: s(2,3))
  show "set order = {..<n}" by (rule s(2))
  from s(1) show "list_all2 (\<lambda>wanted (start, end). start \<le> end \<and> end \<le> length order \<and>
      (\<forall>i<length order. key (order ! i) = wanted \<longleftrightarrow> start \<le> i \<and> i < end)) ws (cursor_run order key ws cursor_new)"
    by (rule cursor_run_ranges) (simp add: cursor_at_def cursor_new_def)
qed

theorem cursor_finds_ranges_witness:
  "list_all2 (\<lambda>wanted (start, end). start \<le> end \<and> end \<le> length [1, 3, 0, 2 :: nat] \<and>
      (\<forall>i<length [1, 3, 0, 2 :: nat]. [7 :: nat, 2, 7, 5] ! ([1, 3, 0, 2] ! i) = wanted \<longleftrightarrow> start \<le> i \<and> i < end))
    [7, 2] [(2, 4), (0, 1)]"
proof -
  have s: "sorts (sort_key :: (nat \<Rightarrow> nat) \<Rightarrow> nat list \<Rightarrow> nat list)" by (simp add: sorts_def)
  have o: "slot_order (\<lambda>_. True) sort_key 4 (\<lambda>s. [7 :: nat, 2, 7, 5] ! s) = Inr [1, 3, 0, 2]"
    by (simp add: slot_order_def u32_max_def upt_rec)
  have r: "cursor_run [1, 3, 0, 2] (\<lambda>s. [7 :: nat, 2, 7, 5] ! s) [7, 2] cursor_new = [(2, 4), (0, 1)]"
    by (simp add: cursor_find_def cursor_new_def skip_while_def partition_point_def Let_def)
  show ?thesis
    by (rule cursor_finds_ranges [OF s o, where ws = "[7, 2]", THEN conjunct2, THEN conjunct2, unfolded r])
qed

end
