(* ===== verification/Components.thy ===== *)
theory Components
  imports Topology "HOL-Library.AList"
begin

text \<open>
  \<open>crates/graphforge-exec/src/algorithm_cluster/components.rs\<close>: connected components by union-find, with the serial
  pass over the edges, the parallel pass that unites chunks of sources in hash maps and then unites their links, the
  choice between the two and the numbering of the components. A call that may not return is an option: \<open>None\<close> stands
  for a call that loops or indexes out of bounds. An error is on the left of a sum. Cancellation is asked at fixed places
  of the code; the parameter \<open>polls\<close> gives the answer to each poll. The output is the list of its rows.
\<close>

section \<open>Errors and control\<close>

datatype algorithm_error =
  Unavailable string
| DuplicateCapability string
| Cancelled
| NodeLimit nat nat
| EdgeLimit nat nat
| OutputLimit nat nat
| IterationLimit nat nat
| StateLimit nat nat
| StateOverflow
| SteinerOption string string string
| SteinerTerminalCardinality string nat nat
| SteinerTerminalOutsideProjection uuid
| NonConvergence nat
| Execution string
| UndefinedConductance string
| UndefinedModularity
| AutomorphismCountOverflow
| AutomorphismCountStateLimit nat nat
| UndefinedEulerCircuit
| UndefinedEulerPath

definition fault_domain :: "algorithm_error \<Rightarrow> string" where
  "fault_domain e =
     (case e of Unavailable _ \<Rightarrow> ''validation'' | DuplicateCapability _ \<Rightarrow> ''validation'' | _ \<Rightarrow> ''execution'')"

text \<open>The places that poll cancellation; those of a chunk carry its first source.\<close>

datatype poll_site =
  SerialUnion | PoolEntry | ChunkEntry nat | ChunkUnion nat | ChunkExit nat | LinkUnion | OutputLoop

record control =
  c_polls :: "poll_site \<Rightarrow> nat \<Rightarrow> bool"
  c_compute_threads :: nat
  c_pool_parallel :: "bool option"
  c_output_rows :: nat

type_synonym 'a result = "(algorithm_error + 'a) option"

definition bind_result :: "'a result \<Rightarrow> ('a \<Rightarrow> 'b result) \<Rightarrow> 'b result" where
  "bind_result x f = (case x of None \<Rightarrow> None | Some (Inl e) \<Rightarrow> Some (Inl e) | Some (Inr y) \<Rightarrow> f y)"

definition check_cancelled :: "control \<Rightarrow> poll_site \<Rightarrow> nat \<Rightarrow> algorithm_error + unit" where
  "check_cancelled control site k = (if c_polls control site k then Inl Cancelled else Inr ())"

definition COMPONENTS_CHECKPOINT_EDGES :: nat where
  "COMPONENTS_CHECKPOINT_EDGES = 16384"

definition COMPONENTS_PARALLEL_CROSSOVER_EDGES :: nat where
  "COMPONENTS_PARALLEL_CROSSOVER_EDGES = 16384"

text \<open>A poll at every multiple of the interval.\<close>

definition poll_at :: "control \<Rightarrow> poll_site \<Rightarrow> nat \<Rightarrow> algorithm_error + unit" where
  "poll_at control site work =
     (if work mod COMPONENTS_CHECKPOINT_EDGES = 0 then check_cancelled control site (work div COMPONENTS_CHECKPOINT_EDGES)
      else Inr ())"

section \<open>Union-find on an array\<close>

partial_function (option) find :: "nat list \<Rightarrow> nat \<Rightarrow> (nat \<times> nat list) option" where
  "find parents index =
     (if index \<ge> length parents then None
      else if parents ! index \<noteq> index
      then Option.bind (find parents (parents ! index)) (\<lambda>(root, parents). Some (root, parents[index := root]))
      else Some (parents ! index, parents))"

definition union_array :: "nat list \<Rightarrow> nat \<Rightarrow> nat \<Rightarrow> nat list option" where
  "union_array parents left right =
     Option.bind (find parents left) (\<lambda>(left, parents).
     Option.bind (find parents right) (\<lambda>(right, parents).
     let (first, second) = (if left \<le> right then (left, right) else (right, left))
     in Some (parents[second := first])))"

section \<open>Union-find on a hash map\<close>

text \<open>A hash map is an association list with distinct keys; \<open>insert\<close> is \<open>AList.update\<close>.\<close>

type_synonym hash_parents = "(nat \<times> nat) list"

text \<open>\<open>entry(k).or_insert(k)\<close>.\<close>

definition or_insert_self :: "hash_parents \<Rightarrow> nat \<Rightarrow> hash_parents" where
  "or_insert_self parents k = (case map_of parents k of None \<Rightarrow> AList.update k k parents | Some _ \<Rightarrow> parents)"

partial_function (option) local_root :: "hash_parents \<Rightarrow> nat \<Rightarrow> (nat \<times> hash_parents) option" where
  "local_root parents root =
     (let parents = or_insert_self parents root; parent = the (map_of parents root)
      in if parent = root then Some (root, parents) else local_root parents parent)"

partial_function (option) local_compress :: "hash_parents \<Rightarrow> nat \<Rightarrow> nat \<Rightarrow> hash_parents option" where
  "local_compress parents cursor root =
     (if cursor = root then Some parents
      else local_compress (AList.update cursor root parents) (case map_of parents cursor of Some parent \<Rightarrow> parent | None \<Rightarrow> root) root)"

definition local_find :: "hash_parents \<Rightarrow> nat \<Rightarrow> (nat \<times> hash_parents) option" where
  "local_find parents index =
     Option.bind (local_root (or_insert_self parents index) index) (\<lambda>(root, parents).
     Option.bind (local_compress parents index root) (\<lambda>parents. Some (root, parents)))"

definition local_union :: "hash_parents \<Rightarrow> nat \<Rightarrow> nat \<Rightarrow> hash_parents option" where
  "local_union parents left right =
     Option.bind (local_find parents left) (\<lambda>(left, parents).
     Option.bind (local_find parents right) (\<lambda>(right, parents).
     let (first, second) = (if left \<le> right then (left, right) else (right, left))
     in Some (AList.update second first parents)))"

section \<open>The serial pass\<close>

definition selected_neighbors :: "'w topology_graph \<Rightarrow> nat \<Rightarrow> algorithm_error + nat list" where
  "selected_neighbors graph source =
     (let row = neighbor_ordinals graph source
      in if list_ex (\<lambda>target. target \<ge> node_count graph) row
         then Inl (Execution ''adjacency references an unselected node'') else Inr row)"

fun union_targets :: "('s \<Rightarrow> nat \<Rightarrow> nat \<Rightarrow> 's option) \<Rightarrow> control \<Rightarrow> poll_site \<Rightarrow> nat \<Rightarrow> nat list \<Rightarrow> 's \<times> nat \<Rightarrow> ('s \<times> nat) result" where
  "union_targets unite control site source [] st = Some (Inr st)"
| "union_targets unite control site source (target # targets) (parents, visited_edges) =
     (case poll_at control site visited_edges of
        Inl e \<Rightarrow> Some (Inl e)
      | Inr _ \<Rightarrow>
          Option.bind (unite parents source target) (\<lambda>parents.
          union_targets unite control site source targets (parents, visited_edges + 1)))"

fun union_sources :: "('s \<Rightarrow> nat \<Rightarrow> nat \<Rightarrow> 's option) \<Rightarrow> control \<Rightarrow> poll_site \<Rightarrow> 'w topology_graph \<Rightarrow> nat list \<Rightarrow> 's \<times> nat \<Rightarrow> ('s \<times> nat) result" where
  "union_sources unite control site graph [] st = Some (Inr st)"
| "union_sources unite control site graph (source # sources) st =
     (case selected_neighbors graph source of
        Inl e \<Rightarrow> Some (Inl e)
      | Inr targets \<Rightarrow>
          bind_result (union_targets unite control site source targets st)
            (union_sources unite control site graph sources))"

definition components_union_serial :: "'w topology_graph \<Rightarrow> nat list \<Rightarrow> control \<Rightarrow> nat list result" where
  "components_union_serial graph parents control =
     bind_result (union_sources union_array control SerialUnion graph [0..<node_count graph] (parents, 0))
       (\<lambda>(parents, _). Some (Inr parents))"

section \<open>The parallel pass\<close>

fun chunk_ranges :: "nat \<Rightarrow> nat \<Rightarrow> nat \<Rightarrow> nat list \<Rightarrow> (nat \<times> nat) list" where
  "chunk_ranges base remainder start [] = []"
| "chunk_ranges base remainder start (index # indices) =
     (let len = base + (if index < remainder then 1 else 0); end = start + len
      in (if start < end then [(start, end)] else []) @ chunk_ranges base remainder end indices)"

definition component_source_chunks :: "nat \<Rightarrow> nat \<Rightarrow> (nat \<times> nat) list" where
  "component_source_chunks nodes threads =
     (if nodes = 0 then []
      else let workers = min (max threads 1) nodes
           in chunk_ranges (nodes div workers) (nodes mod workers) 0 [0..<workers])"

fun chunk_links :: "hash_parents \<Rightarrow> nat list \<Rightarrow> (nat \<times> nat) list option" where
  "chunk_links parents [] = Some []"
| "chunk_links parents (index # touched) =
     Option.bind (local_find parents index) (\<lambda>(root, parents).
     Option.bind (chunk_links parents touched) (\<lambda>links.
     Some (if index \<noteq> root then (root, index) # links else links)))"

definition components_chunk_links :: "'w topology_graph \<Rightarrow> nat \<Rightarrow> nat \<Rightarrow> control \<Rightarrow> (nat \<times> nat) list result" where
  "components_chunk_links graph start end control =
     (case check_cancelled control (ChunkEntry start) 0 of
        Inl e \<Rightarrow> Some (Inl e)
      | Inr _ \<Rightarrow>
          bind_result (union_sources local_union control (ChunkUnion start) graph [start..<end] ([], 0)) (\<lambda>(parents, _).
          case check_cancelled control (ChunkExit start) 0 of
            Inl e \<Rightarrow> Some (Inl e)
          | Inr _ \<Rightarrow> map_option Inr (chunk_links parents (sort (map fst parents)))))"

fun union_links :: "control \<Rightarrow> (nat \<times> nat) list \<Rightarrow> nat list \<times> nat \<Rightarrow> (nat list \<times> nat) result" where
  "union_links control [] st = Some (Inr st)"
| "union_links control ((root, index) # links) (parents, work) =
     (case poll_at control LinkUnion work of
        Inl e \<Rightarrow> Some (Inl e)
      | Inr _ \<Rightarrow>
          Option.bind (union_array parents root index) (\<lambda>parents. union_links control links (parents, work + 1)))"

fun union_chunks :: "control \<Rightarrow> (algorithm_error + (nat \<times> nat) list) list \<Rightarrow> nat list \<times> nat \<Rightarrow> (nat list \<times> nat) result" where
  "union_chunks control [] st = Some (Inr st)"
| "union_chunks control (Inl e # chunks) st = Some (Inl e)"
| "union_chunks control (Inr links # chunks) st = bind_result (union_links control links st) (union_chunks control chunks)"

text \<open>The pool runs every chunk and returns the results in the order of the chunks.\<close>

fun run_chunks :: "'w topology_graph \<Rightarrow> control \<Rightarrow> (nat \<times> nat) list \<Rightarrow> (algorithm_error + (nat \<times> nat) list) list option" where
  "run_chunks graph control [] = Some []"
| "run_chunks graph control ((start, end) # ranges) =
     Option.bind (components_chunk_links graph start end control) (\<lambda>chunk.
     Option.bind (run_chunks graph control ranges) (\<lambda>chunks. Some (chunk # chunks)))"

definition components_union_parallel :: "'w topology_graph \<Rightarrow> nat list \<Rightarrow> control \<Rightarrow> nat list result" where
  "components_union_parallel graph parents control =
     (case c_pool_parallel control of
        None \<Rightarrow> Some (Inl (Execution ''parallel components requires an instance-owned compute pool''))
      | Some _ \<Rightarrow>
          (case check_cancelled control PoolEntry 0 of
             Inl e \<Rightarrow> Some (Inl e)
           | Inr _ \<Rightarrow>
               Option.bind (run_chunks graph control (component_source_chunks (node_count graph) (max (c_compute_threads control) 1))) (\<lambda>chunks.
               bind_result (union_chunks control chunks (parents, 0)) (\<lambda>(parents, _). Some (Inr parents)))))"

section \<open>The algorithm\<close>

datatype components_execution_path =
  Serial
| Parallel nat nat

definition select_components_path :: "control \<Rightarrow> nat \<Rightarrow> nat \<Rightarrow> components_execution_path" where
  "select_components_path control nodes edge_entries =
     (let threads = max (c_compute_threads control) 1
      in if threads \<le> 1 \<or> nodes \<le> 1 \<or> edge_entries < COMPONENTS_PARALLEL_CROSSOVER_EDGES \<or> c_pool_parallel control \<noteq> Some True
         then Serial
         else let chunks = length (component_source_chunks nodes threads)
              in if chunks \<le> 1 then Serial else Parallel threads chunks)"

fun number_components :: "'w topology_graph \<Rightarrow> control \<Rightarrow> nat list \<Rightarrow> nat list \<Rightarrow> (nat \<rightharpoonup> nat) \<Rightarrow> nat \<Rightarrow> (uuid \<times> nat) list \<Rightarrow> (uuid \<times> nat) list result" where
  "number_components graph control [] parents ids assigned rows = Some (Inr rows)"
| "number_components graph control (index # indices) parents ids assigned rows =
     (case poll_at control OutputLoop index of
        Inl e \<Rightarrow> Some (Inl e)
      | Inr _ \<Rightarrow>
          Option.bind (find parents index) (\<lambda>(root, parents).
          if ids root = None \<and> assigned + 1 \<ge> 2 ^ 63
          then Some (Inl (Execution ''component count exceeds Int64 result range''))
          else
            let (community_id, ids, assigned) =
                  (case ids root of Some n \<Rightarrow> (n, ids, assigned) | None \<Rightarrow> (assigned, ids(root \<mapsto> assigned), assigned + 1))
            in case uuid_of_ordinal graph index of
                 None \<Rightarrow> Some (Inl (Execution ''selected node has no UUID identity''))
               | Some uuid \<Rightarrow>
                   if length rows + 1 > c_output_rows control
                   then Some (Inl (OutputLimit (length rows + 1) (c_output_rows control)))
                   else number_components graph control indices parents ids assigned (rows @ [(uuid, community_id)])))"

definition components_execute :: "'w topology_graph \<Rightarrow> control \<Rightarrow> (uuid \<times> nat) list result" where
  "components_execute graph control =
     (let parents = [0..<node_count graph]
      in bind_result
           (case select_components_path control (node_count graph) (edge_entry_count graph) of
              Serial \<Rightarrow> components_union_serial graph parents control
            | Parallel _ _ \<Rightarrow> components_union_parallel graph parents control) (\<lambda>parents.
         number_components graph control [0..<node_count graph] parents Map.empty 0 []))"

section \<open>Forests whose parents do not exceed their children\<close>

definition forest :: "(nat \<Rightarrow> nat) \<Rightarrow> bool" where
  "forest f \<longleftrightarrow> (\<forall>i. f i \<le> i)"

function rep :: "(nat \<Rightarrow> nat) \<Rightarrow> nat \<Rightarrow> nat" where
  "rep f i = (if f i < i then rep f (f i) else i)"
  by pat_completeness auto

termination rep
  by (relation "measure snd") auto

declare rep.simps [simp del]

lemma rep_le: "rep f i \<le> i"
  by (induction f i rule: rep.induct) (subst rep.simps, auto)

lemma forest_cases: "forest f \<Longrightarrow> f i < i \<or> f i = i"
  unfolding forest_def by (metis le_less)

lemma rep_parent: "rep f (f i) = rep f i" if "forest f"
  using forest_cases [OF that, of i] by (auto simp: rep.simps [of f i])

lemma rep_root: "forest f \<Longrightarrow> f (rep f i) = rep f i"
proof (induction f i rule: rep.induct)
  case (1 f i)
  then show ?case using forest_cases [OF 1(2), of i] by (subst (1 2) rep.simps) auto
qed

lemma rep_of_root: "f i = i \<Longrightarrow> rep f i = i"
  by (simp add: rep.simps)

lemma rep_rep: "forest f \<Longrightarrow> rep f (rep f i) = rep f i"
  by (rule rep_of_root [OF rep_root])

lemma rep_cong:
  assumes "forest f'" and "\<forall>i. rep f (f' i) = rep f i" and "\<forall>i. f' i = i \<longrightarrow> f i = i"
  shows "rep f' = rep f"
proof
  fix i show "rep f' i = rep f i"
  proof (induction i rule: less_induct)
    case (less i)
    show ?case
    proof (cases "f' i < i")
      case True
      then have "rep f' i = rep f' (f' i)" by (simp add: rep.simps)
      with less [OF True] assms(2) show ?thesis by simp
    next
      case False
      with forest_cases [OF assms(1), of i] have "f' i = i" by simp
      with assms(3) show ?thesis by (simp add: rep_of_root)
    qed
  qed
qed

lemma forest_compress: "forest f \<Longrightarrow> forest (f(i := rep f i)) \<and> rep (f(i := rep f i)) = rep f"
proof
  assume f: "forest f"
  show g: "forest (f(i := rep f i))" using f rep_le by (simp add: forest_def)
  show "rep (f(i := rep f i)) = rep f"
    by (rule rep_cong [OF g]) (use f rep_root [OF f, of i] in \<open>auto simp: rep_parent rep_rep\<close>)
qed

lemma rep_link:
  assumes f: "forest f" and a: "f a = a" and b: "f b = b" and ab: "a \<le> b"
  shows "forest (f(b := a)) \<and> rep (f(b := a)) i = (if rep f i = b then a else rep f i)"
proof
  show g: "forest (f(b := a))" using f ab by (simp add: forest_def)
  have ra: "rep (f(b := a)) a = a" using a by (auto intro: rep_of_root)
  show "rep (f(b := a)) i = (if rep f i = b then a else rep f i)"
  proof (induction i rule: less_induct)
    case (less i)
    consider "i = b" | "i \<noteq> b" "f i = i" | "i \<noteq> b" "f i < i" using forest_cases [OF f, of i] by blast
    then show ?case
    proof cases
      case 1
      have "rep (f(b := a)) b = rep (f(b := a)) a" using rep_parent [OF g, of b] by simp
      with 1 ra rep_of_root [of f b] b show ?thesis by (simp del: fun_upd_apply)
    next
      case 2
      then show ?thesis by (simp add: rep_of_root)
    next
      case 3
      have "rep (f(b := a)) i = rep (f(b := a)) (f i)" using rep_parent [OF g, of i] 3 by simp
      with less [OF 3(2)] show ?thesis using rep_parent [OF f, of i] by (simp del: fun_upd_apply)
    qed
  qed
qed

section \<open>Connectivity\<close>

definition sym_conn :: "(nat \<times> nat) set \<Rightarrow> (nat \<times> nat) set" where
  "sym_conn E = (E \<union> E\<inverse>)\<^sup>*"

definition rel_of :: "(nat \<Rightarrow> nat) \<Rightarrow> (nat \<times> nat) set" where
  "rel_of f = {(i, j). rep f i = rep f j}"

lemma sym_conn_mono: "A \<subseteq> B \<Longrightarrow> sym_conn A \<subseteq> sym_conn B"
  unfolding sym_conn_def by (intro rtrancl_mono) auto

lemma sym_conn_sym: "(i, j) \<in> sym_conn E \<Longrightarrow> (j, i) \<in> sym_conn E"
proof -
  have "sym (E \<union> E\<inverse>)" by (auto simp: sym_def)
  then show "(i, j) \<in> sym_conn E \<Longrightarrow> (j, i) \<in> sym_conn E" unfolding sym_conn_def by (meson sym_rtrancl symD)
qed

lemma sym_conn_refl [simp]: "(i, i) \<in> sym_conn E"
  by (simp add: sym_conn_def)

lemma sym_conn_edge: "(i, j) \<in> E \<Longrightarrow> (i, j) \<in> sym_conn E"
  by (auto simp: sym_conn_def)

lemma sym_conn_trans: "(i, j) \<in> sym_conn E \<Longrightarrow> (j, k) \<in> sym_conn E \<Longrightarrow> (i, k) \<in> sym_conn E"
  unfolding sym_conn_def by (rule rtrancl_trans)

lemma sym_conn_converse: "(sym_conn A)\<inverse> = sym_conn A"
  using sym_conn_sym by auto

lemma sym_conn_Un: "sym_conn (A \<union> B) = (sym_conn A \<union> sym_conn B)\<^sup>*"
proof -
  have "A \<union> B \<union> (A \<union> B)\<inverse> = (A \<union> A\<inverse>) \<union> (B \<union> B\<inverse>)" by auto
  then show ?thesis unfolding sym_conn_def by (simp add: rtrancl_Un_rtrancl)
qed

lemma sym_conn_Un_cong: "sym_conn A = sym_conn A' \<Longrightarrow> sym_conn B = sym_conn B' \<Longrightarrow> sym_conn (A \<union> B) = sym_conn (A' \<union> B')"
  by (simp add: sym_conn_Un)

lemma sym_conn_least:
  assumes "\<And>i j. (i, j) \<in> E \<Longrightarrow> g i = g j"
  shows "(i, j) \<in> sym_conn E \<Longrightarrow> g i = g j"
  unfolding sym_conn_def by (induction rule: rtrancl_induct) (use assms in fastforce)+

lemma rel_of_link:
  assumes f: "forest f" and r: "rel_of f = sym_conn E"
    and ab: "{a, b} = {rep f left, rep f right}" "a \<le> b"
  shows "rel_of (f(b := a)) = sym_conn (insert (left, right) E)"
proof -
  let ?E = "insert (left, right) E" and ?f = "f(b := a)"
  have roots: "f a = a" "f b = b" using ab rep_root [OF f] by (auto simp: doubleton_eq_iff)
  have rl: "rep ?f i = (if rep f i = b then a else rep f i)" for i using rep_link [OF f roots ab(2)] by simp
  have old: "(i, j) \<in> sym_conn ?E" if "rep f i = rep f j" for i j
    using that r sym_conn_mono [of E ?E] by (auto simp: rel_of_def set_eq_iff)
  have lr: "(left, right) \<in> sym_conn ?E" "(right, left) \<in> sym_conn ?E"
    using sym_conn_edge [of left right ?E] sym_conn_sym by auto
  have "rep ?f left = rep ?f right" using ab rl by (auto simp: doubleton_eq_iff)
  moreover have "rep ?f i = rep ?f j" if "(i, j) \<in> E" for i j
  proof -
    have "rep f i = rep f j" using r sym_conn_edge [OF that] by (auto simp: rel_of_def set_eq_iff)
    then show ?thesis by (simp only: rl)
  qed
  ultimately have conv: "(i, j) \<in> sym_conn ?E \<Longrightarrow> rep ?f i = rep ?f j" for i j
    by (rule_tac sym_conn_least [of ?E "rep ?f"]) auto
  have ends: "(i, j) \<in> sym_conn ?E" if "rep f i = a" "rep f j = b" for i j
  proof (cases "a = rep f left")
    case True
    with ab(1) have "b = rep f right" by (auto simp: doubleton_eq_iff)
    with True that show ?thesis using old [of i left] old [of right j] lr(1) by (metis sym_conn_trans)
  next
    case False
    with ab(1) have "a = rep f right" "b = rep f left" by (auto simp: doubleton_eq_iff)
    with that show ?thesis using old [of i right] old [of left j] lr(2) by (metis sym_conn_trans)
  qed
  have fwd: "(i, j) \<in> sym_conn ?E" if "rep ?f i = rep ?f j" for i j
  proof -
    have "(if rep f i = b then a else rep f i) = (if rep f j = b then a else rep f j)" using that by (simp only: rl)
    then consider "rep f i = rep f j" | "rep f i = a" "rep f j = b" | "rep f i = b" "rep f j = a"
      by (cases "rep f i = b"; cases "rep f j = b") simp_all
    then show ?thesis
    proof cases
      case 1
      then show ?thesis by (rule old)
    next
      case 2
      then show ?thesis by (rule ends)
    next
      case 3
      then show ?thesis using ends [of j i] sym_conn_sym by blast
    qed
  qed
  show ?thesis
  proof (intro equalityI subrelI)
    show "(i, j) \<in> sym_conn ?E" if "(i, j) \<in> rel_of ?f" for i j
      using that by (intro fwd) (simp only: rel_of_def mem_Collect_eq case_prod_conv)
    show "(i, j) \<in> rel_of ?f" if "(i, j) \<in> sym_conn ?E" for i j
      using conv [OF that] by (simp only: rel_of_def mem_Collect_eq case_prod_conv)
  qed
qed

lemma rep_determined:
  assumes "forest f" "forest g" "rel_of f = rel_of g"
  shows "rep f = rep g"
proof
  fix i
  have "rep f (rep g i) = rep f i" "rep g (rep f i) = rep g i"
    using rep_rep [OF assms(1), of i] rep_rep [OF assms(2), of i] assms(3) by (auto simp: rel_of_def set_eq_iff)
  then have "rep f i \<le> rep g i" "rep g i \<le> rep f i" using rep_le by metis+
  then show "rep f i = rep g i" by simp
qed

lemma rep_least:
  assumes "forest f"
  shows "rep f i = (LEAST j. (i, j) \<in> rel_of f)"
proof (rule Least_equality [symmetric])
  show "(i, rep f i) \<in> rel_of f" using rep_rep [OF assms] by (simp add: rel_of_def)
  show "rep f i \<le> j" if "(i, j) \<in> rel_of f" for j using that rep_le [of f j] by (simp add: rel_of_def)
qed

section \<open>The contract of a union-find structure\<close>

definition uncancelled :: "control \<Rightarrow> bool" where
  "uncancelled control \<longleftrightarrow> (\<forall>site k. \<not> c_polls control site k)"

lemma check_cases:
  assumes "check_cancelled control site k = Inr () \<Longrightarrow> P" and "check_cancelled control site k = Inl Cancelled \<Longrightarrow> \<not> uncancelled control \<Longrightarrow> P"
  shows P
  using assms by (cases "c_polls control site k") (auto simp: uncancelled_def check_cancelled_def)

lemma poll_cases:
  assumes "poll_at control site k = Inr () \<Longrightarrow> P" and "poll_at control site k = Inl Cancelled \<Longrightarrow> \<not> uncancelled control \<Longrightarrow> P"
  shows P
  by (rule check_cases [of control site "k div COMPONENTS_CHECKPOINT_EDGES"]; cases "k mod COMPONENTS_CHECKPOINT_EDGES = 0")
    (use assms in \<open>simp_all add: poll_at_def\<close>)

lemma bind_result_simps [simp]:
  "bind_result None f = None" "bind_result (Some (Inl e)) f = Some (Inl e)" "bind_result (Some (Inr y)) f = f y"
  by (simp_all add: bind_result_def)

definition row_edges :: "'w topology_graph \<Rightarrow> nat list \<Rightarrow> (nat \<times> nat) set" where
  "row_edges graph sources = {(i, j). i \<in> set sources \<and> j \<in> set (neighbor_ordinals graph i)}"

definition rows_selected :: "'w topology_graph \<Rightarrow> nat list \<Rightarrow> bool" where
  "rows_selected graph sources \<longleftrightarrow> (\<forall>i\<in>set sources. \<forall>j\<in>set (neighbor_ordinals graph i). j < node_count graph)"

definition unselected :: algorithm_error where
  "unselected = Execution ''adjacency references an unselected node''"

text \<open>Why a pass over rows may stop: a poll answered yes, or a row names a node that is not selected.\<close>

definition stopped :: "control \<Rightarrow> bool \<Rightarrow> algorithm_error \<Rightarrow> bool" where
  "stopped control ok e \<longleftrightarrow> e = Cancelled \<and> \<not> uncancelled control \<or> e = unselected \<and> \<not> ok"

lemma selected_neighbors_eq:
  "selected_neighbors graph i = (if \<forall>j\<in>set (neighbor_ordinals graph i). j < node_count graph then Inr (neighbor_ordinals graph i) else Inl unselected)"
  by (auto simp: selected_neighbors_def Let_def list_ex_iff unselected_def not_less)

text \<open>
  A structure \<open>s\<close> has a parent for every node, valid nodes and an invariant. A search returns the representative and
  may shorten paths; a link makes one root the parent of another.
\<close>

locale union_find =
  fixes parent :: "'s \<Rightarrow> nat \<Rightarrow> nat" and valid :: "'s \<Rightarrow> nat \<Rightarrow> bool" and inv :: "'s \<Rightarrow> bool"
    and search :: "'s \<Rightarrow> nat \<Rightarrow> (nat \<times> 's) option" and link :: "'s \<Rightarrow> nat \<Rightarrow> nat \<Rightarrow> 's"
    and unite :: "'s \<Rightarrow> nat \<Rightarrow> nat \<Rightarrow> 's option"
  assumes inv_forest: "inv s \<Longrightarrow> forest (parent s)"
    and search_rep: "inv s \<Longrightarrow> valid s i \<Longrightarrow>
      \<exists>s'. search s i = Some (rep (parent s) i, s') \<and> inv s' \<and> rep (parent s') = rep (parent s) \<and> valid s' = valid s \<and> valid s (rep (parent s) i)"
    and link_parent: "inv s \<Longrightarrow> valid s a \<Longrightarrow> valid s b \<Longrightarrow> a \<le> b \<Longrightarrow>
      inv (link s b a) \<and> parent (link s b a) = (parent s)(b := a) \<and> valid (link s b a) = valid s"
    and unite_eq: "unite s left right =
      Option.bind (search s left) (\<lambda>(left, s). Option.bind (search s right) (\<lambda>(right, s).
      let (first, second) = (if left \<le> right then (left, right) else (right, left)) in Some (link s second first)))"
begin

lemma unite_step:
  assumes "inv s" "valid s l" "valid s r" "rel_of (parent s) = sym_conn E"
  shows "\<exists>s'. unite s l r = Some s' \<and> inv s' \<and> valid s' = valid s \<and> rel_of (parent s') = sym_conn (insert (l, r) E)"
proof -
  let ?a = "rep (parent s) l" and ?b = "rep (parent s) r"
  obtain s1 where s1: "search s l = Some (?a, s1)" "inv s1" "rep (parent s1) = rep (parent s)" "valid s1 = valid s" "valid s ?a"
    using search_rep [OF assms(1,2)] by blast
  have "valid s1 r" using assms(3) s1(4) by simp
  from search_rep [OF s1(2) this] s1 obtain s2 where
    s2: "search s1 r = Some (?b, s2)" "inv s2" "rep (parent s2) = rep (parent s)" "valid s2 = valid s" "valid s ?b" by auto
  define a where "a = min ?a ?b"
  define b where "b = max ?a ?b"
  have ab: "{a, b} = {rep (parent s2) l, rep (parent s2) r}" "a \<le> b" "valid s2 a" "valid s2 b"
    using s1 s2 by (auto simp: a_def b_def min_def max_def)
  have u: "unite s l r = Some (link s2 b a)" by (simp add: unite_eq s1(1) s2(1) a_def b_def min_def max_def)
  have "rel_of (parent s2) = sym_conn E" using assms(4) s2(3) by (simp add: rel_of_def)
  from rel_of_link [OF inv_forest [OF s2(2)] this ab(1,2)] link_parent [OF s2(2) ab(3,4,2)] u s2(4) show ?thesis by auto
qed

lemma union_targets_conn:
  "inv s \<Longrightarrow> valid s source \<Longrightarrow> \<forall>t\<in>set ts. valid s t \<Longrightarrow> rel_of (parent s) = sym_conn E \<Longrightarrow>
   \<exists>r. union_targets unite control site source ts (s, v) = Some r \<and>
     (case r of Inl e \<Rightarrow> stopped control True e
      | Inr (s', v') \<Rightarrow> inv s' \<and> valid s' = valid s \<and> rel_of (parent s') = sym_conn (E \<union> {source} \<times> set ts))"
proof (induction ts arbitrary: s v E)
  case (Cons t ts)
  then obtain s1 where s1: "unite s source t = Some s1" "inv s1" "valid s1 = valid s"
      "rel_of (parent s1) = sym_conn (insert (source, t) E)"
    using unite_step [of s source t E] by auto
  have e: "insert (source, t) E \<union> {source} \<times> set ts = E \<union> {source} \<times> set (t # ts)" by auto
  note ih = Cons.IH [OF s1(2) _ _ s1(4), of "v + 1", unfolded s1(3) e, OF Cons.prems(2)]
  with s1(1) Cons.prems(3) show ?case by - (rule poll_cases [of control site v]; simp add: stopped_def)
qed auto

lemma union_sources_conn:
  "inv s \<Longrightarrow> \<forall>i<node_count graph. valid s i \<Longrightarrow> \<forall>i\<in>set sources. i < node_count graph \<Longrightarrow> rel_of (parent s) = sym_conn E \<Longrightarrow>
   \<exists>r. union_sources unite control site graph sources (s, v) = Some r \<and>
     (case r of Inl e \<Rightarrow> stopped control (rows_selected graph sources) e
      | Inr (s', v') \<Rightarrow> rows_selected graph sources \<and> inv s' \<and> valid s' = valid s \<and>
          rel_of (parent s') = sym_conn (E \<union> row_edges graph sources))"
proof (induction sources arbitrary: s v E)
  case Nil
  then show ?case by (simp add: rows_selected_def row_edges_def)
next
  case (Cons i sources)
  let ?row = "neighbor_ordinals graph i"
  show ?case
  proof (cases "\<forall>j\<in>set ?row. j < node_count graph")
    case True
    then have sel: "selected_neighbors graph i = Inr ?row" and r: "rows_selected graph (i # sources) \<longleftrightarrow> rows_selected graph sources"
      by (simp_all add: selected_neighbors_eq rows_selected_def)
    have e: "E \<union> {i} \<times> set ?row \<union> row_edges graph sources = E \<union> row_edges graph (i # sources)" by (auto simp: row_edges_def)
    obtain u where u: "union_targets unite control site i ?row (s, v) = Some u"
        "case u of Inl e \<Rightarrow> stopped control True e
         | Inr (s', v') \<Rightarrow> inv s' \<and> valid s' = valid s \<and> rel_of (parent s') = sym_conn (E \<union> {i} \<times> set ?row)"
      using union_targets_conn [of s i ?row E control site v] True Cons.prems by auto
    show ?thesis
    proof (cases u)
      case (Inl e)
      with u sel show ?thesis by (auto simp: stopped_def)
    next
      case (Inr st)
      obtain s1 v1 where st: "st = (s1, v1)" by (cases st)
      with Inr u have s1: "inv s1" "valid s1 = valid s" "rel_of (parent s1) = sym_conn (E \<union> {i} \<times> set ?row)" by auto
      show ?thesis unfolding r
        using Cons.IH [OF s1(1) _ _ s1(3), of v1, unfolded s1(2) e, OF Cons.prems(2)] Cons.prems(3) u(1) sel Inr st by simp
    qed
  next
    case False
    then have "\<not> rows_selected graph (i # sources)" by (auto simp: rows_selected_def)
    moreover have "selected_neighbors graph i = Inl unselected" unfolding selected_neighbors_eq using False by (simp only: if_False)
    ultimately show ?thesis by (simp add: stopped_def)
  qed
qed

end

section \<open>The array\<close>

definition array_parent :: "nat list \<Rightarrow> nat \<Rightarrow> nat" where
  "array_parent p i = (if i < length p then p ! i else i)"

definition array_inv :: "nat list \<Rightarrow> bool" where
  "array_inv p \<longleftrightarrow> (\<forall>i<length p. p ! i \<le> i)"

lemma array_forest: "array_inv p \<Longrightarrow> forest (array_parent p)"
  by (simp add: array_inv_def array_parent_def forest_def)

lemma array_parent_update: "i < length p \<Longrightarrow> array_parent (p[i := x]) = (array_parent p)(i := x)"
  by (auto simp: array_parent_def)

lemma array_inv_update: "array_inv p \<Longrightarrow> x \<le> i \<Longrightarrow> array_inv (p[i := x])"
  by (cases "i < length p") (auto simp: array_inv_def nth_list_update)

lemma find_array:
  "array_inv p \<Longrightarrow> i < length p \<Longrightarrow>
   \<exists>p'. find p i = Some (rep (array_parent p) i, p') \<and> array_inv p' \<and> length p' = length p \<and>
     rep (array_parent p') = rep (array_parent p)"
proof (induction i rule: less_induct)
  case (less i)
  show ?case
  proof (cases "p ! i = i")
    case True
    then have "rep (array_parent p) i = i" using less.prems by (intro rep_of_root) (simp add: array_parent_def)
    with True less.prems show ?thesis by (subst find.simps) auto
  next
    case False
    have lt: "p ! i < i" using less.prems False by (auto simp: array_inv_def le_less)
    with less obtain p1 where p1: "find p (p ! i) = Some (rep (array_parent p) (p ! i), p1)" "array_inv p1"
      "length p1 = length p" "rep (array_parent p1) = rep (array_parent p)" by force
    have r: "rep (array_parent p) (p ! i) = rep (array_parent p) i"
      using rep_parent [OF array_forest [OF less.prems(1)], of i] less.prems(2) by (simp add: array_parent_def)
    let ?r = "rep (array_parent p) i"
    have "find p i = Some (?r, p1[i := ?r])" using less.prems(2) False p1(1) r by (subst find.simps) simp
    moreover have "array_inv (p1[i := ?r])" by (rule array_inv_update [OF p1(2) rep_le])
    moreover have "rep (array_parent (p1[i := ?r])) = rep (array_parent p)"
      using forest_compress [OF array_forest [OF p1(2)], of i] p1(3,4) less.prems(2) by (simp add: array_parent_update)
    ultimately show ?thesis using p1(3) by auto
  qed
qed

interpretation array: union_find array_parent "\<lambda>p i. i < length p" array_inv find "\<lambda>p b a. p[b := a]" union_array
proof
  show "\<exists>s'. find p i = Some (rep (array_parent p) i, s') \<and> array_inv s' \<and> rep (array_parent s') = rep (array_parent p) \<and>
      (\<lambda>i. i < length s') = (\<lambda>i. i < length p) \<and> rep (array_parent p) i < length p"
    if "array_inv p" "i < length p" for p i
    using find_array [OF that] rep_le [of "array_parent p" i] that(2) by (auto intro: le_less_trans)
qed (auto simp: array_forest array_inv_update array_parent_update union_array_def)

section \<open>The hash map\<close>

definition hash_parent :: "hash_parents \<Rightarrow> nat \<Rightarrow> nat" where
  "hash_parent m k = (case map_of m k of None \<Rightarrow> k | Some p \<Rightarrow> p)"

definition hash_inv :: "hash_parents \<Rightarrow> bool" where
  "hash_inv m \<longleftrightarrow> (\<forall>k. hash_parent m k \<le> k)"

lemma hash_parent_update: "hash_parent (AList.update k v m) = (hash_parent m)(k := v)"
  by (rule ext) (simp add: hash_parent_def update_conv')

lemma hash_parent_or_insert [simp]: "hash_parent (or_insert_self m k) = hash_parent m"
  by (rule ext) (auto simp: or_insert_self_def hash_parent_def update_conv' split: option.splits)

lemma or_insert_parent: "the (map_of (or_insert_self m k) k) = hash_parent m k"
  by (auto simp: or_insert_self_def hash_parent_def update_conv' split: option.splits)

lemma hash_forest: "hash_inv m \<longleftrightarrow> forest (hash_parent m)"
  by (simp add: hash_inv_def forest_def)

lemma local_root_eq:
  "hash_inv m \<Longrightarrow> \<exists>m'. local_root m i = Some (rep (hash_parent m) i, m') \<and> hash_parent m' = hash_parent m"
proof (induction i arbitrary: m rule: less_induct)
  case (less i)
  have f: "forest (hash_parent m)" using less.prems by (simp add: hash_forest)
  show ?case
  proof (cases "hash_parent m i = i")
    case True
    then show ?thesis
      by (subst local_root.simps) (simp add: Let_def or_insert_parent rep_of_root)
  next
    case False
    then have lt: "hash_parent m i < i" using forest_cases [OF f, of i] by simp
    have "hash_inv (or_insert_self m i)" using less.prems by (simp add: hash_inv_def)
    from less.IH [OF lt this] False rep_parent [OF f, of i] show ?thesis
      by (subst local_root.simps) (simp add: Let_def or_insert_parent)
  qed
qed

lemma local_compress_eq:
  "hash_inv m \<Longrightarrow> \<exists>m'. local_compress m i (rep (hash_parent m) i) = Some m' \<and> hash_inv m' \<and> rep (hash_parent m') = rep (hash_parent m)"
proof (induction i arbitrary: m rule: less_induct)
  case (less i)
  let ?r = "rep (hash_parent m) i"
  have f: "forest (hash_parent m)" using less.prems by (simp add: hash_forest)
  show ?case
  proof (cases "i = ?r")
    case True
    then show ?thesis using less.prems by (subst local_compress.simps) simp
  next
    case False
    then have n: "hash_parent m i \<noteq> i" using rep_of_root [of "hash_parent m" i] by auto
    then have lt: "hash_parent m i < i" using forest_cases [OF f, of i] by simp
    from n obtain p where p: "map_of m i = Some p" "p = hash_parent m i" by (auto simp: hash_parent_def split: option.splits)
    let ?m = "AList.update i ?r m"
    have c: "forest (hash_parent ?m)" "rep (hash_parent ?m) = rep (hash_parent m)"
      using forest_compress [OF f, of i] by (simp_all add: hash_parent_update)
    have "rep (hash_parent ?m) p = ?r" using c(2) p(2) rep_parent [OF f, of i] by simp
    with less.IH [of p ?m] lt p(2) c show ?thesis
      using False p(1) by (subst local_compress.simps) (simp add: hash_forest)
  qed
qed

lemma local_find_eq:
  assumes "hash_inv m"
  shows "\<exists>m'. local_find m i = Some (rep (hash_parent m) i, m') \<and> hash_inv m' \<and> rep (hash_parent m') = rep (hash_parent m)"
proof -
  have i: "hash_inv (or_insert_self m i)" using assms by (simp add: hash_inv_def)
  from local_root_eq [OF i, of i] obtain m1 where
    m1: "local_root (or_insert_self m i) i = Some (rep (hash_parent m) i, m1)" "hash_parent m1 = hash_parent m" by auto
  then have "hash_inv m1" using assms by (simp add: hash_inv_def)
  from local_compress_eq [OF this, of i] m1 show ?thesis by (auto simp: local_find_def)
qed

interpretation hashed: union_find hash_parent "\<lambda>_ _. True" hash_inv local_find "\<lambda>m b a. AList.update b a m" local_union
proof
  show "\<exists>s'. local_find m i = Some (rep (hash_parent m) i, s') \<and> hash_inv s' \<and> rep (hash_parent s') = rep (hash_parent m) \<and>
      (\<lambda>_. True) = (\<lambda>_. True) \<and> True" if "hash_inv m" for m i
    using local_find_eq [OF that] by simp
  show "hash_inv (AList.update b a m) \<and> hash_parent (AList.update b a m) = (hash_parent m)(b := a) \<and> (\<lambda>_. True) = (\<lambda>_. True)"
    if "hash_inv m" "a \<le> b" for m a b
    using that by (simp add: hash_inv_def hash_parent_update)
qed (simp_all add: hash_forest local_union_def)

section \<open>The passes compute connectivity\<close>

text \<open>What a pass returns from the array in which every node is its own parent.\<close>

definition pass_result :: "'w topology_graph \<Rightarrow> control \<Rightarrow> nat list result \<Rightarrow> bool" where
  "pass_result graph control r \<longleftrightarrow>
     (\<exists>q. r = Some q \<and>
       (case q of Inl e \<Rightarrow> stopped control (rows_selected graph [0..<node_count graph]) e
        | Inr p \<Rightarrow> rows_selected graph [0..<node_count graph] \<and> array_inv p \<and> length p = node_count graph \<and>
            rel_of (array_parent p) = sym_conn (row_edges graph [0..<node_count graph])))"

lemma rel_of_identity: "(\<And>i. f i = i) \<Longrightarrow> rel_of f = sym_conn {}"
  by (auto simp: rel_of_def sym_conn_def rep_of_root)

lemma initial_array: "array_inv [0..<n]" "rel_of (array_parent [0..<n]) = sym_conn {}"
  by (simp_all add: array_inv_def rel_of_identity array_parent_def)

lemma length_less_eqD: "(\<lambda>i. i < length q) = (\<lambda>i. i < length p) \<Longrightarrow> length q = length p"
  by (metis less_irrefl linorder_neqE_nat)

lemma serial_pass: "pass_result graph control (components_union_serial graph [0..<node_count graph] control)"
proof -
  let ?n = "node_count graph"
  obtain r where r: "union_sources union_array control SerialUnion graph [0..<?n] ([0..<?n], 0) = Some r"
      "case r of Inl e \<Rightarrow> stopped control (rows_selected graph [0..<?n]) e
       | Inr (p, v) \<Rightarrow> rows_selected graph [0..<?n] \<and> array_inv p \<and> (\<lambda>i. i < length p) = (\<lambda>i. i < length [0..<?n]) \<and>
           rel_of (array_parent p) = sym_conn ({} \<union> row_edges graph [0..<?n])"
    using array.union_sources_conn [OF initial_array(1) _ _ initial_array(2), of graph ?n "[0..<?n]" control SerialUnion 0] by auto
  show ?thesis
  proof (cases r)
    case (Inl e)
    with r show ?thesis by (simp add: pass_result_def components_union_serial_def)
  next
    case (Inr st)
    obtain p v where "st = (p, v)" by (cases st)
    with Inr r length_less_eqD [of p "[0..<?n]"] show ?thesis
      by (simp add: pass_result_def components_union_serial_def)
  qed
qed

lemma upt_append: "i \<le> j \<Longrightarrow> j \<le> k \<Longrightarrow> [i..<j] @ [j..<k] = [i..<k]"
  by (metis le_add_diff_inverse upt_add_eq_append)

subsection \<open>The ranges of sources\<close>

definition range_sources :: "(nat \<times> nat) list \<Rightarrow> nat list" where
  "range_sources ranges = concat (map (\<lambda>(a, b). [a..<b]) ranges)"

lemma range_sources_simps [simp]:
  "range_sources [] = []" "range_sources ((a, b) # ranges) = [a..<b] @ range_sources ranges"
  by (simp_all add: range_sources_def)

lemma chunk_ranges_sources:
  "range_sources (chunk_ranges base rem start [i..<j]) = [start..<start + (j - i) * base + (min rem j - min rem i)]"
proof (induction "j - i" arbitrary: i start)
  case (Suc d)
  then have ij: "i < j" by simp
  let ?stop = "start + (base + (if i < rem then 1 else 0))"
  have ih: "range_sources (chunk_ranges base rem ?stop [Suc i..<j]) = [?stop..<?stop + (j - Suc i) * base + (min rem j - min rem (Suc i))]"
    using Suc by simp
  have e: "?stop + (j - Suc i) * base + (min rem j - min rem (Suc i)) = start + (j - i) * base + (min rem j - min rem i)"
  proof -
    have "(j - i) * base = base + (j - Suc i) * base" using ij by (metis Suc_diff_Suc mult_Suc)
    with ij show ?thesis by (auto simp: min_def)
  qed
  have "range_sources (chunk_ranges base rem start [i..<j]) = [start..<?stop] @ range_sources (chunk_ranges base rem ?stop [Suc i..<j])"
    using ij by (simp add: upt_conv_Cons Let_def)
  also have "\<dots> = [start..<start + (j - i) * base + (min rem j - min rem i)]"
    unfolding ih e by (rule upt_append) (use e in linarith)+
  finally show ?case .
qed simp

lemma chunk_ranges_nonempty: "(a, b) \<in> set (chunk_ranges base rem start indices) \<Longrightarrow> a < b"
  by (induction base rem start indices rule: chunk_ranges.induct) (auto simp: Let_def split: if_splits)

lemma source_chunks_nonempty: "(a, b) \<in> set (component_source_chunks nodes threads) \<Longrightarrow> a < b"
  by (auto simp: component_source_chunks_def Let_def dest: chunk_ranges_nonempty split: if_splits)

text \<open>The ranges partition the sources, in order.\<close>

lemma source_chunks_cover: "range_sources (component_source_chunks nodes threads) = [0..<nodes]"
proof (cases "nodes = 0")
  case False
  define w where "w = min (max threads 1) nodes"
  have w: "0 < w" using False by (simp add: w_def)
  have "min (nodes mod w) w = nodes mod w" using w by (simp add: min_def less_imp_le)
  then have "w * (nodes div w) + (min (nodes mod w) w - min (nodes mod w) 0) = nodes" by simp
  with False show ?thesis
    unfolding component_source_chunks_def Let_def w_def [symmetric] by (simp add: chunk_ranges_sources)
qed (simp add: component_source_chunks_def)

subsection \<open>The links of a chunk\<close>

lemma chunk_links_eq:
  "hash_inv m \<Longrightarrow> chunk_links m touched =
     Some (map (\<lambda>i. (rep (hash_parent m) i, i)) (filter (\<lambda>i. i \<noteq> rep (hash_parent m) i) touched))"
proof (induction touched arbitrary: m)
  case (Cons i touched)
  obtain m' where m': "local_find m i = Some (rep (hash_parent m) i, m')" "hash_inv m'" "rep (hash_parent m') = rep (hash_parent m)"
    using local_find_eq [OF Cons.prems, of i] by auto
  then show ?case using Cons.IH [OF m'(2)] by simp
qed simp

lemma subrelI_eq: "(\<And>i j. (i, j) \<in> r \<longleftrightarrow> (i, j) \<in> s) \<Longrightarrow> r = s"
  by auto

lemma links_conn:
  assumes "hash_inv m"
  shows "sym_conn ((\<lambda>i. (rep (hash_parent m) i, i)) ` {i \<in> set (map fst m). i \<noteq> rep (hash_parent m) i}) = rel_of (hash_parent m)"
    (is "sym_conn ?L = _")
proof -
  let ?r = "rep (hash_parent m)"
  have f: "forest (hash_parent m)" using assms by (simp add: hash_forest)
  have "(?r i, i) \<in> sym_conn ?L" for i
  proof (cases "?r i = i")
    case False
    then have "hash_parent m i \<noteq> i" using rep_of_root [of "hash_parent m" i] by auto
    then have "i \<in> set (map fst m)" by (auto simp: hash_parent_def dest: map_of_SomeD split: option.splits intro: rev_image_eqI)
    with False show ?thesis by (intro sym_conn_edge) auto
  qed simp
  then have to_root: "(i, ?r i) \<in> sym_conn ?L" "(?r i, i) \<in> sym_conn ?L" for i by (simp_all add: sym_conn_sym)
  have into: "(i, j) \<in> sym_conn ?L" if "?r i = ?r j" for i j
    using sym_conn_trans [OF to_root(1) [of i, unfolded that] to_root(2) [of j]] .
  have least: "?r i = ?r j" if "(i, j) \<in> sym_conn ?L" for i j
  proof (rule sym_conn_least [OF _ that])
    fix i j assume "(i, j) \<in> ?L"
    then have "i = ?r j" by blast
    then show "?r i = ?r j" using rep_rep [OF f, of j] by simp
  qed
  have "(i, j) \<in> sym_conn ?L \<longleftrightarrow> (i, j) \<in> rel_of (hash_parent m)" for i j
    unfolding rel_of_def mem_Collect_eq case_prod_conv using into [of i j] least [of i j] by (rule iffI [rotated])
  then show ?thesis by (rule subrelI_eq)
qed

lemma sym_conn_field:
  assumes "(i, j) \<in> sym_conn E" "i \<noteq> j"
  shows "i \<in> Field E" "j \<in> Field E"
proof -
  have *: "i \<in> Field E" if "(i, j) \<in> sym_conn E" "i \<noteq> j" for i j
    using that unfolding sym_conn_def by (induction rule: converse_rtrancl_induct) (auto simp: Field_def)
  show "i \<in> Field E" "j \<in> Field E" using * [OF assms] * [OF sym_conn_sym [OF assms(1)]] assms(2) by auto
qed

definition chunk_result :: "'w topology_graph \<Rightarrow> nat list \<Rightarrow> control \<Rightarrow> algorithm_error + (nat \<times> nat) list \<Rightarrow> bool" where
  "chunk_result graph sources control chunk =
     (case chunk of Inl e \<Rightarrow> stopped control (rows_selected graph sources) e
      | Inr links \<Rightarrow> rows_selected graph sources \<and> (\<forall>(i, j)\<in>set links. i < node_count graph \<and> j < node_count graph) \<and>
          sym_conn (set links) = sym_conn (row_edges graph sources))"

lemma rows_selected_field:
  "rows_selected graph sources \<Longrightarrow> \<forall>i\<in>set sources. i < node_count graph \<Longrightarrow> i \<in> Field (row_edges graph sources) \<Longrightarrow> i < node_count graph"
  by (auto simp: Field_def row_edges_def rows_selected_def)

lemma chunk_links_result:
  assumes inv: "hash_inv m" and rel: "rel_of (hash_parent m) = sym_conn (row_edges graph sources)"
    and rows: "rows_selected graph sources" "\<forall>i\<in>set sources. i < node_count graph"
  shows "\<exists>links. chunk_links m (sort (map fst m)) = Some links \<and> chunk_result graph sources control (Inr links)"
proof -
  let ?r = "rep (hash_parent m)"
  have f: "forest (hash_parent m)" using inv by (simp add: hash_forest)
  have "?r i < node_count graph \<and> i < node_count graph" if "i \<noteq> ?r i" for i
  proof -
    have "(i, ?r i) \<in> sym_conn (row_edges graph sources)" unfolding rel [symmetric] using rep_rep [OF f] by (simp add: rel_of_def)
    from sym_conn_field [OF this that] show ?thesis using rows_selected_field [OF rows] by auto
  qed
  with links_conn [OF inv] rel rows(1) show ?thesis
    by (auto simp: chunk_links_eq [OF inv] chunk_result_def)
qed

lemma components_chunk_links_result:
  assumes "end \<le> node_count graph"
  shows "\<exists>chunk. components_chunk_links graph start end control = Some chunk \<and> chunk_result graph [start..<end] control chunk"
proof -
  have init: "hash_inv []" "rel_of (hash_parent []) = sym_conn {}"
    by (simp_all add: hash_inv_def hash_parent_def rel_of_identity)
  have sources: "\<forall>i\<in>set [start..<end]. i < node_count graph" using assms by auto
  obtain r where r: "union_sources local_union control (ChunkUnion start) graph [start..<end] ([], 0) = Some r"
      "case r of Inl e \<Rightarrow> stopped control (rows_selected graph [start..<end]) e
       | Inr (m, v) \<Rightarrow> rows_selected graph [start..<end] \<and> hash_inv m \<and> (\<lambda>_::nat. True) = (\<lambda>_. True) \<and>
           rel_of (hash_parent m) = sym_conn ({} \<union> row_edges graph [start..<end])"
    using hashed.union_sources_conn [OF init(1) _ sources init(2), of control "ChunkUnion start" 0] by auto
  show ?thesis
  proof (rule check_cases [of control "ChunkEntry start" 0])
    assume entry: "check_cancelled control (ChunkEntry start) 0 = Inr ()"
    show ?thesis
    proof (cases r)
      case (Inl e)
      with r entry show ?thesis by (simp add: components_chunk_links_def chunk_result_def)
    next
      case (Inr st)
      obtain m v where st: "st = (m, v)" by (cases st)
      with Inr r have m: "hash_inv m" "rel_of (hash_parent m) = sym_conn (row_edges graph [start..<end])" "rows_selected graph [start..<end]" by auto
      from chunk_links_result [OF m sources, of control] obtain links where
        "chunk_links m (sort (map fst m)) = Some links" "chunk_result graph [start..<end] control (Inr links)" by auto
      with Inr st r(1) entry show ?thesis
        by - (rule check_cases [of control "ChunkExit start" 0]; simp add: components_chunk_links_def chunk_result_def stopped_def)
    qed
  qed (simp add: components_chunk_links_def chunk_result_def stopped_def)
qed

subsection \<open>The union of the chunks\<close>

lemma union_links_conn:
  "array_inv p \<Longrightarrow> \<forall>(i, j)\<in>set links. i < length p \<and> j < length p \<Longrightarrow> rel_of (array_parent p) = sym_conn E \<Longrightarrow>
   \<exists>r. union_links control links (p, w) = Some r \<and>
     (case r of Inl e \<Rightarrow> stopped control True e
      | Inr (p', w') \<Rightarrow> array_inv p' \<and> length p' = length p \<and> rel_of (array_parent p') = sym_conn (E \<union> set links))"
proof (induction links arbitrary: p w E)
  case (Cons l links)
  obtain i j where l: "l = (i, j)" by (cases l)
  from Cons.prems l array.unite_step [of p i j E] obtain p1 where p1: "union_array p i j = Some p1" "array_inv p1"
      "(\<lambda>k. k < length p1) = (\<lambda>k. k < length p)" "rel_of (array_parent p1) = sym_conn (insert (i, j) E)" by auto
  have len: "length p1 = length p" by (rule length_less_eqD [OF p1(3)])
  have e: "insert (i, j) E \<union> set links = E \<union> set (l # links)" using l by auto
  note ih = Cons.IH [OF p1(2) _ p1(4), of "w + 1", unfolded len e]
  with p1(1) l Cons.prems(2) show ?case by - (rule poll_cases [of control LinkUnion w]; simp add: stopped_def)
qed simp

lemma row_edges_append: "row_edges graph (xs @ ys) = row_edges graph xs \<union> row_edges graph ys"
  by (auto simp: row_edges_def)

lemma rows_selected_append: "rows_selected graph (xs @ ys) \<longleftrightarrow> rows_selected graph xs \<and> rows_selected graph ys"
  by (auto simp: rows_selected_def)

lemma run_chunks_result:
  "\<forall>(a, b)\<in>set ranges. b \<le> node_count graph \<Longrightarrow>
   \<exists>chunks. run_chunks graph control ranges = Some chunks \<and>
     list_all2 (\<lambda>(a, b). chunk_result graph [a..<b] control) ranges chunks"
proof (induction ranges)
  case (Cons r ranges)
  obtain a b where r: "r = (a, b)" by (cases r)
  with Cons components_chunk_links_result [of b graph a control] show ?case by force
qed simp

lemma union_chunks_conn:
  "list_all2 (\<lambda>(a, b). chunk_result graph [a..<b] control) ranges chunks \<Longrightarrow> array_inv p \<Longrightarrow> length p = node_count graph \<Longrightarrow>
   rel_of (array_parent p) = sym_conn E \<Longrightarrow>
   \<exists>r. union_chunks control chunks (p, w) = Some r \<and>
     (case r of Inl e \<Rightarrow> stopped control (rows_selected graph (range_sources ranges)) e
      | Inr (p', w') \<Rightarrow> rows_selected graph (range_sources ranges) \<and> array_inv p' \<and> length p' = node_count graph \<and>
          rel_of (array_parent p') = sym_conn (E \<union> row_edges graph (range_sources ranges)))"
proof (induction arbitrary: p w E rule: list_all2_induct)
  case Nil
  then show ?case by (simp add: rows_selected_def row_edges_def)
next
  case (Cons r ranges chunk chunks)
  obtain a b where r: "r = (a, b)" by (cases r)
  show ?case
  proof (cases chunk)
    case (Inl e)
    with Cons.hyps(1) r show ?thesis by (auto simp: chunk_result_def stopped_def rows_selected_append)
  next
    case (Inr links)
    with Cons.hyps(1) r have c: "rows_selected graph [a..<b]" "sym_conn (set links) = sym_conn (row_edges graph [a..<b])"
      "\<forall>(i, j)\<in>set links. i < length p \<and> j < length p" using Cons.prems(2) by (auto simp: chunk_result_def)
    from union_links_conn [OF Cons.prems(1) c(3) Cons.prems(3), of control w] obtain u where
      u: "union_links control links (p, w) = Some u"
        "case u of Inl e \<Rightarrow> stopped control True e
         | Inr (p', w') \<Rightarrow> array_inv p' \<and> length p' = length p \<and> rel_of (array_parent p') = sym_conn (E \<union> set links)" by auto
    show ?thesis
    proof (cases u)
      case (Inl e)
      with u Inr show ?thesis by (auto simp: stopped_def)
    next
      case (Inr st)
      obtain p1 w1 where st: "st = (p1, w1)" by (cases st)
      with Inr u Cons.prems(2) have p1: "array_inv p1" "length p1 = node_count graph"
        "rel_of (array_parent p1) = sym_conn (E \<union> row_edges graph [a..<b])"
        using sym_conn_Un_cong [OF refl c(2), of E] by auto
      have e: "E \<union> row_edges graph [a..<b] \<union> row_edges graph (range_sources ranges) = E \<union> row_edges graph (range_sources (r # ranges))"
        and s: "rows_selected graph (range_sources (r # ranges)) = rows_selected graph (range_sources ranges)"
        using c(1) by (auto simp: r row_edges_append rows_selected_append)
      show ?thesis unfolding s
        using Cons.IH [OF p1, of w1, unfolded e] Inr u(1) st \<open>chunk = Inr links\<close> by simp
    qed
  qed
qed

lemma parallel_pass:
  assumes "c_pool_parallel control = Some multi"
  shows "pass_result graph control (components_union_parallel graph [0..<node_count graph] control)"
proof -
  let ?n = "node_count graph"
  define ranges where "ranges = component_source_chunks ?n (max (c_compute_threads control) 1)"
  have cover: "range_sources ranges = [0..<?n]" unfolding ranges_def by (rule source_chunks_cover)
  have "b \<le> ?n" if "(a, b) \<in> set ranges" for a b
  proof -
    have "a < b" using source_chunks_nonempty that unfolding ranges_def .
    then have "b - 1 \<in> set [a..<b]" by auto
    with that have "b - 1 \<in> set (range_sources ranges)" unfolding range_sources_def by force
    then show ?thesis unfolding cover by auto
  qed
  then obtain chunks where chunks: "run_chunks graph control ranges = Some chunks"
      "list_all2 (\<lambda>(a, b). chunk_result graph [a..<b] control) ranges chunks"
    using run_chunks_result [of ranges graph control] by blast
  have len: "length [0..<?n] = ?n" by simp
  from union_chunks_conn [OF chunks(2) initial_array(1) len initial_array(2), of 0, unfolded cover]
  obtain r where r: "union_chunks control chunks ([0..<?n], 0) = Some r"
      "case r of Inl e \<Rightarrow> stopped control (rows_selected graph [0..<?n]) e
       | Inr (p, w) \<Rightarrow> rows_selected graph [0..<?n] \<and> array_inv p \<and> length p = ?n \<and>
           rel_of (array_parent p) = sym_conn ({} \<union> row_edges graph [0..<?n])"
    by blast
  have "pass_result graph control (Option.bind (run_chunks graph control ranges) (\<lambda>chunks.
      bind_result (union_chunks control chunks ([0..<?n], 0)) (\<lambda>(parents, _). Some (Inr parents))))"
    using r chunks(1) by (auto simp: pass_result_def split: sum.splits)
  then show ?thesis
    unfolding components_union_parallel_def assms ranges_def
    by - (rule check_cases [of control PoolEntry 0]; simp add: pass_result_def stopped_def)
qed

section \<open>The numbering of the components\<close>

definition roots_below :: "(nat \<Rightarrow> nat) \<Rightarrow> nat \<Rightarrow> nat" where
  "roots_below R k = card {r. r < k \<and> R r = r}"

lemma roots_below_0 [simp]: "roots_below R 0 = 0"
  by (simp add: roots_below_def)

lemma roots_below_Suc: "roots_below R (Suc k) = roots_below R k + (if R k = k then 1 else 0)"
proof -
  have "{r. r < Suc k \<and> R r = r} = (if R k = k then insert k {r. r < k \<and> R r = r} else {r. r < k \<and> R r = r})"
    by (auto simp: less_Suc_eq)
  then show ?thesis by (simp add: roots_below_def)
qed

lemma roots_below_le: "roots_below R k \<le> k"
  by (induction k) (auto simp: roots_below_Suc)

text \<open>The numbers given to the roots seen before node \<open>k\<close>.\<close>

definition ids_before :: "(nat \<Rightarrow> nat) \<Rightarrow> nat \<Rightarrow> nat \<rightharpoonup> nat" where
  "ids_before R k = (\<lambda>r. if r < k \<and> R r = r then Some (roots_below R r) else None)"

lemma ids_before_0: "ids_before R 0 = Map.empty"
  by (simp add: ids_before_def)

lemma ids_before_Suc: "ids_before R (Suc k) = (if R k = k then (ids_before R k)(k \<mapsto> roots_below R k) else ids_before R k)"
  by (rule ext) (auto simp: ids_before_def less_Suc_eq)

text \<open>Why the numbering may stop.\<close>

definition numbering_stopped :: "'w topology_graph \<Rightarrow> control \<Rightarrow> algorithm_error \<Rightarrow> bool" where
  "numbering_stopped graph control e \<longleftrightarrow>
     e = Cancelled \<and> \<not> uncancelled control \<or>
     e = Execution ''component count exceeds Int64 result range'' \<and> 2 ^ 63 \<le> node_count graph \<or>
     e = Execution ''selected node has no UUID identity'' \<and> length (t_uuids graph) < node_count graph \<or>
     e = OutputLimit (c_output_rows control + 1) (c_output_rows control) \<and> c_output_rows control < node_count graph"

lemma number_components_from:
  assumes "array_inv p" "length p = node_count graph" "rep (array_parent p) = R" "k \<le> node_count graph"
    "k \<le> c_output_rows control" "k \<le> length (t_uuids graph)" "length rows = k"
  shows "\<exists>r. number_components graph control [k..<node_count graph] p (ids_before R k) (roots_below R k) rows = Some r \<and>
    (case r of Inl e \<Rightarrow> numbering_stopped graph control e
     | Inr out \<Rightarrow> node_count graph \<le> length (t_uuids graph) \<and> node_count graph \<le> c_output_rows control \<and>
         out = rows @ map (\<lambda>i. (t_uuids graph ! i, roots_below R (R i))) [k..<node_count graph])"
  using assms
proof (induction "node_count graph - k" arbitrary: k p rows)
  case (Suc d)
  let ?n = "node_count graph"
  have k: "k < ?n" using Suc.hyps(2) by simp
  then have upt: "[k..<?n] = k # [Suc k..<?n]" by (rule upt_conv_Cons)
  obtain p' where p': "find p k = Some (R k, p')" "array_inv p'" "length p' = ?n" "rep (array_parent p') = R"
    using find_array [OF Suc.prems(1), of k] Suc.prems(2,3) k by auto
  have root: "R (R k) = R k" and le: "R k \<le> k"
    using rep_rep [OF array_forest [OF Suc.prems(1)], of k] rep_le [of "array_parent p" k] Suc.prems(3) by auto
  have ids: "ids_before R k k = None" "R k \<noteq> k \<Longrightarrow> ids_before R k (R k) = Some (roots_below R (R k))"
    using root le by (simp_all add: ids_before_def)
  have step: "number_components graph control [k..<?n] p (ids_before R k) (roots_below R k) rows =
      (if R k = k \<and> roots_below R k + 1 \<ge> 2 ^ 63 then Some (Inl (Execution ''component count exceeds Int64 result range''))
       else if length (t_uuids graph) \<le> k then Some (Inl (Execution ''selected node has no UUID identity''))
       else if c_output_rows control \<le> k then Some (Inl (OutputLimit (k + 1) (c_output_rows control)))
       else number_components graph control [Suc k..<?n] p' (ids_before R (Suc k)) (roots_below R (Suc k))
         (rows @ [(t_uuids graph ! k, roots_below R (R k))]))"
    if "poll_at control OutputLoop k = Inr ()"
    using that p'(1) Suc.prems(7)
    by (cases "R k = k") (simp_all add: upt ids uuid_of_ordinal_def ids_before_Suc roots_below_Suc not_less Let_def)
  have big: "2 ^ 63 \<le> ?n" if "2 ^ 63 \<le> roots_below R k + 1" using that roots_below_le [of R k] k by linarith
  show ?case
  proof (rule poll_cases [of control OutputLoop k])
    assume poll: "poll_at control OutputLoop k = Inr ()"
    show ?thesis
    proof (cases "(R k = k \<and> roots_below R k + 1 \<ge> 2 ^ 63) \<or> length (t_uuids graph) \<le> k \<or> c_output_rows control \<le> k")
      case True
      then show ?thesis using step [OF poll] big Suc.prems(5,6) k by (auto simp: numbering_stopped_def)
    next
      case False
      then have "number_components graph control [k..<?n] p (ids_before R k) (roots_below R k) rows =
          number_components graph control [Suc k..<?n] p' (ids_before R (Suc k)) (roots_below R (Suc k))
           (rows @ [(t_uuids graph ! k, roots_below R (R k))])" unfolding step [OF poll] by (simp only: de_Morgan_disj if_False)
      moreover have "(rows @ [(t_uuids graph ! k, roots_below R (R k))]) @ map (\<lambda>i. (t_uuids graph ! i, roots_below R (R i))) [Suc k..<?n] =
          rows @ map (\<lambda>i. (t_uuids graph ! i, roots_below R (R i))) [k..<?n]" by (simp add: upt)
      moreover have "d = ?n - Suc k" using Suc.hyps(2) by simp
      note ih = Suc.hyps(1) [OF this p'(2-4), of "rows @ [(t_uuids graph ! k, roots_below R (R k))]"]
      ultimately show ?thesis using ih k False Suc.prems(7) by (simp only: ) simp
    qed
  qed (simp add: upt numbering_stopped_def)
qed (auto)

lemma number_components_cong:
  "array_inv p \<Longrightarrow> array_inv q \<Longrightarrow> length q = length p \<Longrightarrow> rep (array_parent q) = rep (array_parent p) \<Longrightarrow> \<forall>i\<in>set is. i < length p \<Longrightarrow>
   c_polls control' = c_polls control \<Longrightarrow> c_output_rows control' = c_output_rows control \<Longrightarrow>
   number_components graph control' is q ids assigned rows = number_components graph control is p ids assigned rows"
proof (induction "is" arbitrary: p q ids assigned rows)
  case (Cons i "is")
  obtain p' where p': "find p i = Some (rep (array_parent p) i, p')" "array_inv p'" "length p' = length p" "rep (array_parent p') = rep (array_parent p)"
    using find_array [OF Cons.prems(1), of i] Cons.prems(5) by auto
  obtain q' where q': "find q i = Some (rep (array_parent p) i, q')" "array_inv q'" "length q' = length p" "rep (array_parent q') = rep (array_parent p)"
    using find_array [OF Cons.prems(2), of i] Cons.prems(3-5) by auto
  have ih: "number_components graph control' is q' ids assigned rows = number_components graph control is p' ids assigned rows" for ids assigned rows
    by (rule Cons.IH) (use p' q' Cons.prems in auto)
  have poll: "poll_at control' OutputLoop i = poll_at control OutputLoop i"
    using Cons.prems(6) by (simp add: poll_at_def check_cancelled_def)
  show ?case unfolding number_components.simps poll p'(1) q'(1) Cons.prems(7) by (simp add: ih Let_def split: sum.splits option.splits)
qed simp

section \<open>Properties\<close>

text \<open>The least node connected to a node, and the number of its component in the order of the least nodes.\<close>

definition leader :: "(nat \<times> nat) set \<Rightarrow> nat \<Rightarrow> nat" where
  "leader E i = (LEAST j. (i, j) \<in> sym_conn E)"

definition community :: "(nat \<times> nat) set \<Rightarrow> nat \<Rightarrow> nat" where
  "community E i = roots_below (leader E) (leader E i)"

lemma roots_below_inj:
  assumes "R a = a" "R b = b" "roots_below R a = roots_below R b"
  shows "a = b"
proof -
  have "roots_below R a < roots_below R b" if "a < b" "R a = a" for a b
  proof -
    have "{r. r < a \<and> R r = r} \<subset> {r. r < b \<and> R r = r}" using that by auto
    then show ?thesis unfolding roots_below_def by (intro psubset_card_mono) auto
  qed
  with assms show ?thesis by (metis less_irrefl linorder_neqE_nat)
qed

lemma leader_conn: "(i, leader E i) \<in> sym_conn E"
  unfolding leader_def by (rule LeastI [of _ i]) simp

lemma leader_eq: "leader E i = leader E j \<longleftrightarrow> (i, j) \<in> sym_conn E"
proof
  assume "leader E i = leader E j"
  then show "(i, j) \<in> sym_conn E" using sym_conn_trans [OF leader_conn [of i E]] sym_conn_sym [OF leader_conn [of j E]] by simp
next
  assume "(i, j) \<in> sym_conn E"
  then have "(i, k) \<in> sym_conn E \<longleftrightarrow> (j, k) \<in> sym_conn E" for k by (blast intro: sym_conn_trans sym_conn_sym)
  then show "leader E i = leader E j" by (simp add: leader_def)
qed

lemma community_eq: "community E i = community E j \<longleftrightarrow> (i, j) \<in> sym_conn E"
proof -
  have "leader E (leader E k) = leader E k" for k using leader_eq leader_conn sym_conn_sym by blast
  then show ?thesis unfolding community_def leader_eq [symmetric] using roots_below_inj [of "leader E"] by metis
qed

lemma array_leader:
  assumes "array_inv p" "rel_of (array_parent p) = sym_conn E"
  shows "rep (array_parent p) = leader E"
  by (rule ext) (simp add: rep_least [OF array_forest [OF assms(1)]] assms(2) leader_def)

abbreviation all_rows :: "'w topology_graph \<Rightarrow> nat list" where
  "all_rows graph \<equiv> [0..<node_count graph]"

lemma execute_pass:
  "\<exists>r. pass_result graph control r \<and>
     components_execute graph control = bind_result r (\<lambda>p. number_components graph control (all_rows graph) p Map.empty 0 [])"
proof (cases "select_components_path control (node_count graph) (edge_entry_count graph)")
  case Serial
  then show ?thesis using serial_pass [of graph control] by (auto simp: components_execute_def)
next
  case (Parallel t c)
  then have "c_pool_parallel control = Some True" by (auto simp: select_components_path_def Let_def split: if_splits)
  from parallel_pass [OF this, of graph] Parallel show ?thesis by (auto simp: components_execute_def)
qed

lemma execute_outcome:
  "\<exists>r. components_execute graph control = Some r \<and>
    (case r of
       Inl e \<Rightarrow> stopped control (rows_selected graph (all_rows graph)) e \<or> numbering_stopped graph control e
     | Inr out \<Rightarrow> rows_selected graph (all_rows graph) \<and> node_count graph \<le> length (t_uuids graph) \<and>
         node_count graph \<le> c_output_rows control \<and>
         out = map (\<lambda>i. (t_uuids graph ! i, community (row_edges graph (all_rows graph)) i)) (all_rows graph))"
proof -
  obtain q where q: "components_execute graph control =
      bind_result (Some q) (\<lambda>p. number_components graph control (all_rows graph) p Map.empty 0 [])"
      "case q of Inl e \<Rightarrow> stopped control (rows_selected graph (all_rows graph)) e
       | Inr p \<Rightarrow> rows_selected graph (all_rows graph) \<and> array_inv p \<and> length p = node_count graph \<and>
           rel_of (array_parent p) = sym_conn (row_edges graph (all_rows graph))"
    using execute_pass [of graph control] unfolding pass_result_def by blast
  show ?thesis
  proof (cases q)
    case (Inl e)
    with q show ?thesis by simp
  next
    case (Inr p)
    with q have p: "rows_selected graph (all_rows graph)" "array_inv p" "length p = node_count graph"
      "rep (array_parent p) = leader (row_edges graph (all_rows graph))" using array_leader by auto
    from number_components_from [OF p(2-4), of 0 control "[]"] q(1) Inr p(1) show ?thesis
      unfolding community_def by (auto simp: ids_before_0 split: sum.splits)
  qed
qed

text \<open>C2. The algorithm always returns, without an index out of bounds, whatever the graph, the polls, the threads and the
  pool. It stops with an error only for its reason: a poll answered yes, a row that names a node outside the selection,
  more components than the result type counts, a node without an identity, or more rows than the output limit. Otherwise
  it returns one row per node in the order of the nodes: two nodes have the same number exactly when a chain of edges in
  either direction connects them, and the components are numbered from 0 in the order of their least nodes.\<close>

theorem components_outcome:
  "(\<exists>r. components_execute graph control = Some r \<and>
     (case r of
        Inl e \<Rightarrow>
          e = Cancelled \<and> \<not> uncancelled control \<or>
          e = Execution ''adjacency references an unselected node'' \<and> \<not> rows_selected graph (all_rows graph) \<or>
          e = Execution ''component count exceeds Int64 result range'' \<and> 2 ^ 63 \<le> node_count graph \<or>
          e = Execution ''selected node has no UUID identity'' \<and> length (t_uuids graph) < node_count graph \<or>
          e = OutputLimit (c_output_rows control + 1) (c_output_rows control) \<and> c_output_rows control < node_count graph
      | Inr rows \<Rightarrow>
          rows_selected graph (all_rows graph) \<and> node_count graph \<le> length (t_uuids graph) \<and>
          node_count graph \<le> c_output_rows control \<and>
          rows = map (\<lambda>i. (t_uuids graph ! i, community (row_edges graph (all_rows graph)) i)) (all_rows graph))) \<and>
   (\<forall>E i j. community E i = community E j \<longleftrightarrow> (i, j) \<in> sym_conn E) \<and>
   (\<forall>E i. community E i = card {r. r < leader E i \<and> leader E r = r})"
proof (intro conjI)
  obtain r where "components_execute graph control = Some r"
    "case r of Inl e \<Rightarrow> stopped control (rows_selected graph (all_rows graph)) e \<or> numbering_stopped graph control e
     | Inr out \<Rightarrow> rows_selected graph (all_rows graph) \<and> node_count graph \<le> length (t_uuids graph) \<and>
         node_count graph \<le> c_output_rows control \<and>
         out = map (\<lambda>i. (t_uuids graph ! i, community (row_edges graph (all_rows graph)) i)) (all_rows graph)"
    using execute_outcome [of graph control] by blast
  then show "\<exists>r. components_execute graph control = Some r \<and>
     (case r of
        Inl e \<Rightarrow>
          e = Cancelled \<and> \<not> uncancelled control \<or>
          e = Execution ''adjacency references an unselected node'' \<and> \<not> rows_selected graph (all_rows graph) \<or>
          e = Execution ''component count exceeds Int64 result range'' \<and> 2 ^ 63 \<le> node_count graph \<or>
          e = Execution ''selected node has no UUID identity'' \<and> length (t_uuids graph) < node_count graph \<or>
          e = OutputLimit (c_output_rows control + 1) (c_output_rows control) \<and> c_output_rows control < node_count graph
      | Inr rows \<Rightarrow>
          rows_selected graph (all_rows graph) \<and> node_count graph \<le> length (t_uuids graph) \<and>
          node_count graph \<le> c_output_rows control \<and>
          rows = map (\<lambda>i. (t_uuids graph ! i, community (row_edges graph (all_rows graph)) i)) (all_rows graph))"
    by (cases r) (auto simp: stopped_def numbering_stopped_def unselected_def)
qed (simp_all add: community_eq, simp add: community_def roots_below_def)

lemma pass_uncancelled:
  assumes "pass_result graph control r" "uncancelled control"
  shows "if rows_selected graph (all_rows graph)
    then \<exists>p. r = Some (Inr p) \<and> array_inv p \<and> length p = node_count graph \<and>
      rep (array_parent p) = leader (row_edges graph (all_rows graph))
    else r = Some (Inl unselected)"
proof -
  from assms(1) obtain q where q: "r = Some q"
      "case q of Inl e \<Rightarrow> stopped control (rows_selected graph (all_rows graph)) e
       | Inr p \<Rightarrow> rows_selected graph (all_rows graph) \<and> array_inv p \<and> length p = node_count graph \<and>
           rel_of (array_parent p) = sym_conn (row_edges graph (all_rows graph))" unfolding pass_result_def by blast
  show ?thesis using q assms(2) array_leader by (cases q) (auto simp: stopped_def)
qed

text \<open>C6. The number of threads and the compute pool never change the outcome of a run that is not cancelled: the serial pass
  and the parallel pass give the same rows in the same order with the same numbers, or the same error.\<close>

theorem components_thread_independent:
  assumes "uncancelled control"
  shows "components_execute graph (control\<lparr>c_compute_threads := threads, c_pool_parallel := pool\<rparr>) = components_execute graph control"
proof -
  let ?c = "control\<lparr>c_compute_threads := threads, c_pool_parallel := pool\<rparr>"
  have c: "uncancelled ?c" using assms by (simp add: uncancelled_def)
  obtain r r' where r: "pass_result graph control r" "components_execute graph control =
        bind_result r (\<lambda>p. number_components graph control (all_rows graph) p Map.empty 0 [])"
    and r': "pass_result graph ?c r'" "components_execute graph ?c =
        bind_result r' (\<lambda>p. number_components graph ?c (all_rows graph) p Map.empty 0 [])"
    using execute_pass [of graph control] execute_pass [of graph ?c] by blast
  show ?thesis
  proof (cases "rows_selected graph (all_rows graph)")
    case True
    with pass_uncancelled [OF r(1) assms] pass_uncancelled [OF r'(1) c] obtain p q where
      p: "r = Some (Inr p)" "array_inv p" "length p = node_count graph" "rep (array_parent p) = leader (row_edges graph (all_rows graph))" and
      q: "r' = Some (Inr q)" "array_inv q" "length q = node_count graph" "rep (array_parent q) = leader (row_edges graph (all_rows graph))"
      by auto
    have "number_components graph ?c (all_rows graph) q Map.empty 0 [] = number_components graph control (all_rows graph) p Map.empty 0 []"
      by (rule number_components_cong) (use p q in simp_all)
    then show ?thesis unfolding r(2) r'(2) p(1) q(1) by simp
  next
    case False
    with pass_uncancelled [OF r(1) assms] pass_uncancelled [OF r'(1) c] show ?thesis unfolding r(2) r'(2) by simp
  qed
qed

lemma find_root: "i < length p \<Longrightarrow> p ! i = i \<Longrightarrow> find p i = Some (i, p)"
  by (subst find.simps) simp

lemma find_child: "i < length p \<Longrightarrow> p ! i \<noteq> i \<Longrightarrow> find p i = Option.bind (find p (p ! i)) (\<lambda>(root, p). Some (root, p[i := root]))"
  by (subst find.simps) simp

theorem components_thread_independent_witness:
  "components_execute (topology_default\<lparr>t_nodes := Dense 3 3, t_offsets := [0, 1, 1, 2], t_neighbors := [2, 0], t_uuids := [31, 51, 91]\<rparr> :: nat topology_graph)
     \<lparr>c_polls = (\<lambda>_ _. False), c_compute_threads = 4, c_pool_parallel = Some True, c_output_rows = 5\<rparr> =
   Some (Inr [(31, 0), (51, 1), (91, 0)])"
proof -
  let ?g = "topology_default\<lparr>t_nodes := Dense 3 3, t_offsets := [0, 1, 1, 2], t_neighbors := [2, 0], t_uuids := [31, 51, 91]\<rparr> :: nat topology_graph"
  let ?c = "\<lparr>c_polls = (\<lambda>_ _. False), c_compute_threads = 1, c_pool_parallel = None, c_output_rows = 5\<rparr>"
  have u: "uncancelled ?c" by (simp add: uncancelled_def)
  have n: "node_count ?g = 3" by (simp add: node_count_def topology_default_def)
  have up: "[0..<3] = [0, 1, 2::nat]" by (simp add: upt_rec)
  have row: "neighbor_ordinals ?g 0 = [2]" "neighbor_ordinals ?g 1 = []" "neighbor_ordinals ?g 2 = [0]"
    by (simp_all add: neighbor_ordinals_def slots_def topology_default_def)
  have poll: "poll_at ?c site k = Inr ()" for site k by (simp add: poll_at_def check_cancelled_def)
  have union: "union_array [0, 1, 2] 0 2 = Some [0, 1, 0]" "union_array [0, 1, 0] 2 0 = Some [0, 1, 0]"
    by (simp_all add: union_array_def find_root find_child)
  have pass: "components_union_serial ?g [0, 1, 2] ?c = Some (Inr [0, 1, 0])"
    unfolding components_union_serial_def n up by (simp add: selected_neighbors_def row [simplified] n [simplified] poll [simplified] union [simplified])
  have uuid: "uuid_of_ordinal ?g 0 = Some 31" "uuid_of_ordinal ?g 1 = Some 51" "uuid_of_ordinal ?g 2 = Some 91"
    by (simp_all add: uuid_of_ordinal_def)
  have path: "select_components_path ?c 3 k = Serial" for k by (simp add: select_components_path_def)
  have "components_execute ?g ?c = Some (Inr [(31, 0), (51, 1), (91, 0)])"
    unfolding components_execute_def n up path Let_def pass components_execution_path.case bind_result_simps
    by (simp add: poll [simplified] find_root find_child uuid [simplified])
  then show ?thesis
    using components_thread_independent [OF u, where graph = ?g and threads = 4 and pool = "Some True"] by simp
qed

end
