(* ===== verification/Cypher_Lexer.thy ===== *)
theory Cypher_Lexer
  imports Canonical
begin

text \<open>
  \<open>crates/graphforge-cypher/src/lexer.rs\<close>: the lexer of the Cypher front end. A string is a list of code points. The
  state of the lexer is the input from its position on, together with the position in bytes. What the standard library
  knows of Unicode and of floating point is a parameter: the classes of code points, their upper case, the debug form of a
  character and the value of a float literal. Lexing stops at the first error, so the position after an error is not kept.
\<close>

section \<open>Text\<close>

type_synonym ustring = "nat list"

abbreviation cp :: "char \<Rightarrow> nat" where
  "cp c \<equiv> of_char c"

abbreviation lit :: "string \<Rightarrow> ustring" where
  "lit s \<equiv> map of_char s"

definition len_utf8 :: "nat \<Rightarrow> nat" where
  "len_utf8 c = (if c < 0x80 then 1 else if c < 0x800 then 2 else if c < 0x10000 then 3 else 4)"

definition utf8_len :: "ustring \<Rightarrow> nat" where
  "utf8_len s = sum_list (map len_utf8 s)"

record 'f std_text =
  s_alphabetic :: "nat \<Rightarrow> bool"
  s_numeric :: "nat \<Rightarrow> bool"
  s_uppercase :: "nat \<Rightarrow> ustring"
  s_debug :: "nat \<Rightarrow> ustring"
  s_parse_f64 :: "ustring \<Rightarrow> 'f option"

definition is_alphanumeric :: "('f, 'x) std_text_scheme \<Rightarrow> nat \<Rightarrow> bool" where
  "is_alphanumeric std c \<longleftrightarrow> s_alphabetic std c \<or> s_numeric std c"

definition is_ascii_whitespace :: "nat \<Rightarrow> bool" where
  "is_ascii_whitespace c \<longleftrightarrow> c = 32 \<or> c = 9 \<or> c = 10 \<or> c = 12 \<or> c = 13"

definition is_digit :: "nat \<Rightarrow> bool" where
  "is_digit c \<longleftrightarrow> 48 \<le> c \<and> c \<le> 57"

definition to_ascii_uppercase :: "nat \<Rightarrow> nat" where
  "to_ascii_uppercase c = (if 97 \<le> c \<and> c \<le> 122 then c - 32 else c)"

definition eq_ignore_ascii_case :: "ustring \<Rightarrow> ustring \<Rightarrow> bool" where
  "eq_ignore_ascii_case s t \<longleftrightarrow> map to_ascii_uppercase s = map to_ascii_uppercase t"

text \<open>\<open>char::to_digit\<close> and \<open>from_str_radix\<close> of an integer type with the bounds \<open>lo\<close> and \<open>hi\<close>.\<close>

definition to_digit :: "nat \<Rightarrow> nat \<Rightarrow> nat option" where
  "to_digit radix c =
     (let d = (if is_digit c then c - 48 else if 97 \<le> c \<and> c \<le> 122 then c - 87 else if 65 \<le> c \<and> c \<le> 90 then c - 55 else radix)
      in if d < radix then Some d else None)"

definition radix_value :: "nat \<Rightarrow> ustring \<Rightarrow> nat" where
  "radix_value radix s = foldl (\<lambda>n c. n * radix + the (to_digit radix c)) 0 s"

definition from_str_radix :: "int \<Rightarrow> int \<Rightarrow> nat \<Rightarrow> ustring \<Rightarrow> int option" where
  "from_str_radix lo hi radix s =
     (let (neg, ds) = (case s of [] \<Rightarrow> (False, [])
                       | c # cs \<Rightarrow> if c = cp CHR ''+'' then (False, cs) else if c = cp CHR ''-'' \<and> lo < 0 then (True, cs) else (False, s))
      in if ds = [] \<or> \<not> list_all (\<lambda>c. to_digit radix c \<noteq> None) ds then None
         else let v = (if neg then - int (radix_value radix ds) else int (radix_value radix ds))
              in if lo \<le> v \<and> v \<le> hi then Some v else None)"

definition u32_from_str_radix :: "nat \<Rightarrow> ustring \<Rightarrow> nat option" where
  "u32_from_str_radix radix s = map_option nat (from_str_radix 0 (2 ^ 32 - 1) radix s)"

definition i128_from_str_radix :: "nat \<Rightarrow> ustring \<Rightarrow> int option" where
  "i128_from_str_radix radix s = from_str_radix (- (2 ^ 127)) (2 ^ 127 - 1) radix s"

definition char_from_u32 :: "nat \<Rightarrow> nat option" where
  "char_from_u32 n = (if n < 0x110000 \<and> \<not> (0xD800 \<le> n \<and> n \<le> 0xDFFF) then Some n else None)"

text \<open>The decimal form of a number.\<close>

fun decimal_digits :: "nat \<Rightarrow> ustring" where
  "decimal_digits n = (if n < 10 then [48 + n] else decimal_digits (n div 10) @ [48 + n mod 10])"

declare decimal_digits.simps [simp del]

section \<open>Errors\<close>

datatype unsupported_cypher_feature =
  CallSubquery | CountSubquery | Reduce | ShortestPath | DynamicDuration | IdentityFunction |
  UnboundRelationshipEndpoint | IndexedPathRelationshipPredicate | VariableLengthRelationshipAlternation |
  ParameterRowsAcrossLabels

definition description :: "unsupported_cypher_feature \<Rightarrow> string" where
  "description feature =
     (case feature of
        CallSubquery \<Rightarrow> ''Cypher CALL subqueries''
      | CountSubquery \<Rightarrow> ''Cypher COUNT subqueries''
      | Reduce \<Rightarrow> ''Cypher reduce accumulator expressions''
      | ShortestPath \<Rightarrow> ''Cypher shortest-path patterns''
      | DynamicDuration \<Rightarrow> ''Cypher duration maps with nonliteral values''
      | IdentityFunction \<Rightarrow> ''Cypher id identity function''
      | UnboundRelationshipEndpoint \<Rightarrow> ''Cypher endpoint functions on unbound relationship values''
      | IndexedPathRelationshipPredicate \<Rightarrow> ''Cypher ALL predicates over indexed variable-length relationship properties''
      | VariableLengthRelationshipAlternation \<Rightarrow> ''Cypher variable-length relationship type alternation''
      | ParameterRowsAcrossLabels \<Rightarrow> ''Cypher parameter rows matching properties across different node labels'')"

datatype parse_error_kind =
  UnsupportedFeature unsupported_cypher_feature
| UnexpectedChar
| UnexpectedToken ustring "ustring list"
| UnterminatedString
| UnterminatedBlockComment
| InvalidNumericLiteral
| InvalidParameter
| UnexpectedEof "ustring list"

record parse_error =
  e_kind :: parse_error_kind
  e_span :: "nat \<times> nat"
  e_message :: ustring

definition parse_error_new :: "parse_error_kind \<Rightarrow> nat \<times> nat \<Rightarrow> ustring \<Rightarrow> parse_error" where
  "parse_error_new kind span message = \<lparr>e_kind = kind, e_span = span, e_message = message\<rparr>"

section \<open>Tokens\<close>

text \<open>
  The tokens of the enumeration \<open>Tok\<close>, with a leading \<open>T\<close>. Its keywords and their compounds are a type of their own,
  and the floats of its literals a parameter.
\<close>

datatype (plugins only: code) keyword_tok =
  TMatch | TOptional | TWhere | TReturn | TWith | TAs | TDistinct | TUnion | TAll | TCreate | TMerge | TOn |
  TSet | TRemove | TDelete | TDetach | TCall | TYield | TUnwind | TOrder | TBy | TSkip | TLimit | TNot | TAnd |
  TOr | TXor | TIn | TIs | TNull | TStarts | TEnds | TContains | TNotIn | TIsNull | TIsNotNull | TStartsWith |
  TEndsWith | TCase | TWhen | TThen | TElse | TEnd | TTrue | TFalse | TShortestPath | TAllShortestPaths |
  TCount | TExists | TReduce | TFilter | TExtract | TAny | TNone | TSingle | TAsc | TDesc | TAscending |
  TDescending

datatype (plugins only: code) 'f tok =
  TKeyword keyword_tok | TIntLit int | TFloatLit 'f | TStrLit ustring | TIdent ustring | TParam ustring |
  TLParen | TRParen | TLBracket | TRBracket | TLBrace | TRBrace | TDot | TComma | TColon | TSemi | TPipe |
  TDotDot | TEq | TNeq | TLt | TLte | TGt | TGte | TPlus | TMinus | TStar | TSlash | TPercent | TCaret |
  TRegexMatch | TPlusEq | TRelOpen | TLeftArrow | TRightArrow

section \<open>The lexer\<close>

record lexer =
  l_rest :: ustring
  l_pos :: nat

definition lexer_new :: "ustring \<Rightarrow> lexer" where
  "lexer_new input = \<lparr>l_rest = input, l_pos = 0\<rparr>"

definition peek :: "lexer \<Rightarrow> nat option" where
  "peek lx = (case l_rest lx of [] \<Rightarrow> None | c # _ \<Rightarrow> Some c)"

definition advance :: "lexer \<Rightarrow> (nat \<times> lexer) option" where
  "advance lx = (case l_rest lx of [] \<Rightarrow> None | c # cs \<Rightarrow> Some (c, \<lparr>l_rest = cs, l_pos = l_pos lx + len_utf8 c\<rparr>))"

text \<open>The loops that advance while the next character satisfies a test, with the characters read.\<close>

definition advance_while :: "(nat \<Rightarrow> bool) \<Rightarrow> lexer \<Rightarrow> ustring \<times> lexer" where
  "advance_while p lx =
     (let w = takeWhile p (l_rest lx) in (w, \<lparr>l_rest = dropWhile p (l_rest lx), l_pos = l_pos lx + utf8_len w\<rparr>))"

text \<open>An advance over \<open>n\<close> characters of one byte.\<close>

definition advance_ascii :: "nat \<Rightarrow> lexer \<Rightarrow> lexer" where
  "advance_ascii n lx = \<lparr>l_rest = drop n (l_rest lx), l_pos = l_pos lx + n\<rparr>"

definition starts_with :: "ustring \<Rightarrow> lexer \<Rightarrow> bool" where
  "starts_with s lx \<longleftrightarrow> take (length s) (l_rest lx) = s"

fun close_comment :: "nat \<Rightarrow> ustring \<Rightarrow> nat \<Rightarrow> parse_error + lexer" where
  "close_comment comment_start [] pos =
     Inl (parse_error_new UnterminatedBlockComment (comment_start, pos) (lit ''unterminated block comment''))"
| "close_comment comment_start (c # cs) pos =
     (if take 2 (c # cs) = lit ''*/'' then Inr \<lparr>l_rest = drop 2 (c # cs), l_pos = pos + 2\<rparr>
      else close_comment comment_start cs (pos + len_utf8 c))"

lemma close_comment_shorter: "close_comment start s pos = Inr lx \<Longrightarrow> length (l_rest lx) < length s"
  by (induction start s pos rule: close_comment.induct) (auto split: if_splits)

function skip_whitespace_and_comments :: "lexer \<Rightarrow> parse_error + lexer" where
  "skip_whitespace_and_comments lx =
     (let lx = snd (advance_while is_ascii_whitespace lx)
      in if starts_with (lit ''//'') lx then skip_whitespace_and_comments (snd (advance_while (\<lambda>c. c \<noteq> 10) lx))
         else if starts_with (lit ''/*'') lx
         then (let opened = advance_ascii 2 lx
               in case close_comment (l_pos lx) (l_rest opened) (l_pos opened) of
                    Inl e \<Rightarrow> Inl e
                  | Inr lx \<Rightarrow> skip_whitespace_and_comments lx)
         else Inr lx)"
  by pat_completeness auto

termination skip_whitespace_and_comments
proof (relation "measure (\<lambda>lx. length (l_rest lx))", simp, goal_cases)
  case (1 lx x)
  then have "takeWhile (\<lambda>c. c \<noteq> 10) (l_rest x) \<noteq> []" by (cases "l_rest x") (auto simp: starts_with_def)
  then have "length (dropWhile (\<lambda>c. c \<noteq> 10) (l_rest x)) < length (l_rest x)"
    by (metis append_Nil length_dropWhile_le le_neq_implies_less takeWhile_dropWhile_id append_eq_conv_conj append_same_eq self_append_conv2 length_append add_cancel_left_left length_0_conv)
  moreover have "length (l_rest x) \<le> length (l_rest lx)" using 1(1) by (simp add: advance_while_def Let_def length_dropWhile_le)
  ultimately show ?case by (simp add: advance_while_def Let_def)
next
  case (2 lx x xa y)
  have "length (l_rest y) < length (l_rest xa)" by (rule close_comment_shorter) (use 2 in simp)
  moreover have "length (l_rest xa) \<le> length (l_rest x)" using 2 by (simp add: advance_ascii_def)
  moreover have "length (l_rest x) \<le> length (l_rest lx)" using 2(1) by (simp add: advance_while_def Let_def length_dropWhile_le)
  ultimately show ?case by simp
qed

definition peek_keyword :: "('f, 'x) std_text_scheme \<Rightarrow> lexer \<Rightarrow> ustring option" where
  "peek_keyword std lx =
     (let trimmed = dropWhile is_ascii_whitespace (l_rest lx);
          word = takeWhile (\<lambda>c. is_alphanumeric std c \<or> c = cp CHR ''_'') trimmed
      in if word = [] then None else Some word)"

definition skip_ws_and_advance_n :: "nat \<Rightarrow> lexer \<Rightarrow> lexer" where
  "skip_ws_and_advance_n n lx = advance_ascii n (snd (advance_while is_ascii_whitespace lx))"

definition next_word_is :: "('f, 'x) std_text_scheme \<Rightarrow> string \<Rightarrow> lexer \<Rightarrow> bool" where
  "next_word_is std word lx = (case peek_keyword std lx of None \<Rightarrow> False | Some w \<Rightarrow> eq_ignore_ascii_case w (lit word))"

definition maybe_compound :: "('f, 'x) std_text_scheme \<Rightarrow> keyword_tok \<Rightarrow> lexer \<Rightarrow> keyword_tok \<times> lexer" where
  "maybe_compound std tok lx =
     (if tok = TNot \<and> next_word_is std ''IN'' lx then (TNotIn, skip_ws_and_advance_n 2 lx)
      else if tok = TIs \<and> next_word_is std ''NULL'' lx then (TIsNull, skip_ws_and_advance_n 4 lx)
      else if tok = TIs \<and> next_word_is std ''NOT'' lx
      then (let after = skip_ws_and_advance_n 3 lx
            in if next_word_is std ''NULL'' after then (TIsNotNull, skip_ws_and_advance_n 4 after) else (tok, lx))
      else if tok = TStarts \<and> next_word_is std ''WITH'' lx then (TStartsWith, skip_ws_and_advance_n 4 lx)
      else if tok = TEnds \<and> next_word_is std ''WITH'' lx then (TEndsWith, skip_ws_and_advance_n 4 lx)
      else (tok, lx))"

function read_string :: "nat \<Rightarrow> nat \<Rightarrow> ustring \<Rightarrow> nat \<Rightarrow> ustring \<Rightarrow> parse_error + ustring \<times> lexer" where
  "read_string quote start [] pos s =
     Inl (parse_error_new UnterminatedString (start, pos) (lit ''unterminated string literal''))"
| "read_string quote start (c # cs) pos s =
     (let pos = pos + len_utf8 c
      in if c = quote then Inr (s, \<lparr>l_rest = cs, l_pos = pos\<rparr>)
         else if c = 92 then
           (case cs of
              [] \<Rightarrow> Inr (s, \<lparr>l_rest = [], l_pos = pos\<rparr>)
            | d # ds \<Rightarrow>
                let pos = pos + len_utf8 d
                in if d = cp CHR ''n'' then read_string quote start ds pos (s @ [10])
                   else if d = cp CHR ''t'' then read_string quote start ds pos (s @ [9])
                   else if d = cp CHR ''r'' then read_string quote start ds pos (s @ [13])
                   else if d = 92 then read_string quote start ds pos (s @ [92])
                   else if d = 39 then read_string quote start ds pos (s @ [39])
                   else if d = 34 then read_string quote start ds pos (s @ [34])
                   else if d = cp CHR ''u'' then
                     (let escape_start = pos - 2; hex = take 4 ds; rest = drop 4 ds; pos = pos + utf8_len hex
                      in case Option.bind (u32_from_str_radix 16 hex) char_from_u32 of
                           Some c \<Rightarrow> read_string quote start rest pos (s @ [c])
                         | None \<Rightarrow> Inl (parse_error_new InvalidNumericLiteral (escape_start, pos)
                             (lit ''invalid unicode escape: '' @ [92] @ lit ''u'' @ hex)))
                   else read_string quote start ds pos (s @ [92, d]))
         else read_string quote start cs pos (s @ [c]))"
  by pat_completeness auto

termination read_string
  by (relation "measure (\<lambda>(_, _, rest, _, _). length rest)") auto

fun read_backtick_ident :: "nat \<Rightarrow> ustring \<Rightarrow> nat \<Rightarrow> ustring \<Rightarrow> parse_error + ustring \<times> lexer" where
  "read_backtick_ident start [] pos s =
     Inl (parse_error_new UnterminatedString (start, pos) (lit ''unterminated backtick identifier''))"
| "read_backtick_ident start (c # cs) pos s =
     (let pos = pos + len_utf8 c
      in if c = 10
         then Inl (parse_error_new UnterminatedString (start, pos) (lit ''unterminated backtick identifier''))
         else if c = 96 then Inr (s, \<lparr>l_rest = cs, l_pos = pos\<rparr>)
         else read_backtick_ident start cs pos (s @ [c]))"

text \<open>The digits and the exponent of a number.\<close>

definition read_sign :: "lexer \<Rightarrow> ustring \<times> lexer" where
  "read_sign lx =
     (case advance lx of
        None \<Rightarrow> ([], lx)
      | Some (d, lx') \<Rightarrow> if d = cp CHR ''+'' \<or> d = cp CHR ''-'' then ([d], lx') else ([], lx))"

definition read_exponent :: "lexer \<Rightarrow> (ustring \<times> lexer) option" where
  "read_exponent lx =
     (case advance lx of
        None \<Rightarrow> None
      | Some (c, lx) \<Rightarrow>
          if c = cp CHR ''e'' \<or> c = cp CHR ''E''
          then let (sign, lx) = read_sign lx; (ds, lx) = advance_while is_digit lx in Some (c # sign @ ds, lx)
          else None)"

definition parse_float :: "('f, 'x) std_text_scheme \<Rightarrow> nat \<Rightarrow> ustring \<Rightarrow> lexer \<Rightarrow> parse_error + 'f tok \<times> lexer" where
  "parse_float std start s lx =
     (case s_parse_f64 std s of
        Some v \<Rightarrow> Inr (TFloatLit v, lx)
      | None \<Rightarrow> Inl (parse_error_new InvalidNumericLiteral (start, l_pos lx) (lit ''invalid float literal: '' @ s)))"

definition parse_int :: "nat \<Rightarrow> string \<Rightarrow> nat \<Rightarrow> ustring \<Rightarrow> ustring \<Rightarrow> lexer \<Rightarrow> parse_error + 'f tok \<times> lexer" where
  "parse_int radix name start digits s lx =
     (case i128_from_str_radix radix digits of
        Some v \<Rightarrow> Inr (TIntLit v, lx)
      | None \<Rightarrow> Inl (parse_error_new InvalidNumericLiteral (start, l_pos lx)
          (lit ''invalid '' @ lit name @ lit '' literal: '' @ s)))"

definition read_radix :: "nat \<Rightarrow> string \<Rightarrow> (nat \<Rightarrow> bool) \<Rightarrow> nat \<Rightarrow> nat \<Rightarrow> lexer \<Rightarrow> parse_error + 'f tok \<times> lexer" where
  "read_radix radix name p start x lx =
     (let (digits, lx) = advance_while p lx in parse_int radix name start digits (cp CHR ''0'' # x # digits) lx)"

definition read_fraction :: "lexer \<Rightarrow> (ustring \<times> lexer) option" where
  "read_fraction lx =
     (case l_rest lx of
        c # d # _ \<Rightarrow>
          if c = cp CHR ''.'' \<and> is_digit d
          then let (ds, lx) = advance_while is_digit (advance_ascii 1 lx) in Some (c # ds, lx)
          else None
      | _ \<Rightarrow> None)"

definition read_decimal :: "('f, 'x) std_text_scheme \<Rightarrow> nat \<Rightarrow> nat \<Rightarrow> lexer \<Rightarrow> parse_error + 'f tok \<times> lexer" where
  "read_decimal std start first lx =
     (let (ds, lx) = advance_while is_digit lx;
          (frac, lx, is_float) = (case read_fraction lx of None \<Rightarrow> ([], lx, False) | Some (w, lx) \<Rightarrow> (w, lx, True));
          (expo, lx, is_float) = (case read_exponent lx of None \<Rightarrow> ([], lx, is_float) | Some (w, lx) \<Rightarrow> (w, lx, True));
          s = first # ds @ frac @ expo
      in if is_float then parse_float std start s lx else parse_int 10 ''integer'' start s s lx)"

definition read_number :: "('f, 'x) std_text_scheme \<Rightarrow> nat \<Rightarrow> lexer \<Rightarrow> parse_error + 'f tok \<times> lexer" where
  "read_number std first lx =
     (let start = l_pos lx - len_utf8 first
      in case (if first = cp CHR ''0'' then advance lx else None) of
           Some (x, lx') \<Rightarrow>
             if x = cp CHR ''x'' \<or> x = cp CHR ''X'' then read_radix 16 ''hex'' (\<lambda>c. to_digit 16 c \<noteq> None) start x lx'
             else if x = cp CHR ''o'' \<or> x = cp CHR ''O'' then read_radix 8 ''octal'' (\<lambda>c. to_digit 8 c \<noteq> None) start x lx'
             else read_decimal std start first lx
         | None \<Rightarrow> read_decimal std start first lx)"

definition read_leading_dot_float :: "('f, 'x) std_text_scheme \<Rightarrow> nat \<Rightarrow> lexer \<Rightarrow> parse_error + 'f tok \<times> lexer" where
  "read_leading_dot_float std start lx =
     (let (ds, lx) = advance_while is_digit lx;
          (expo, lx) = (case read_exponent lx of None \<Rightarrow> ([], lx) | Some (w, lx) \<Rightarrow> (w, lx))
      in parse_float std start (cp CHR ''.'' # ds @ expo) lx)"

definition keyword_table :: "(string \<times> keyword_tok) list" where
  "keyword_table =
    [(''MATCH'', TMatch), (''OPTIONAL'', TOptional), (''WHERE'', TWhere), (''RETURN'', TReturn),
     (''WITH'', TWith), (''AS'', TAs), (''DISTINCT'', TDistinct), (''UNION'', TUnion), (''ALL'', TAll),
     (''CREATE'', TCreate), (''MERGE'', TMerge), (''ON'', TOn), (''SET'', TSet), (''REMOVE'', TRemove),
     (''DELETE'', TDelete), (''DETACH'', TDetach), (''CALL'', TCall), (''YIELD'', TYield),
     (''UNWIND'', TUnwind), (''ORDER'', TOrder), (''BY'', TBy), (''SKIP'', TSkip), (''LIMIT'', TLimit),
     (''NOT'', TNot), (''AND'', TAnd), (''OR'', TOr), (''XOR'', TXor), (''IN'', TIn), (''IS'', TIs),
     (''NULL'', TNull), (''STARTS'', TStarts), (''ENDS'', TEnds), (''CONTAINS'', TContains), (''CASE'', TCase),
     (''WHEN'', TWhen), (''THEN'', TThen), (''ELSE'', TElse), (''END'', TEnd), (''TRUE'', TTrue),
     (''FALSE'', TFalse), (''SHORTESTPATH'', TShortestPath), (''ALLSHORTESTPATHS'', TAllShortestPaths),
     (''COUNT'', TCount), (''EXISTS'', TExists), (''REDUCE'', TReduce), (''FILTER'', TFilter),
     (''EXTRACT'', TExtract), (''ANY'', TAny), (''NONE'', TNone), (''SINGLE'', TSingle), (''ASC'', TAsc),
     (''DESC'', TDesc), (''ASCENDING'', TAscending), (''DESCENDING'', TDescending)]"

definition to_uppercase :: "('f, 'x) std_text_scheme \<Rightarrow> ustring \<Rightarrow> ustring" where
  "to_uppercase std s = concat (map (s_uppercase std) s)"

definition keyword :: "('f, 'x) std_text_scheme \<Rightarrow> ustring \<Rightarrow> keyword_tok option" where
  "keyword std s = map_of (map (\<lambda>(word, tok). (lit word, tok)) keyword_table) (to_uppercase std s)"

definition read_parameter :: "('f, 'x) std_text_scheme \<Rightarrow> nat \<Rightarrow> lexer \<Rightarrow> parse_error + 'f tok \<times> lexer" where
  "read_parameter std start lx =
     (let (name, lx) = advance_while (\<lambda>c. is_alphanumeric std c \<or> c = cp CHR ''_'') lx
      in if name = []
         then Inl (parse_error_new InvalidParameter (start, l_pos lx) (lit ''empty parameter name after '' @ [39, 36, 39]))
         else if \<not> list_all is_digit name \<and> \<not> (s_alphabetic std (hd name) \<or> hd name = cp CHR ''_'')
         then Inl (parse_error_new InvalidParameter (start, l_pos lx)
           (lit ''parameter name must be an identifier or decimal integer, got '' @ [39] @ name @ [39]))
         else Inr (TParam name, lx))"

definition next_is :: "char \<Rightarrow> lexer \<Rightarrow> bool" where
  "next_is c lx \<longleftrightarrow> peek lx = Some (cp c)"

definition read_operator :: "('f, 'x) std_text_scheme \<Rightarrow> nat \<Rightarrow> nat \<Rightarrow> lexer \<Rightarrow> parse_error + 'f tok \<times> lexer" where
  "read_operator std c start lx =
     (if c = cp CHR ''+'' then
        (if next_is CHR ''='' lx then Inr (TPlusEq, advance_ascii 1 lx) else Inr (TPlus, lx))
      else if c = cp CHR ''.'' then
        (if next_is CHR ''.'' lx then Inr (TDotDot, advance_ascii 1 lx)
         else if (case peek lx of None \<Rightarrow> False | Some d \<Rightarrow> is_digit d) then read_leading_dot_float std start lx
         else Inr (TDot, lx))
      else if c = cp CHR ''='' then
        (if next_is CHR ''~'' lx then Inr (TRegexMatch, advance_ascii 1 lx) else Inr (TEq, lx))
      else if c = cp CHR ''!'' then
        (if next_is CHR ''='' lx then Inr (TNeq, advance_ascii 1 lx)
         else Inl (parse_error_new UnexpectedChar (start, l_pos lx) (lit ''unexpected '' @ [39, 33, 39])))
      else if c = cp CHR ''<'' then
        (if next_is CHR ''='' lx then Inr (TLte, advance_ascii 1 lx)
         else if next_is CHR ''>'' lx then Inr (TNeq, advance_ascii 1 lx)
         else if next_is CHR ''-'' lx then Inr (TLeftArrow, advance_ascii 1 lx)
         else Inr (TLt, lx))
      else if c = cp CHR ''>'' then
        (if next_is CHR ''='' lx then Inr (TGte, advance_ascii 1 lx) else Inr (TGt, lx))
      else
        (if next_is CHR ''['' lx then Inr (TRelOpen, advance_ascii 1 lx)
         else if next_is CHR ''>'' lx then Inr (TRightArrow, advance_ascii 1 lx)
         else Inr (TMinus, lx)))"

text \<open>The characters that are tokens by themselves.\<close>

definition single_tokens :: "(nat \<times> 'f tok) list" where
  "single_tokens =
    [(cp CHR ''('', TLParen), (cp CHR '')'', TRParen), (cp CHR ''['', TLBracket), (cp CHR '']'', TRBracket),
     (cp CHR ''{'', TLBrace), (cp CHR ''}'', TRBrace), (cp CHR '','', TComma), (cp CHR '':'', TColon),
     (cp CHR '';'', TSemi), (cp CHR ''|'', TPipe), (cp CHR ''^'', TCaret), (cp CHR ''%'', TPercent),
     (cp CHR ''/'', TSlash), (cp CHR ''*'', TStar)]"

definition read_word :: "('f, 'x) std_text_scheme \<Rightarrow> nat \<Rightarrow> lexer \<Rightarrow> 'f tok \<times> lexer" where
  "read_word std c lx =
     (let (w, lx) = advance_while (\<lambda>c. is_alphanumeric std c \<or> c = cp CHR ''_'') lx
      in case keyword std (c # w) of
           Some kw \<Rightarrow> (case maybe_compound std kw lx of (kw, lx) \<Rightarrow> (TKeyword kw, lx))
         | None \<Rightarrow> (TIdent (c # w), lx))"

definition read_token :: "('f, 'x) std_text_scheme \<Rightarrow> nat \<Rightarrow> nat \<Rightarrow> lexer \<Rightarrow> parse_error + 'f tok \<times> lexer" where
  "read_token std c start lx =
     (case map_of single_tokens c of
        Some tok \<Rightarrow> Inr (tok, lx)
      | None \<Rightarrow>
          if c \<in> set (lit ''+.=!<>-'') then read_operator std c start lx
          else if c = 39 \<or> c = 34
          then and_then (read_string c start (l_rest lx) (l_pos lx) []) (\<lambda>(s, lx). Inr (TStrLit s, lx))
          else if c = 96
          then and_then (read_backtick_ident start (l_rest lx) (l_pos lx) []) (\<lambda>(s, lx). Inr (TIdent s, lx))
          else if c = cp CHR ''$'' then read_parameter std start lx
          else if is_digit c then read_number std c lx
          else if s_alphabetic std c \<or> c = cp CHR ''_'' then Inr (read_word std c lx)
          else Inl (parse_error_new UnexpectedChar (start, l_pos lx) (lit ''unexpected character: '' @ s_debug std c)))"

definition lexer_next :: "('f, 'x) std_text_scheme \<Rightarrow> lexer \<Rightarrow> (parse_error + (nat \<times> 'f tok \<times> nat) \<times> lexer) option" where
  "lexer_next std lx =
     (case skip_whitespace_and_comments lx of
        Inl e \<Rightarrow> Some (Inl e)
      | Inr lx \<Rightarrow>
          let start = l_pos lx
          in case advance lx of
               None \<Rightarrow> None
             | Some (c, lx) \<Rightarrow> Some (and_then (read_token std c start lx) (\<lambda>(tok, lx). Inr ((start, tok, l_pos lx), lx))))"

end
