(* ===== verification/Lexer_Tokens.thy ===== *)
theory Lexer_Tokens
  imports Cypher_Lexer "HOL-Library.Sublist"
begin

text \<open>
  What the lexer does on every input. A scanner reads a token after its first character: it consumes a text, its errors
  lie within the input, and it reads the same token when the text stands alone; the readers of numbers, parameters and
  operators are interpretations of that interface. White space and comments are trivia. \<open>collect_tokens\<close> is the
  collection of all tokens by \<open>TokenStream::new\<close>, and \<open>tiles\<close> says how the tokens cover the input.
\<close>

section \<open>Consumption\<close>

lemma len_utf8_pos: "0 < len_utf8 c"
  by (simp add: len_utf8_def)

lemma utf8_len_simps [simp]:
  "utf8_len [] = 0" "utf8_len (c # s) = len_utf8 c + utf8_len s" "utf8_len (s @ t) = utf8_len s + utf8_len t"
  by (simp_all add: utf8_len_def)

lemma utf8_len_pos: "s \<noteq> [] \<Longrightarrow> 0 < utf8_len s"
  by (cases s) (simp_all add: len_utf8_pos)

lemma utf8_len_ascii: "list_all (\<lambda>c. c < 128) s \<Longrightarrow> utf8_len s = length s"
  by (induction s) (simp_all add: len_utf8_def)

text \<open>A lexer moves over a text: the text is a prefix of the input, and the position grows by its bytes.\<close>

definition consumes :: "lexer \<Rightarrow> ustring \<Rightarrow> lexer \<Rightarrow> bool" where
  "consumes lx w lx' \<longleftrightarrow> l_rest lx = w @ l_rest lx' \<and> l_pos lx' = l_pos lx + utf8_len w"

lemma consumes_refl: "consumes lx [] lx"
  by (simp add: consumes_def)

lemma consumes_trans: "consumes lx v lx' \<Longrightarrow> consumes lx' w lx'' \<Longrightarrow> consumes lx (v @ w) lx''"
  by (simp add: consumes_def)

lemma consumes_advance: "advance lx = Some (c, lx') \<Longrightarrow> consumes lx [c] lx'"
  by (auto simp: advance_def consumes_def split: list.splits)

lemma consumes_while: "advance_while p lx = (w, lx') \<Longrightarrow> consumes lx w lx' \<and> list_all p w"
  by (auto simp: advance_while_def consumes_def Let_def list_all_iff dest: set_takeWhileD)

lemma consumes_ascii: "take n (l_rest lx) = w \<Longrightarrow> length w = n \<Longrightarrow> list_all (\<lambda>c. c < 128) w \<Longrightarrow> consumes lx w (advance_ascii n lx)"
  using append_take_drop_id [of n "l_rest lx"] by (auto simp: consumes_def advance_ascii_def utf8_len_ascii)

lemma consumes_next_is: "next_is c lx \<Longrightarrow> of_char c < (128 :: nat) \<Longrightarrow> consumes lx [of_char c] (advance_ascii 1 lx)"
  by (cases "l_rest lx") (auto simp: next_is_def peek_def consumes_def advance_ascii_def len_utf8_def)

text \<open>
  A scanner reads a value from the front of the input. It consumes a text, and the text alone, whatever follows it in the
  input, gives the same value. An error lies within the input.
\<close>

definition input_end :: "lexer \<Rightarrow> nat" where
  "input_end lx = l_pos lx + utf8_len (l_rest lx)"

definition error_within :: "nat \<Rightarrow> nat \<Rightarrow> parse_error \<Rightarrow> bool" where
  "error_within lo hi e \<longleftrightarrow> lo \<le> fst (e_span e) \<and> fst (e_span e) \<le> snd (e_span e) \<and> snd (e_span e) \<le> hi"

lemma consumes_end: "consumes lx w lx' \<Longrightarrow> input_end lx' = input_end lx"
  by (simp add: consumes_def input_end_def)

lemma consumes_pos: "consumes lx w lx' \<Longrightarrow> l_pos lx \<le> l_pos lx' \<and> l_pos lx' \<le> input_end lx"
  by (simp add: consumes_def input_end_def)

text \<open>The lexer that has moved over a text and has another input before it.\<close>

definition moved :: "lexer \<Rightarrow> ustring \<Rightarrow> ustring \<Rightarrow> lexer" where
  "moved lx w t = \<lparr>l_rest = t, l_pos = l_pos lx + utf8_len w\<rparr>"

lemma moved_simps [simp]:
  "l_rest (moved lx w t) = t" "l_pos (moved lx w t) = l_pos lx + utf8_len w" "moved (moved lx v s) w t = moved lx (v @ w) t"
  by (simp_all add: moved_def)

lemma consumes_iff: "consumes lx w lx' \<longleftrightarrow> l_rest lx = w @ l_rest lx' \<and> lx' = moved lx w (l_rest lx')"
  by (cases lx', cases lx) (auto simp: consumes_def moved_def)

lemma moved_self [simp]: "moved lx [] (l_rest lx) = lx"
  by (simp add: moved_def)

text \<open>
  A scanner reads a value from the front of the input. It consumes a text, and the text alone, without what follows it in
  the input, gives the same value. An error lies between the start of the token and the end of the input.
\<close>

locale scanner =
  fixes start :: nat and scan :: "lexer \<Rightarrow> parse_error + 'a \<times> lexer"
  assumes scan_consumes: "scan lx = Inr (x, lx') \<Longrightarrow> \<exists>w. consumes lx w lx' \<and> scan (moved lx [] w) = Inr (x, moved lx w [])"
    and scan_error: "scan lx = Inl e \<Longrightarrow> start \<le> l_pos lx \<Longrightarrow> error_within start (input_end lx) e"

lemma while_prefix:
  assumes "advance_while p lx = (w, lx')" "prefix t (l_rest lx')"
  shows "advance_while p (moved lx v (w @ t)) = (w, moved lx (v @ w) t)"
proof -
  have w: "w = takeWhile p (l_rest lx)" "l_rest lx' = dropWhile p (l_rest lx)"
    using assms(1) by (auto simp: advance_while_def Let_def)
  have "takeWhile p t = []" 
  proof (cases t)
    case (Cons c t')
    with assms(2) w(2) have "dropWhile p (l_rest lx) = c # t' @ (drop (length t) (l_rest lx'))" by (auto simp: prefix_def)
    then have "\<not> p c" using hd_dropWhile [of p "l_rest lx"] by auto
    with Cons show ?thesis by simp
  qed simp
  then have "takeWhile p (w @ t) = w" "dropWhile p (w @ t) = t"
    using w by (auto simp: takeWhile_append dropWhile_append dest: set_takeWhileD) (metis dropWhile_eq_Nil_conv dropWhile_eq_self_iff takeWhile_eq_Nil_iff)+
  then show ?thesis by (simp add: advance_while_def Let_def moved_def)
qed

lemma error_within_new [simp]:
  "error_within lo hi (parse_error_new kind (a, b) message) \<longleftrightarrow> lo \<le> a \<and> a \<le> b \<and> b \<le> hi"
  by (simp add: error_within_def parse_error_new_def)

subsection \<open>Quoted text\<close>

text \<open>A unit of a string literal: a text that adds characters to the value, whatever follows it.\<close>

definition string_unit :: "nat \<Rightarrow> ustring \<Rightarrow> ustring \<Rightarrow> bool" where
  "string_unit q u y \<longleftrightarrow> u \<noteq> [] \<and>
     (\<forall>start r pos s. read_string q start (u @ r) pos s = read_string q start r (pos + utf8_len u) (s @ y))"

lemma string_unit_plain: "c \<noteq> q \<Longrightarrow> c \<noteq> 92 \<Longrightarrow> string_unit q [c] [c]"
  by (simp add: string_unit_def)

lemma string_unit_escape:
  assumes "q \<noteq> 92" "d \<noteq> cp CHR ''u''"
  shows "\<exists>y. string_unit q [92, d] y"
  using assms unfolding string_unit_def
  by (cases "d = cp CHR ''n''"; cases "d = cp CHR ''t''"; cases "d = cp CHR ''r''"; cases "d = 92"; cases "d = 39"; cases "d = 34")
    (auto simp: Let_def add.assoc)

lemma string_unit_unicode:
  assumes "q \<noteq> 92" "length hex = 4" "Option.bind (u32_from_str_radix 16 hex) char_from_u32 = Some c"
  shows "string_unit q (92 # cp CHR ''u'' # hex) [c]"
  using assms unfolding string_unit_def by (auto simp: Let_def add.assoc split: option.splits)

lemma string_cases:
  assumes q: "q \<noteq> 92"
  obtains "c = q" | "c \<noteq> q" "c = 92" "cs = []"
  | u y r where "c # cs = u @ r" "string_unit q u y"
  | "\<And>start pos s. start \<le> pos \<Longrightarrow> \<exists>e. read_string q start (c # cs) pos s = Inl e \<and> error_within start (pos + utf8_len (c # cs)) e"
proof (cases "c = q \<or> c \<noteq> 92 \<or> cs = [] \<or> hd cs \<noteq> cp CHR ''u''")
  case True
  show thesis
  proof (cases "c = q \<or> c \<noteq> 92 \<or> cs = []")
    case True
    then show thesis using that(1,2) that(3) [of "[c]" cs "[c]"] string_unit_plain [of c q] by auto
  next
    case False
    then obtain d ds where d: "cs = d # ds" by (cases cs) auto
    with True False string_unit_escape [OF q, of d] obtain y where "string_unit q [92, d] y" by auto
    with d False show thesis using that(3) [of "[92, d]" ds y] by simp
  qed
next
  case False
  then obtain ds where ds: "c = 92" "c \<noteq> q" "cs = cp CHR ''u'' # ds" by (cases cs) auto
  let ?hex = "take 4 ds" and ?c = "Option.bind (u32_from_str_radix 16 (take 4 ds)) char_from_u32"
  have len: "utf8_len ds = utf8_len (take 4 ds) + utf8_len (drop 4 ds)" by (metis append_take_drop_id utf8_len_simps(3))
  show thesis
  proof (cases "length ds < 4 \<or> ?c = None")
    case True
    have "\<exists>e. read_string q start (c # cs) pos s = Inl e \<and> error_within start (pos + utf8_len (c # cs)) e" if "start \<le> pos" for start pos s
    proof (cases ?c)
      case None
      with ds that len show ?thesis by (auto simp: Let_def len_utf8_def)
    next
      case (Some x)
      with True have "drop 4 ds = []" by simp
      with Some ds that len show ?thesis by (auto simp: Let_def)
    qed
    then show thesis by (rule that(4))
  next
    case False
    then obtain x where "?c = Some x" "length ?hex = 4" by auto
    with string_unit_unicode [OF q, of ?hex x] have "string_unit q (92 # cp CHR ''u'' # ?hex) [x]" by simp
    moreover have "c # cs = (92 # cp CHR ''u'' # ?hex) @ drop 4 ds" using ds by simp
    ultimately show thesis using that(3) by blast
  qed
qed

lemma read_string_result:
  "q \<noteq> 92 \<Longrightarrow> start \<le> pos \<Longrightarrow>
   case read_string q start rest pos s of
     Inl e \<Rightarrow> error_within start (pos + utf8_len rest) e
   | Inr (x, lx') \<Rightarrow> \<exists>w. rest = w @ l_rest lx' \<and> lx' = \<lparr>l_rest = l_rest lx', l_pos = pos + utf8_len w\<rparr> \<and>
       read_string q start w pos s = Inr (x, \<lparr>l_rest = [], l_pos = pos + utf8_len w\<rparr>)"
proof (induction "length rest" arbitrary: rest pos s rule: less_induct)
  case less
  show ?case
  proof (cases rest)
    case Nil
    with less show ?thesis by simp
  next
    case (Cons c cs)
    from less.prems(1) show ?thesis
    proof (cases rule: string_cases [where q = q and c = c and cs = cs])
      case 1
      with Cons show ?thesis by (auto intro!: exI [of _ "[c]"])
    next
      case 2
      with Cons show ?thesis by (auto intro!: exI [of _ "[c]"])
    next
      case (3 u y r)
      have step: "read_string q start (u @ r') pos s = read_string q start r' (pos + utf8_len u) (s @ y)" for r'
        using 3(2) by (simp add: string_unit_def)
      have "length r < length rest" using 3 Cons by (auto simp: string_unit_def dest: arg_cong [of _ _ length])
      from less.hyps [OF this less.prems(1), of "pos + utf8_len u" "s @ y"] less.prems(2) have
        ih: "case read_string q start r (pos + utf8_len u) (s @ y) of
          Inl e \<Rightarrow> error_within start (pos + utf8_len u + utf8_len r) e
        | Inr (x, lx') \<Rightarrow> \<exists>w. r = w @ l_rest lx' \<and> lx' = \<lparr>l_rest = l_rest lx', l_pos = pos + utf8_len u + utf8_len w\<rparr> \<and>
            read_string q start w (pos + utf8_len u) (s @ y) = Inr (x, \<lparr>l_rest = [], l_pos = pos + utf8_len u + utf8_len w\<rparr>)" by simp
      have rest: "rest = u @ r" using 3(1) Cons by simp
      show ?thesis
      proof (cases "read_string q start r (pos + utf8_len u) (s @ y)")
        case (Inl e)
        with ih rest step show ?thesis by (simp add: add.assoc)
      next
        case (Inr v)
        obtain x lx' where v: "v = (x, lx')" by (cases v)
        from ih Inr v obtain w where "r = w @ l_rest lx'" "lx' = \<lparr>l_rest = l_rest lx', l_pos = pos + utf8_len u + utf8_len w\<rparr>"
          "read_string q start w (pos + utf8_len u) (s @ y) = Inr (x, \<lparr>l_rest = [], l_pos = pos + utf8_len u + utf8_len w\<rparr>)" by auto
        then have "\<exists>w. rest = w @ l_rest lx' \<and> lx' = \<lparr>l_rest = l_rest lx', l_pos = pos + utf8_len w\<rparr> \<and>
            read_string q start w pos s = Inr (x, \<lparr>l_rest = [], l_pos = pos + utf8_len w\<rparr>)"
          using rest step [of w] by (intro exI [of _ "u @ w"]) (simp add: add.assoc)
        moreover have "read_string q start rest pos s = Inr (x, lx')" using rest step Inr v by simp
        ultimately show ?thesis by simp
      qed
    next
      case 4
      from 4 [OF less.prems(2), of s] Cons show ?thesis by auto
    qed
  qed
qed

lemma read_backtick_result:
  "start \<le> pos \<Longrightarrow>
   case read_backtick_ident start rest pos s of
     Inl e \<Rightarrow> error_within start (pos + utf8_len rest) e
   | Inr (x, lx') \<Rightarrow> \<exists>w. rest = w @ l_rest lx' \<and> lx' = \<lparr>l_rest = l_rest lx', l_pos = pos + utf8_len w\<rparr> \<and>
       read_backtick_ident start w pos s = Inr (x, \<lparr>l_rest = [], l_pos = pos + utf8_len w\<rparr>)"
proof (induction start rest pos s rule: read_backtick_ident.induct)
  case (2 start c cs pos s)
  show ?case
  proof (cases "c = 10 \<or> c = 96")
    case True
    with 2 show ?thesis by (auto intro!: exI [of _ "[c]"])
  next
    case False
    let ?r = "read_backtick_ident start cs (pos + len_utf8 c) (s @ [c])"
    from 2 False have ih: "case ?r of
        Inl e \<Rightarrow> error_within start (pos + len_utf8 c + utf8_len cs) e
      | Inr (x, lx') \<Rightarrow> \<exists>w. cs = w @ l_rest lx' \<and> lx' = \<lparr>l_rest = l_rest lx', l_pos = pos + len_utf8 c + utf8_len w\<rparr> \<and>
          read_backtick_ident start w (pos + len_utf8 c) (s @ [c]) = Inr (x, \<lparr>l_rest = [], l_pos = pos + len_utf8 c + utf8_len w\<rparr>)" by simp
    show ?thesis
    proof (cases ?r)
      case (Inl e)
      with ih False show ?thesis by (simp add: add.assoc)
    next
      case (Inr v)
      obtain x lx' where v: "v = (x, lx')" by (cases v)
      from ih Inr v obtain w where "cs = w @ l_rest lx'" "lx' = \<lparr>l_rest = l_rest lx', l_pos = pos + len_utf8 c + utf8_len w\<rparr>"
        "read_backtick_ident start w (pos + len_utf8 c) (s @ [c]) = Inr (x, \<lparr>l_rest = [], l_pos = pos + len_utf8 c + utf8_len w\<rparr>)" by auto
      then have "\<exists>w. c # cs = w @ l_rest lx' \<and> lx' = \<lparr>l_rest = l_rest lx', l_pos = pos + utf8_len w\<rparr> \<and>
          read_backtick_ident start w pos s = Inr (x, \<lparr>l_rest = [], l_pos = pos + utf8_len w\<rparr>)"
        using False by (intro exI [of _ "c # w"]) (simp add: add.assoc Let_def)
      moreover have "read_backtick_ident start (c # cs) pos s = Inr (x, lx')" using Inr v False by (simp add: Let_def)
      ultimately show ?thesis by simp
    qed
  qed
qed simp

subsection \<open>Numbers\<close>

text \<open>An optional piece of a number: reading it depends on its text and at most on what follows, as far as it is there.\<close>

locale piece =
  fixes read :: "lexer \<Rightarrow> (ustring \<times> lexer) option"
  assumes read_some: "read lx = Some (w, lx') \<Longrightarrow> consumes lx w lx' \<and>
      (prefix t (l_rest lx') \<longrightarrow> read (moved lx v (w @ t)) = Some (w, moved lx (v @ w) t))"
    and read_none: "read lx = None \<Longrightarrow> prefix t (l_rest lx) \<Longrightarrow> read (moved lx v t) = None"
begin

lemma read_optional:
  obtains w lx' b where "(case read lx of None \<Rightarrow> ([], lx, False) | Some (w, lx) \<Rightarrow> (w, lx, True)) = (w, lx', b)"
    "consumes lx w lx'"
    "\<And>t v. prefix t (l_rest lx') \<Longrightarrow>
       read (moved lx v (w @ t)) = (if b then Some (w, moved lx (v @ w) t) else None) \<and> (b \<or> w = [])"
proof (cases "read lx")
  case None
  show thesis by (rule that [of "[]" lx False]) (use None read_none in \<open>auto simp: consumes_refl\<close>)
next
  case (Some r)
  obtain w lx' where r: "r = (w, lx')" by (cases r)
  show thesis by (rule that [of w lx' True]) (use Some r read_some in auto)
qed

end

lemma prefix_Cons_same: "prefix (d # t) (c # r) \<Longrightarrow> d = c \<and> prefix t r"
  by simp

interpretation fraction: piece read_fraction
proof
  fix lx w lx' t v
  assume "read_fraction lx = Some (w, lx')"
  then obtain d r ds where r: "l_rest lx = cp CHR ''.'' # d # r" "is_digit d"
    and a: "advance_while is_digit (advance_ascii 1 lx) = (ds, lx')" "w = cp CHR ''.'' # ds"
    by (auto simp: read_fraction_def split: list.splits if_splits prod.splits)
  have c: "consumes lx [cp CHR ''.''] (advance_ascii 1 lx)" by (rule consumes_ascii) (simp_all add: r)
  have "ds \<noteq> []" using a(1) r by (auto simp: advance_while_def advance_ascii_def Let_def)
  moreover have "is_digit (hd ds)" using consumes_while [OF a(1)] \<open>ds \<noteq> []\<close> by (cases ds) auto
  ultimately obtain d' ds' where ds: "ds = d' # ds'" "is_digit d'" by (cases ds) auto
  have "read_fraction (moved lx v (w @ t)) = Some (w, moved lx (v @ w) t)" if t: "prefix t (l_rest lx')"
  proof -
    have "advance_ascii 1 (moved lx v (w @ t)) = moved (advance_ascii 1 lx) v (ds @ t)"
      using a(2) by (simp add: advance_ascii_def moved_def)
    with while_prefix [OF a(1) t, of v] have "advance_while is_digit (advance_ascii 1 (moved lx v (w @ t))) = (ds, moved (advance_ascii 1 lx) (v @ ds) t)"
      by simp
    moreover have "moved (advance_ascii 1 lx) (v @ ds) t = moved lx (v @ w) t"
      using a(2) by (simp add: moved_def advance_ascii_def len_utf8_def)
    ultimately show ?thesis using a(2) ds by (simp add: read_fraction_def)
  qed
  with consumes_trans [OF c, of ds lx'] consumes_while [OF a(1)] a(2)
  show "consumes lx w lx' \<and> (prefix t (l_rest lx') \<longrightarrow> read_fraction (moved lx v (w @ t)) = Some (w, moved lx (v @ w) t))" by simp
next
  fix lx t v
  assume "read_fraction lx = None" "prefix t (l_rest lx)"
  then show "read_fraction (moved lx v t) = None"
    by (auto simp: read_fraction_def prefix_def split: list.splits if_splits prod.splits)
qed

lemma read_sign_prefix:
  assumes "read_sign lx = (sign, lx')"
  shows "consumes lx sign lx'" "prefix t (l_rest lx') \<Longrightarrow> read_sign (moved lx v (sign @ t)) = (sign, moved lx (v @ sign) t)"
proof -
  show "consumes lx sign lx'"
    using assms by (auto simp: read_sign_def consumes_refl consumes_advance split: option.splits if_splits)
  show "read_sign (moved lx v (sign @ t)) = (sign, moved lx (v @ sign) t)" if "prefix t (l_rest lx')"
    using assms that by (cases "l_rest lx"; cases t) (auto simp: read_sign_def advance_def moved_def split: if_splits)
qed

lemma read_exponent_alt:
  "read_exponent lx =
     (case l_rest lx of [] \<Rightarrow> None
      | c # r \<Rightarrow> if c = cp CHR ''e'' \<or> c = cp CHR ''E''
          then (let (sign, lx2) = read_sign (moved lx [c] r); (ds, lx3) = advance_while is_digit lx2 in Some (c # sign @ ds, lx3))
          else None)"
  by (simp add: read_exponent_def advance_def read_sign_def moved_def split: list.splits)

interpretation exponent: piece read_exponent
proof
  fix lx w lx' t v
  assume "read_exponent lx = Some (w, lx')"
  then obtain c r where r: "l_rest lx = c # r" and c: "c = cp CHR ''e'' \<or> c = cp CHR ''E''"
    and e: "(let (sign, lx2) = read_sign (moved lx [c] r); (ds, lx3) = advance_while is_digit lx2 in Some (c # sign @ ds, lx3)) = Some (w, lx')"
    unfolding read_exponent_alt by (cases "l_rest lx") (auto split: if_splits)
  obtain sign lx2 where sign: "read_sign (moved lx [c] r) = (sign, lx2)" by (cases "read_sign (moved lx [c] r)")
  obtain ds lx3 where ds: "advance_while is_digit lx2 = (ds, lx3)" by (cases "advance_while is_digit lx2")
  have w: "w = c # sign @ ds" and lx': "lx3 = lx'" using e sign ds by simp_all
  have one: "consumes lx [c] (moved lx [c] r)" using r by (simp add: consumes_def)
  have two: "consumes (moved lx [c] r) sign lx2" and three: "consumes lx2 ds lx'"
    using read_sign_prefix(1) [OF sign] consumes_while [OF ds] lx' by simp_all
  have "read_exponent (moved lx v (w @ t)) = Some (w, moved lx (v @ w) t)" if t: "prefix t (l_rest lx')"
  proof -
    have "prefix (ds @ t) (l_rest lx2)" using three t by (simp add: consumes_def)
    from read_sign_prefix(2) [OF sign this, of v]
    have s: "read_sign (moved lx (v @ [c]) (sign @ ds @ t)) = (sign, moved lx (v @ c # sign) (ds @ t))"
      by (simp add: moved_def ac_simps)
    have "l_pos lx2 = l_pos lx + utf8_len (c # sign)" using two by (simp add: consumes_def)
    then have "moved lx2 v (ds @ t) = moved lx (v @ c # sign) (ds @ t)" "moved lx2 (v @ ds) t = moved lx (v @ w) t"
      using w by (simp_all add: moved_def)
    with while_prefix [OF ds, of t v] t lx' have "advance_while is_digit (moved lx (v @ c # sign) (ds @ t)) = (ds, moved lx (v @ w) t)" by simp
    with s c w show ?thesis unfolding read_exponent_alt by simp
  qed
  moreover have "consumes lx w lx'" using consumes_trans [OF one consumes_trans [OF two three]] w by simp
  ultimately show "consumes lx w lx' \<and> (prefix t (l_rest lx') \<longrightarrow> read_exponent (moved lx v (w @ t)) = Some (w, moved lx (v @ w) t))" by simp
next
  fix lx t v
  assume "read_exponent lx = None" "prefix t (l_rest lx)"
  then show "read_exponent (moved lx v t) = None"
    by (auto simp: read_exponent_alt prefix_def split: list.splits if_splits prod.splits)
qed

text \<open>What a reader does once it has consumed its text: it returns a value or an error, and moves no further.\<close>

definition final :: "nat \<Rightarrow> (lexer \<Rightarrow> parse_error + 'a \<times> lexer) \<Rightarrow> bool" where
  "final start k \<longleftrightarrow> (\<forall>a b x a'. k a = Inr (x, a') \<longrightarrow> a' = a \<and> k b = Inr (x, b)) \<and>
     (\<forall>a e. k a = Inl e \<longrightarrow> start \<le> l_pos a \<longrightarrow> error_within start (input_end a) e)"

lemma scannerI:
  assumes "\<And>lx. \<exists>w lx' k. consumes lx w lx' \<and> final start k \<and> scan lx = k lx' \<and> scan (moved lx [] w) = k (moved lx w [])"
  shows "scanner start scan"
proof
  fix lx x lx'
  assume s: "scan lx = Inr (x, lx')"
  obtain w l k where "consumes lx w l" "final start k" "scan lx = k l" "scan (moved lx [] w) = k (moved lx w [])" using assms by blast
  with s show "\<exists>w. consumes lx w lx' \<and> scan (moved lx [] w) = Inr (x, moved lx w [])" unfolding final_def by metis
next
  fix lx e
  assume s: "scan lx = Inl e" "start \<le> l_pos lx"
  obtain w l k where w: "consumes lx w l" "final start k" "scan lx = k l" using assms by blast
  with s consumes_pos [OF w(1)] have "error_within start (input_end l) e" unfolding final_def by (metis le_trans)
  then show "error_within start (input_end lx) e" by (simp add: consumes_end [OF w(1)])
qed

lemma final_simps [intro, simp]:
  "final start (parse_float std start s)" "final start (parse_int radix name start d s)" "final start (\<lambda>lx. Inr (x, lx))"
  "final start (\<lambda>lx. Inl (parse_error_new kind (start, l_pos lx) message))"
  by (auto simp: final_def parse_float_def parse_int_def input_end_def split: option.splits)

lemma final_if: "(b \<Longrightarrow> final start k) \<Longrightarrow> (\<not> b \<Longrightarrow> final start k') \<Longrightarrow> final start (\<lambda>lx. if b then k lx else k' lx)"
  by (cases b) simp_all

interpretation decimal: scanner start "read_decimal std start first"
proof (rule scannerI)
  fix lx
  obtain ds lx1 where ds: "advance_while is_digit lx = (ds, lx1)" by (cases "advance_while is_digit lx")
  obtain frac lx2 b where frac: "(case read_fraction lx1 of None \<Rightarrow> ([], lx1, False) | Some (w, lx) \<Rightarrow> (w, lx, True)) = (frac, lx2, b)"
      "consumes lx1 frac lx2"
      "\<And>t v. prefix t (l_rest lx2) \<Longrightarrow> read_fraction (moved lx1 v (frac @ t)) = (if b then Some (frac, moved lx1 (v @ frac) t) else None) \<and> (b \<or> frac = [])"
    by (rule fraction.read_optional [of lx1]) blast
  obtain expo lx3 b' where expo: "(case read_exponent lx2 of None \<Rightarrow> ([], lx2, False) | Some (w, lx) \<Rightarrow> (w, lx, True)) = (expo, lx3, b')"
      "consumes lx2 expo lx3"
      "\<And>t v. prefix t (l_rest lx3) \<Longrightarrow> read_exponent (moved lx2 v (expo @ t)) = (if b' then Some (expo, moved lx2 (v @ expo) t) else None) \<and> (b' \<or> expo = [])"
    by (rule exponent.read_optional [of lx2]) blast
  have c1: "consumes lx ds lx1" using consumes_while [OF ds] by simp
  let ?w = "ds @ frac @ expo" and ?s = "first # ds @ frac @ expo"
  let ?k = "\<lambda>lx. if b \<or> b' then parse_float std start ?s lx else parse_int 10 ''integer'' start ?s ?s lx"
  have c: "consumes lx ?w lx3" by (rule consumes_trans [OF c1 consumes_trans [OF frac(2) expo(2)]])
  have "prefix (frac @ expo) (l_rest lx1)" "prefix expo (l_rest lx2)" using frac(2) expo(2) by (simp_all add: consumes_def)
  note p1 = while_prefix [OF ds this(1), of "[]"] and p2 = frac(3) [OF this(2), of "[]"] and p3 = expo(3) [of "[]" "[]"]
  have m: "moved lx1 [] t = moved lx ds t" "moved lx1 frac t = moved lx (ds @ frac) t" "moved lx2 [] t = moved lx (ds @ frac) t"
    "moved lx2 expo t = moved lx ?w t" for t
    using c1 frac(2) by (simp_all add: consumes_def moved_def)
  have "read_decimal std start first lx = ?k lx3"
    using frac(1) expo(1) ds by (auto simp: read_decimal_def Let_def split: option.splits)
  moreover have "read_decimal std start first (moved lx [] ?w) = ?k (moved lx ?w [])"
    using p1 p2 p3 by (auto simp: read_decimal_def m Let_def)
  ultimately show "\<exists>w lx' k. consumes lx w lx' \<and> final start k \<and> read_decimal std start first lx = k lx' \<and>
      read_decimal std start first (moved lx [] w) = k (moved lx w [])"
    using c by (intro exI [of _ ?w] exI [of _ lx3] conjI exI [of _ ?k]) (simp_all add: final_if)
qed

interpretation dot_float: scanner start "read_leading_dot_float std start"
proof (rule scannerI)
  fix lx
  obtain ds lx1 where ds: "advance_while is_digit lx = (ds, lx1)" by (cases "advance_while is_digit lx")
  obtain expo lx2 b where expo: "(case read_exponent lx1 of None \<Rightarrow> ([], lx1, False) | Some (w, lx) \<Rightarrow> (w, lx, True)) = (expo, lx2, b)"
      "consumes lx1 expo lx2"
      "\<And>t v. prefix t (l_rest lx2) \<Longrightarrow> read_exponent (moved lx1 v (expo @ t)) = (if b then Some (expo, moved lx1 (v @ expo) t) else None) \<and> (b \<or> expo = [])"
    by (rule exponent.read_optional [of lx1]) blast
  have c1: "consumes lx ds lx1" using consumes_while [OF ds] by simp
  have "prefix expo (l_rest lx1)" using expo(2) by (simp add: consumes_def)
  note p1 = while_prefix [OF ds this, of "[]"] and p2 = expo(3) [of "[]" "[]"]
  have m: "moved lx1 [] t = moved lx ds t" "moved lx1 expo t = moved lx (ds @ expo) t" for t
    using c1 by (simp_all add: consumes_def moved_def)
  show "\<exists>w lx' k. consumes lx w lx' \<and> final start k \<and> read_leading_dot_float std start lx = k lx' \<and>
      read_leading_dot_float std start (moved lx [] w) = k (moved lx w [])"
    using consumes_trans [OF c1 expo(2)] expo(1) ds p1 p2
    by (intro exI [of _ "ds @ expo"] exI [of _ lx2] conjI exI [of _ "parse_float std start (cp CHR ''.'' # ds @ expo)"])
      (auto simp: read_leading_dot_float_def m Let_def split: option.splits)
qed

lemma radix_scanner: "scanner start (read_radix radix name p start x)"
proof (rule scannerI)
  fix lx
  obtain ds lx1 where ds: "advance_while p lx = (ds, lx1)" by (cases "advance_while p lx")
  show "\<exists>w lx' k. consumes lx w lx' \<and> final start k \<and> read_radix radix name p start x lx = k lx' \<and>
      read_radix radix name p start x (moved lx [] w) = k (moved lx w [])"
    using consumes_while [OF ds] while_prefix [OF ds, of "[]" "[]"] ds
    by (intro exI [of _ ds] exI [of _ lx1] conjI exI [of _ "parse_int radix name start ds (cp CHR ''0'' # x # ds)"])
      (simp_all add: read_radix_def)
qed

interpretation parameter: scanner start "read_parameter std start"
proof (rule scannerI)
  fix lx
  let ?p = "\<lambda>c. is_alphanumeric std c \<or> c = cp CHR ''_''"
  obtain w lx1 where w: "advance_while ?p lx = (w, lx1)" by (cases "advance_while ?p lx")
  let ?k = "\<lambda>lx. if w = [] then Inl (parse_error_new InvalidParameter (start, l_pos lx) (lit ''empty parameter name after '' @ [39, 36, 39]))
      else if \<not> list_all is_digit w \<and> \<not> (s_alphabetic std (hd w) \<or> hd w = cp CHR ''_'')
      then Inl (parse_error_new InvalidParameter (start, l_pos lx)
        (lit ''parameter name must be an identifier or decimal integer, got '' @ [39] @ w @ [39]))
      else Inr (TParam w, lx)"
  have "final start ?k" by (intro final_if final_simps)
  then show "\<exists>w lx' k. consumes lx w lx' \<and> final start k \<and> read_parameter std start lx = k lx' \<and>
      read_parameter std start (moved lx [] w) = k (moved lx w [])"
    using consumes_while [OF w] while_prefix [OF w, of "[]" "[]"] w
    by (intro exI [of _ w] exI [of _ lx1] conjI exI [of _ ?k]) (simp_all add: read_parameter_def)
qed

lemma scanner_at:
  assumes "scanner start scan" "consumes lx v lx1" "scan lx1 = Inr (x, lx')"
  shows "\<exists>w. consumes lx (v @ w) lx' \<and> scan (moved lx v w) = Inr (x, moved lx (v @ w) [])"
proof -
  obtain w where w: "consumes lx1 w lx'" "scan (moved lx1 [] w) = Inr (x, moved lx1 w [])"
    using scanner.scan_consumes [OF assms(1,3)] by blast
  have "moved lx1 [] w = moved lx v w" "moved lx1 w [] = moved lx (v @ w) []"
    using assms(2) by (simp_all add: consumes_def moved_def)
  with w consumes_trans [OF assms(2) w(1)] show ?thesis by auto
qed

lemma scanner_error_at:
  "scanner start scan \<Longrightarrow> consumes lx v lx1 \<Longrightarrow> scan lx1 = Inl e \<Longrightarrow> start \<le> l_pos lx \<Longrightarrow> error_within start (input_end lx) e"
  by (metis consumes_end consumes_pos le_trans scanner.scan_error)

text \<open>The scanner that a number turns into after its prefix.\<close>

lemma read_number_cases:
  obtains v lx1 scan where "consumes lx v lx1" "scanner (l_pos lx - len_utf8 first) scan" "read_number std first lx = scan lx1"
    "\<And>t. prefix t (l_rest lx1) \<Longrightarrow> read_number std first (moved lx [] (v @ t)) = scan (moved lx v t)"
proof -
  let ?start = "l_pos lx - len_utf8 first"
  consider (hex) x lx1 where "first = cp CHR ''0''" "advance lx = Some (x, lx1)" "x = cp CHR ''x'' \<or> x = cp CHR ''X''"
    | (oct) x lx1 where "first = cp CHR ''0''" "advance lx = Some (x, lx1)" "x = cp CHR ''o'' \<or> x = cp CHR ''O''"
    | (dec) "\<forall>x lx1. first = cp CHR ''0'' \<longrightarrow> advance lx = Some (x, lx1) \<longrightarrow> x \<notin> {cp CHR ''x'', cp CHR ''X'', cp CHR ''o'', cp CHR ''O''}"
    by blast
  then show thesis
  proof cases
    case hex
    show thesis
      by (rule that [OF consumes_advance [OF hex(2)] radix_scanner [of ?start 16 "''hex''" "\<lambda>c. to_digit 16 c \<noteq> None" x]])
        (use hex in \<open>auto simp: read_number_def advance_def moved_def Let_def split: list.splits\<close>)
  next
    case oct
    show thesis
      by (rule that [OF consumes_advance [OF oct(2)] radix_scanner [of ?start 8 "''octal''" "\<lambda>c. to_digit 8 c \<noteq> None" x]])
        (use oct in \<open>auto simp: read_number_def advance_def moved_def Let_def split: list.splits\<close>)
  next
    case dec
    have d: "read_number std first lx2 = read_decimal std (l_pos lx2 - len_utf8 first) first lx2"
      if "\<forall>x lx1. first = cp CHR ''0'' \<longrightarrow> advance lx2 = Some (x, lx1) \<longrightarrow> x \<notin> {cp CHR ''x'', cp CHR ''X'', cp CHR ''o'', cp CHR ''O''}" for lx2
      using that by (auto simp: read_number_def Let_def split: option.splits)
    have "\<forall>x lx1. first = cp CHR ''0'' \<longrightarrow> advance (moved lx [] t) = Some (x, lx1) \<longrightarrow> x \<notin> {cp CHR ''x'', cp CHR ''X'', cp CHR ''o'', cp CHR ''O''}"
      if "prefix t (l_rest lx)" for t
      using dec that by (cases t; cases "l_rest lx") (auto simp: advance_def)
    with d [OF dec] d show thesis
      by (intro that [OF consumes_refl decimal.scanner_axioms [of ?start std first]]) auto
  qed
qed

lemma read_number_scan:
  "read_number std first lx = Inr (x, lx') \<Longrightarrow> \<exists>w. consumes lx w lx' \<and> read_number std first (moved lx [] w) = Inr (x, moved lx w [])"
  "read_number std first lx = Inl e \<Longrightarrow> error_within (l_pos lx - len_utf8 first) (input_end lx) e"
proof -
  obtain v lx1 scan where n: "consumes lx v lx1" "scanner (l_pos lx - len_utf8 first) scan" "read_number std first lx = scan lx1"
    "\<And>t. prefix t (l_rest lx1) \<Longrightarrow> read_number std first (moved lx [] (v @ t)) = scan (moved lx v t)"
    by (rule read_number_cases [of lx first std]) blast
  show "\<exists>w. consumes lx w lx' \<and> read_number std first (moved lx [] w) = Inr (x, moved lx w [])" if r: "read_number std first lx = Inr (x, lx')"
  proof -
    obtain w where w: "consumes lx (v @ w) lx'" "scan (moved lx v w) = Inr (x, moved lx (v @ w) [])"
      using scanner_at [OF n(2,1)] r n(3) by auto
    then have "l_rest lx1 = w @ l_rest lx'" using n(1) by (auto simp: consumes_def)
    then have "prefix w (l_rest lx1)" by (rule prefixI)
    with n(4) w show ?thesis by auto
  qed
  show "error_within (l_pos lx - len_utf8 first) (input_end lx) e" if "read_number std first lx = Inl e"
    using scanner_error_at [OF n(2,1)] that n(3) by simp
qed

subsection \<open>Operators\<close>

lemma dot_float_shorter:
  assumes "read_leading_dot_float std start lx = Inr (x, lx')" "l_rest lx = d # r" "is_digit d"
  shows "l_rest lx' \<noteq> l_rest lx"
proof -
  obtain ds lx1 where ds: "advance_while is_digit lx = (ds, lx1)" by (cases "advance_while is_digit lx")
  have "ds \<noteq> []" using ds assms(2,3) by (auto simp: advance_while_def Let_def)
  then have "length (l_rest lx1) < length (l_rest lx)" using consumes_while [OF ds] by (simp add: consumes_def)
  moreover have "length (l_rest lx') \<le> length (l_rest lx1)"
    using assms(1) ds by (auto simp: read_leading_dot_float_def parse_float_def consumes_def Let_def
        split: option.splits dest!: exponent.read_some [of lx1 _ _ "[]" "[]", THEN conjunct1])
  ultimately show ?thesis by auto
qed

text \<open>An operator is alone, or has one more character, or is the dot of a float.\<close>

lemma next_is_moved: "next_is c (moved lx v t) \<longleftrightarrow> (\<exists>r. t = of_char c # r)"
  by (cases t) (auto simp: next_is_def peek_def)

lemma peek_moved: "peek (moved lx v t) = (case t of [] \<Rightarrow> None | c # _ \<Rightarrow> Some c)"
  by (simp add: peek_def)

lemma advance_ascii_moved: "advance_ascii 1 (moved lx v (c # t)) = \<lparr>l_rest = t, l_pos = l_pos lx + utf8_len v + 1\<rparr>"
  by (simp add: advance_ascii_def)

lemma read_operator_cases:
  assumes "read_operator std c start lx = Inr (x, lx')"
  shows "lx' = lx \<and> read_operator std c start (moved lx [] []) = Inr (x, moved lx [] []) \<or>
    (\<exists>d. next_is d lx \<and> lx' = advance_ascii 1 lx \<and> (of_char d :: nat) < 128 \<and>
      read_operator std c start (moved lx [] [of_char d]) = Inr (x, advance_ascii 1 (moved lx [] [of_char d]))) \<or>
    c = cp CHR ''.'' \<and> (\<exists>d r. l_rest lx = d # r \<and> is_digit d) \<and> read_leading_dot_float std start lx = Inr (x, lx')"
proof -
  consider "c = cp CHR ''+''" | "c = cp CHR ''.''" | "c = cp CHR ''=''" | "c = cp CHR ''!''" | "c = cp CHR ''<''" | "c = cp CHR ''>''"
    | "c \<notin> set (lit ''+.=!<>'')" by auto
  then show ?thesis
  proof cases
    case 1
    with assms show ?thesis
      by (cases "next_is CHR ''='' lx") (auto simp: read_operator_def next_is_moved intro!: exI [of _ "CHR ''=''"])
  next
    case 2
    show ?thesis
    proof (cases "next_is CHR ''.'' lx")
      case True
      with 2 assms show ?thesis by (auto simp: read_operator_def next_is_moved intro!: exI [of _ "CHR ''.''"])
    next
      case False
      with 2 assms show ?thesis
        by (cases "l_rest lx") (auto simp: read_operator_def next_is_moved peek_def split: if_splits)
    qed
  next
    case 3
    with assms show ?thesis
      by (cases "next_is CHR ''~'' lx") (auto simp: read_operator_def next_is_moved intro!: exI [of _ "CHR ''~''"])
  next
    case 4
    with assms show ?thesis
      by (cases "next_is CHR ''='' lx") (auto simp: read_operator_def next_is_moved intro!: exI [of _ "CHR ''=''"])
  next
    case c: 5
    consider "next_is CHR ''='' lx"  | "next_is CHR ''>'' lx" "\<not> next_is CHR ''='' lx" | "next_is CHR ''-'' lx" "\<not> next_is CHR ''='' lx" "\<not> next_is CHR ''>'' lx" | "\<not> next_is CHR ''='' lx \<and> \<not> next_is CHR ''>'' lx \<and> \<not> next_is CHR ''-'' lx" by blast
    then show ?thesis
    proof cases
      case 1
      with c assms show ?thesis by (auto simp: read_operator_def next_is_moved intro!: exI [of _ "CHR ''=''"])
    next
      case 2
      with c assms show ?thesis by (auto simp: read_operator_def next_is_moved intro!: exI [of _ "CHR ''>''"])
    next
      case 3
      with c assms show ?thesis by (auto simp: read_operator_def next_is_moved intro!: exI [of _ "CHR ''-''"])
    next
      case 4
      with c assms show ?thesis by (auto simp: read_operator_def next_is_moved)
    qed
  next
    case 6
    with assms show ?thesis
      by (cases "next_is CHR ''='' lx") (auto simp: read_operator_def next_is_moved intro!: exI [of _ "CHR ''=''"])
  next
    case c: 7
    consider "next_is CHR ''['' lx"  | "next_is CHR ''>'' lx" "\<not> next_is CHR ''['' lx" | "\<not> next_is CHR ''['' lx \<and> \<not> next_is CHR ''>'' lx" by blast
    then show ?thesis
    proof cases
      case 1
      with c assms show ?thesis by (auto simp: read_operator_def next_is_moved intro!: exI [of _ "CHR ''[''"])
    next
      case 2
      with c assms show ?thesis by (auto simp: read_operator_def next_is_moved intro!: exI [of _ "CHR ''>''"])
    next
      case 3
      with c assms show ?thesis by (auto simp: read_operator_def next_is_moved)
    qed
  qed
qed

interpretation operator: scanner start "read_operator std c start"
proof
  fix lx x lx'
  assume "read_operator std c start lx = Inr (x, lx')"
  from read_operator_cases [OF this]
  show "\<exists>w. consumes lx w lx' \<and> read_operator std c start (moved lx [] w) = Inr (x, moved lx w [])"
  proof (elim disjE conjE exE)
    assume "lx' = lx" "read_operator std c start (moved lx [] []) = Inr (x, moved lx [] [])"
    then show ?thesis using consumes_refl by blast
  next
    fix d assume d: "next_is d lx" "lx' = advance_ascii 1 lx" "(of_char d :: nat) < 128"
      "read_operator std c start (moved lx [] [of_char d]) = Inr (x, advance_ascii 1 (moved lx [] [of_char d]))"
    moreover have "advance_ascii 1 (moved lx [] [of_char d]) = moved lx [of_char d] []"
      using d(3) by (simp add: advance_ascii_def moved_def len_utf8_def)
    ultimately show ?thesis using consumes_next_is [OF d(1,3)] by auto
  next
    fix d r assume c: "c = cp CHR ''.''" and d: "l_rest lx = d # r" "is_digit d" and r: "read_leading_dot_float std start lx = Inr (x, lx')"
    obtain w where w: "consumes lx w lx'" "read_leading_dot_float std start (moved lx [] w) = Inr (x, moved lx w [])"
      using dot_float.scan_consumes [OF r] by blast
    have "w \<noteq> []" using dot_float_shorter [OF r d] w(1) by (auto simp: consumes_def)
    then obtain w' where w': "w = d # w'" using w(1) d(1) by (cases w) (auto simp: consumes_def)
    have "of_char CHR ''.'' \<noteq> d" using d(2) by (auto simp: is_digit_def)
    with w' w c d(2) show ?thesis by (intro exI [of _ w]) (auto simp: read_operator_def next_is_moved peek_moved)
  qed
next
  fix lx e
  assume "read_operator std c start lx = Inl e" "start \<le> l_pos lx"
  then show "error_within start (input_end lx) e"
    using dot_float.scan_error [of std start lx e]
    by (auto simp: read_operator_def input_end_def split: if_splits)
qed

subsection \<open>Words\<close>

lemma eq_ascii_word:
  assumes "eq_ignore_ascii_case w (lit word)" "list_all (\<lambda>c. (of_char c :: nat) < 128) word"
  shows "length w = length word" "list_all (\<lambda>c. c < 128) w"
proof -
  have m: "map to_ascii_uppercase w = map to_ascii_uppercase (lit word)" using assms(1) by (simp add: eq_ignore_ascii_case_def)
  then show "length w = length word" by (metis length_map)
  have "to_ascii_uppercase c < 128 \<longleftrightarrow> c < 128" for c by (auto simp: to_ascii_uppercase_def)
  then have "list_all (\<lambda>c. c < 128) w \<longleftrightarrow> list_all (\<lambda>c. c < 128) (map to_ascii_uppercase w)" by (simp add: list_all_iff)
  also have "\<dots>" unfolding m using assms(2) by (auto simp: list_all_iff to_ascii_uppercase_def)
  finally show "list_all (\<lambda>c. c < 128) w" .
qed

text \<open>The words of the compounds are read after white space, and alone as in their place.\<close>

lemma next_word_consumes:
  assumes "next_word_is std word lx" "list_all (\<lambda>c. (of_char c :: nat) < 128) word"
  obtains w where "consumes lx w (skip_ws_and_advance_n (length word) lx)"
    "\<And>v t. prefix t (l_rest (skip_ws_and_advance_n (length word) lx)) \<Longrightarrow>
       next_word_is std word (moved lx v (w @ t)) \<and> skip_ws_and_advance_n (length word) (moved lx v (w @ t)) = moved lx (v @ w) t"
proof -
  let ?p = "\<lambda>c. is_alphanumeric std c \<or> c = cp CHR ''_''"
  obtain ws lx1 where ws: "advance_while is_ascii_whitespace lx = (ws, lx1)" by (cases "advance_while is_ascii_whitespace lx")
  obtain kw lx2 where k: "advance_while ?p lx1 = (kw, lx2)" by (cases "advance_while ?p lx1")
  have rest: "l_rest lx1 = dropWhile is_ascii_whitespace (l_rest lx)" "kw = takeWhile ?p (l_rest lx1)"
    using ws k by (auto simp: advance_while_def Let_def)
  have kw: "kw \<noteq> []" "eq_ignore_ascii_case kw (lit word)"
    using assms(1) rest by (auto simp: next_word_is_def peek_keyword_def Let_def split: if_splits)
  note a = eq_ascii_word [OF kw(2) assms(2)]
  have c1: "consumes lx ws lx1" and c2: "consumes lx1 kw lx2" using consumes_while [OF ws] consumes_while [OF k] by simp_all
  then have lx2: "advance_ascii (length word) lx1 = lx2"
    using a by (cases lx2) (auto simp: consumes_def advance_ascii_def utf8_len_ascii)
  have skip: "skip_ws_and_advance_n (length word) lx = lx2" using ws lx2 by (simp add: skip_ws_and_advance_n_def)
  show thesis
  proof (rule that [of "ws @ kw"], unfold skip)
    show "consumes lx (ws @ kw) lx2" by (rule consumes_trans [OF c1 c2])
    fix v t assume t: "prefix t (l_rest lx2)"
    then have "prefix (kw @ t) (l_rest lx1)" using c2 by (simp add: consumes_def)
    from while_prefix [OF ws this, of v] have m: "advance_while is_ascii_whitespace (moved lx v (ws @ kw @ t)) = (ws, moved lx (v @ ws) (kw @ t))" .
    have "takeWhile ?p (kw @ t) = kw" using while_prefix [OF k t, of "[]"] by (auto simp: advance_while_def Let_def)
    moreover have "dropWhile is_ascii_whitespace (ws @ kw @ t) = kw @ t" using m by (auto simp: advance_while_def Let_def moved_def)
    ultimately have "next_word_is std word (moved lx v (ws @ kw @ t))" using kw by (simp add: next_word_is_def peek_keyword_def Let_def)
    moreover have "skip_ws_and_advance_n (length word) (moved lx v (ws @ kw @ t)) = moved lx (v @ ws @ kw) t"
      using m a by (simp add: skip_ws_and_advance_n_def advance_ascii_def moved_def utf8_len_ascii)
    ultimately show "next_word_is std word (moved lx v ((ws @ kw) @ t)) \<and>
        skip_ws_and_advance_n (length word) (moved lx v ((ws @ kw) @ t)) = moved lx (v @ ws @ kw) t" by simp
  qed
qed

lemma next_word_end [simp]: "\<not> next_word_is std word (moved lx v [])"
  by (simp add: next_word_is_def peek_keyword_def)

lemma next_word_unique:
  "next_word_is std word lx \<Longrightarrow> next_word_is std word' lx \<Longrightarrow> map to_ascii_uppercase (lit word) = map to_ascii_uppercase (lit word')"
  by (auto simp: next_word_is_def eq_ignore_ascii_case_def split: option.splits)

lemma not_null_word: "next_word_is std ''NOT'' lx \<Longrightarrow> \<not> next_word_is std ''NULL'' lx"
  using next_word_unique [of std "''NOT''" lx "''NULL''"] by (auto simp: to_ascii_uppercase_def)

definition compound_words :: "keyword_tok \<Rightarrow> (string \<times> keyword_tok) option" where
  "compound_words kw =
     (if kw = TNot then Some (''IN'', TNotIn) else if kw = TIs then Some (''NULL'', TIsNull)
      else if kw = TStarts then Some (''WITH'', TStartsWith) else if kw = TEnds then Some (''WITH'', TEndsWith) else None)"

lemma maybe_compound_cases:
  "maybe_compound std kw lx =
     (case compound_words kw of
        None \<Rightarrow> (kw, lx)
      | Some (word, kw') \<Rightarrow>
          if next_word_is std word lx then (kw', skip_ws_and_advance_n (length word) lx)
          else if kw = TIs \<and> next_word_is std ''NOT'' lx \<and> next_word_is std ''NULL'' (skip_ws_and_advance_n 3 lx)
          then (TIsNotNull, skip_ws_and_advance_n 4 (skip_ws_and_advance_n 3 lx))
          else (kw, lx))"
  by (auto simp: maybe_compound_def compound_words_def Let_def numeral_eq_Suc)

lemma compound_words_ascii: "compound_words kw = Some (word, kw') \<Longrightarrow> list_all (\<lambda>c. (of_char c :: nat) < 128) word"
  by (auto simp: compound_words_def split: if_splits)

lemma compound_scan:
  assumes "maybe_compound std kw lx = (kw', lx')"
  shows "\<exists>w. consumes lx w lx' \<and> (\<forall>v. maybe_compound std kw (moved lx v w) = (kw', moved lx (v @ w) []))"
proof -
  have same: "maybe_compound std kw (moved lx v []) = (kw, moved lx v [])" for v by (simp add: maybe_compound_def)
  show ?thesis
  proof (cases "compound_words kw")
    case None
    with assms have "kw' = kw" "lx' = lx" by (simp_all add: maybe_compound_cases)
    with same show ?thesis by (intro exI [of _ "[]"]) (simp add: consumes_refl)
  next
    case (Some c)
    obtain word k where c: "c = (word, k)" by (cases c)
    consider "next_word_is std word lx"
      | "\<not> next_word_is std word lx" "kw = TIs" "next_word_is std ''NOT'' lx" "next_word_is std ''NULL'' (skip_ws_and_advance_n 3 lx)"
      | "\<not> next_word_is std word lx" "\<not> (kw = TIs \<and> next_word_is std ''NOT'' lx \<and> next_word_is std ''NULL'' (skip_ws_and_advance_n 3 lx))" by blast
    then show ?thesis
    proof cases
      case 1
      obtain w where w: "consumes lx w (skip_ws_and_advance_n (length word) lx)"
        "\<And>v t. prefix t (l_rest (skip_ws_and_advance_n (length word) lx)) \<Longrightarrow>
          next_word_is std word (moved lx v (w @ t)) \<and> skip_ws_and_advance_n (length word) (moved lx v (w @ t)) = moved lx (v @ w) t"
        using next_word_consumes [OF 1 compound_words_ascii] Some c by blast
      from 1 Some c assms have "kw' = k" "lx' = skip_ws_and_advance_n (length word) lx" by (simp_all add: maybe_compound_cases)
      with w(1) w(2) [of "[]"] Some c show ?thesis by (intro exI [of _ w]) (simp add: maybe_compound_cases)
    next
      case 2
      have word: "word = ''NULL''" using Some c 2(2) by (simp add: compound_words_def)
      have len: "length ''NOT'' = 3" "length ''NULL'' = 4" by simp_all
      obtain w where w: "consumes lx w (skip_ws_and_advance_n 3 lx)"
        "\<And>v t. prefix t (l_rest (skip_ws_and_advance_n 3 lx)) \<Longrightarrow>
          next_word_is std ''NOT'' (moved lx v (w @ t)) \<and> skip_ws_and_advance_n 3 (moved lx v (w @ t)) = moved lx (v @ w) t"
        by (rule next_word_consumes [OF 2(3), unfolded len]) auto
      let ?lx = "skip_ws_and_advance_n 3 lx"
      obtain w' where w': "consumes ?lx w' (skip_ws_and_advance_n 4 ?lx)"
        "\<And>v t. prefix t (l_rest (skip_ws_and_advance_n 4 ?lx)) \<Longrightarrow>
          next_word_is std ''NULL'' (moved ?lx v (w' @ t)) \<and> skip_ws_and_advance_n 4 (moved ?lx v (w' @ t)) = moved ?lx (v @ w') t"
        by (rule next_word_consumes [OF 2(4), unfolded len]) auto
      have m: "moved ?lx v t = moved lx (v @ w) t" for v t using w(1) by (simp add: consumes_def moved_def)
      have "prefix w' (l_rest ?lx)" using w'(1) by (simp add: consumes_def)
      note n1 = w(2) [OF this]
      have n2: "next_word_is std ''NULL'' (moved lx (v @ w) w') \<and> skip_ws_and_advance_n 4 (moved lx (v @ w) w') = moved lx (v @ w @ w') []" for v
        using w'(2) [of "[]" v] m [of v w'] m [of "v @ w'" "[]"] by (simp add: moved_def ac_simps)
      from 2 Some c word assms have "kw' = TIsNotNull" "lx' = skip_ws_and_advance_n 4 ?lx" by (simp_all add: maybe_compound_cases)
      moreover have "maybe_compound std kw (moved lx v (w @ w')) = (TIsNotNull, moved lx (v @ w @ w') [])" for v
        using n1 [of v] n2 [of v] not_null_word [of std "moved lx v (w @ w')"] Some c word 2(2) by (simp add: maybe_compound_cases)
      ultimately show ?thesis using consumes_trans [OF w(1) w'(1)] by blast
    next
      case 3
      with Some c assms have "kw' = kw" "lx' = lx" by (auto simp: maybe_compound_cases split: if_splits)
      with same show ?thesis by (intro exI [of _ "[]"]) (simp add: consumes_refl)
    qed
  qed
qed

lemma read_word_scan:
  assumes "read_word std c lx = (x, lx')"
  shows "\<exists>w. consumes lx w lx' \<and> read_word std c (moved lx [] w) = (x, moved lx w [])"
proof -
  let ?p = "\<lambda>c. is_alphanumeric std c \<or> c = cp CHR ''_''"
  obtain w lx1 where w: "advance_while ?p lx = (w, lx1)" by (cases "advance_while ?p lx")
  have c: "consumes lx w lx1" using consumes_while [OF w] by simp
  show ?thesis
  proof (cases "keyword std (c # w)")
    case None
    with assms w while_prefix [OF w, of "[]" "[]"] c show ?thesis by (intro exI [of _ w]) (simp add: read_word_def)
  next
    case (Some kw)
    obtain kw' lx2 where m: "maybe_compound std kw lx1 = (kw', lx2)" by (cases "maybe_compound std kw lx1")
    obtain w' where w': "consumes lx1 w' lx2" "\<And>v. maybe_compound std kw (moved lx1 v w') = (kw', moved lx1 (v @ w') [])"
      using compound_scan [OF m] by blast
    have mv: "moved lx1 [] t = moved lx w t" "moved lx1 w' t = moved lx (w @ w') t" for t using c by (simp_all add: consumes_def moved_def)
    have "prefix w' (l_rest lx1)" using w'(1) by (simp add: consumes_def)
    from while_prefix [OF w this, of "[]"] have "read_word std c (moved lx [] (w @ w')) = (TKeyword kw', moved lx (w @ w') [])"
      using w'(2) [of "[]"] Some by (simp add: read_word_def mv)
    moreover have "x = TKeyword kw'" "lx' = lx2" using assms w Some m by (simp_all add: read_word_def)
    ultimately show ?thesis using consumes_trans [OF c w'(1)] by blast
  qed
qed

subsection \<open>Tokens\<close>

text \<open>The two laws of a scanner at one state of the lexer.\<close>

definition scans :: "nat \<Rightarrow> (lexer \<Rightarrow> parse_error + 'a \<times> lexer) \<Rightarrow> lexer \<Rightarrow> bool" where
  "scans start scan lx \<longleftrightarrow>
     (\<forall>x lx'. scan lx = Inr (x, lx') \<longrightarrow> (\<exists>w. consumes lx w lx' \<and> scan (moved lx [] w) = Inr (x, moved lx w []))) \<and>
     (\<forall>e. scan lx = Inl e \<longrightarrow> error_within start (input_end lx) e)"

lemma scans_scanner: "scanner start scan \<Longrightarrow> start \<le> l_pos lx \<Longrightarrow> scans start scan lx"
  unfolding scans_def by (intro conjI allI impI) (erule (1) scanner.scan_consumes, erule (2) scanner.scan_error)

lemma scans_if: "(b \<Longrightarrow> scans start f lx) \<Longrightarrow> (\<not> b \<Longrightarrow> scans start g lx) \<Longrightarrow> scans start (\<lambda>lx. if b then f lx else g lx) lx"
  by (cases b) simp_all

lemma scans_text:
  assumes "\<And>rest pos. start \<le> pos \<Longrightarrow> case f rest pos of Inl e \<Rightarrow> error_within start (pos + utf8_len rest) e
      | Inr (x, lx') \<Rightarrow> \<exists>w. rest = w @ l_rest lx' \<and> lx' = \<lparr>l_rest = l_rest lx', l_pos = pos + utf8_len w\<rparr> \<and>
          f w pos = Inr (x, \<lparr>l_rest = [], l_pos = pos + utf8_len w\<rparr>)"
    and "start \<le> l_pos lx"
  shows "scans start (\<lambda>lx. and_then (f (l_rest lx) (l_pos lx)) (\<lambda>(s, lx). Inr (g s, lx))) lx"
proof (cases "f (l_rest lx) (l_pos lx)")
  case (Inl e)
  with assms(1) [OF assms(2), of "l_rest lx"] show ?thesis by (simp add: scans_def and_then_def input_end_def)
next
  case (Inr r)
  obtain s lx' where r: "r = (s, lx')" by (cases r)
  with assms(1) [OF assms(2), of "l_rest lx"] Inr obtain w where
    "l_rest lx = w @ l_rest lx'" "lx' = \<lparr>l_rest = l_rest lx', l_pos = l_pos lx + utf8_len w\<rparr>"
    "f w (l_pos lx) = Inr (s, \<lparr>l_rest = [], l_pos = l_pos lx + utf8_len w\<rparr>)" by auto
  then have "consumes lx w lx'" "f w (l_pos lx) = Inr (s, moved lx w [])" by (simp_all add: consumes_iff moved_def)
  with Inr r show ?thesis by (auto simp: scans_def and_then_def)
qed

lemma scans_token:
  assumes "start + len_utf8 c = l_pos lx"
  shows "scans start (read_token std c start) lx"
proof -
  have le: "start \<le> l_pos lx" and sub: "l_pos lx - len_utf8 c = start" using assms by simp_all
  have here: "scans start (\<lambda>lx. Inr (x, lx)) lx" for x :: "'a tok" by (auto simp: scans_def consumes_refl intro!: exI [of _ "[]"])
  have number: "scans start (read_number std c) lx" unfolding scans_def using read_number_scan [of std c lx] sub by blast
  have word: "scans start (\<lambda>lx. Inr (read_word std c lx)) lx" unfolding scans_def using read_word_scan [of std c lx] by (metis Inl_Inr_False Inr_inject)
  have bad: "scans start (\<lambda>lx. Inl (parse_error_new kind (start, l_pos lx) m) :: parse_error + 'a tok \<times> lexer) lx" for kind m
    using le by (auto simp: scans_def input_end_def)
  have str: "scans start (\<lambda>lx. and_then (read_string c start (l_rest lx) (l_pos lx) []) (\<lambda>(s, lx). Inr (TStrLit s, lx))) lx" if "c \<noteq> 92"
    by (rule scans_text [OF read_string_result le]) (use that in simp_all)
  have tick: "scans start (\<lambda>lx. and_then (read_backtick_ident start (l_rest lx) (l_pos lx) []) (\<lambda>(s, lx). Inr (TIdent s, lx))) lx"
    by (rule scans_text [OF read_backtick_result le]) simp
  show ?thesis
  proof (cases "map_of (single_tokens :: (nat \<times> 'a tok) list) c")
    case (Some tok)
    with here [of tok] show ?thesis by (simp add: read_token_def [abs_def])
  next
    case None
    then show ?thesis unfolding read_token_def [abs_def] None option.case
      by (intro scans_if number word bad tick scans_scanner [OF operator.scanner_axioms le] scans_scanner [OF parameter.scanner_axioms le] str) auto
  qed
qed

subsection \<open>White space and comments\<close>

declare skip_whitespace_and_comments.simps [simp del]

inductive trivia :: "ustring \<Rightarrow> bool" where
  trivia_Nil: "trivia []"
| trivia_space: "is_ascii_whitespace c \<Longrightarrow> trivia s \<Longrightarrow> trivia (c # s)"
| trivia_line: "10 \<notin> set w \<Longrightarrow> trivia s \<Longrightarrow> trivia (lit ''//'' @ w @ s)"
| trivia_block: "trivia s \<Longrightarrow> trivia (lit ''/*'' @ w @ lit ''*/'' @ s)"

lemma trivia_spaces: "list_all is_ascii_whitespace w \<Longrightarrow> trivia s \<Longrightarrow> trivia (w @ s)"
  by (induction w) (auto intro: trivia.intros)

lemma close_comment_result:
  "start \<le> pos \<Longrightarrow> case close_comment start s pos of
     Inl e \<Rightarrow> error_within start (pos + utf8_len s) e
   | Inr lx \<Rightarrow> \<exists>w. s = w @ lit ''*/'' @ l_rest lx \<and> l_pos lx = pos + utf8_len w + 2"
proof (induction start s pos rule: close_comment.induct)
  case (2 start c cs pos)
  show ?case
  proof (cases "take 2 (c # cs) = lit ''*/''")
    case True
    then have "c # cs = lit ''*/'' @ drop 2 (c # cs)" by (metis append_take_drop_id)
    with True show ?thesis by (auto intro!: exI [of _ "[]"])
  next
    case False
    with 2 have ih: "case close_comment start cs (pos + len_utf8 c) of
         Inl e \<Rightarrow> error_within start (pos + len_utf8 c + utf8_len cs) e
       | Inr lx \<Rightarrow> \<exists>w. cs = w @ lit ''*/'' @ l_rest lx \<and> l_pos lx = pos + len_utf8 c + utf8_len w + 2" by simp
    have eq: "close_comment start (c # cs) pos = close_comment start cs (pos + len_utf8 c)" using False by (simp only: close_comment.simps if_False)
    show ?thesis unfolding eq
    proof (cases "close_comment start cs (pos + len_utf8 c)")
      case (Inl e)
      with ih show "case close_comment start cs (pos + len_utf8 c) of Inl e \<Rightarrow> error_within start (pos + utf8_len (c # cs)) e
        | Inr lx \<Rightarrow> \<exists>w. c # cs = w @ lit ''*/'' @ l_rest lx \<and> l_pos lx = pos + utf8_len w + 2" by (simp add: add.assoc)
    next
      case (Inr lx)
      with ih obtain w where "cs = w @ lit ''*/'' @ l_rest lx" "l_pos lx = pos + len_utf8 c + utf8_len w + 2" by auto
      with Inr show "case close_comment start cs (pos + len_utf8 c) of Inl e \<Rightarrow> error_within start (pos + utf8_len (c # cs)) e
        | Inr lx \<Rightarrow> \<exists>w. c # cs = w @ lit ''*/'' @ l_rest lx \<and> l_pos lx = pos + utf8_len w + 2"
        by (auto intro!: exI [of _ "c # w"])
    qed
  qed
qed simp

definition at_token :: "lexer \<Rightarrow> bool" where
  "at_token lx \<longleftrightarrow> (case l_rest lx of [] \<Rightarrow> True | c # _ \<Rightarrow> \<not> is_ascii_whitespace c) \<and>
     \<not> starts_with (lit ''//'') lx \<and> \<not> starts_with (lit ''/*'') lx"

lemma at_token_skip:
  assumes "at_token lx"
  shows "skip_whitespace_and_comments lx = Inr lx"
proof -
  have "advance_while is_ascii_whitespace lx = ([], lx)"
    using assms by (cases "l_rest lx"; cases lx) (auto simp: at_token_def advance_while_def)
  with assms show ?thesis by (subst skip_whitespace_and_comments.simps) (simp add: at_token_def)
qed

lemma skip_result:
  "case skip_whitespace_and_comments lx of
     Inl e \<Rightarrow> error_within (l_pos lx) (input_end lx) e
   | Inr lx' \<Rightarrow> \<exists>g. trivia g \<and> consumes lx g lx' \<and> at_token lx'"
proof (induction lx rule: skip_whitespace_and_comments.induct)
  case (1 lx)
  obtain ws lx1 where ws: "advance_while is_ascii_whitespace lx = (ws, lx1)" by (cases "advance_while is_ascii_whitespace lx")
  have c1: "consumes lx ws lx1" "list_all is_ascii_whitespace ws" using consumes_while [OF ws] by simp_all
  have lx1: "snd (advance_while is_ascii_whitespace lx) = lx1" using ws by simp
  have pos: "l_pos lx \<le> l_pos lx1" "input_end lx1 = input_end lx" using consumes_pos [OF c1(1)] consumes_end [OF c1(1)] by simp_all
  have lift: "case r of Inl e \<Rightarrow> error_within (l_pos lx) (input_end lx) e | Inr lx' \<Rightarrow> \<exists>g. trivia g \<and> consumes lx g lx' \<and> at_token lx'"
    if "case r of Inl e \<Rightarrow> error_within (l_pos lx2) (input_end lx2) e | Inr lx' \<Rightarrow> \<exists>g. trivia g \<and> consumes lx2 g lx' \<and> at_token lx'"
      "consumes lx1 v lx2" "\<And>g. trivia g \<Longrightarrow> trivia (v @ g)" for r lx2 v
  proof (cases r)
    case (Inl e)
    with that(1,2) pos consumes_pos [OF that(2)] consumes_end [OF that(2)] show ?thesis by (auto simp: error_within_def)
  next
    case (Inr lx')
    with that(1) obtain g where g: "trivia g" "consumes lx2 g lx'" "at_token lx'" by auto
    have "trivia (ws @ v @ g)" by (rule trivia_spaces [OF c1(2) that(3) [OF g(1)]])
    moreover have "consumes lx (ws @ v @ g) lx'" by (rule consumes_trans [OF c1(1) consumes_trans [OF that(2) g(2)]])
    ultimately show ?thesis using Inr g(3) by auto
  qed
  consider "starts_with (lit ''//'') lx1" | "\<not> starts_with (lit ''//'') lx1" "starts_with (lit ''/*'') lx1"
    | "\<not> starts_with (lit ''//'') lx1" "\<not> starts_with (lit ''/*'') lx1" by blast
  then show ?case
  proof cases
    case a: 1
    obtain v lx2 where v: "advance_while (\<lambda>c. c \<noteq> 10) lx1 = (v, lx2)" by (cases "advance_while (\<lambda>c. c \<noteq> 10) lx1")
    have c2: "consumes lx1 v lx2" "10 \<notin> set v" using consumes_while [OF v] by (auto simp: list_all_iff)
    obtain r where r: "l_rest lx1 = lit ''//'' @ r" using a by (metis starts_with_def append_take_drop_id)
    then obtain v' where v': "v = lit ''//'' @ v'" using v by (auto simp: advance_while_def Let_def)
    have "case skip_whitespace_and_comments lx2 of Inl e \<Rightarrow> error_within (l_pos lx2) (input_end lx2) e
        | Inr lx' \<Rightarrow> \<exists>g. trivia g \<and> consumes lx2 g lx' \<and> at_token lx'"
      using 1(1) [of lx1, unfolded v snd_conv] a lx1 by simp
    moreover have "skip_whitespace_and_comments lx = skip_whitespace_and_comments lx2"
      using a v lx1 by (subst skip_whitespace_and_comments.simps) simp
    ultimately show ?thesis using lift [OF _ c2(1)] trivia_line [of v'] c2(2) v' by simp
  next
    case a: 2
    obtain r where r: "l_rest lx1 = lit ''/*'' @ r" using a(2) by (metis starts_with_def append_take_drop_id)
    let ?op = "advance_ascii 2 lx1"
    have op: "l_rest ?op = r" "l_pos ?op = l_pos lx1 + 2" using r by (simp_all add: advance_ascii_def)
    have eq: "skip_whitespace_and_comments lx =
        (case close_comment (l_pos lx1) r (l_pos lx1 + 2) of Inl e \<Rightarrow> Inl e | Inr lx \<Rightarrow> skip_whitespace_and_comments lx)"
      using a lx1 op by (subst skip_whitespace_and_comments.simps) simp
    note cl = close_comment_result [of "l_pos lx1" "l_pos lx1 + 2" r]
    show ?thesis
    proof (cases "close_comment (l_pos lx1) r (l_pos lx1 + 2)")
      case (Inl e)
      have "input_end lx1 = l_pos lx1 + 2 + utf8_len r" using r by (simp add: input_end_def len_utf8_def)
      with Inl cl eq pos show ?thesis by (auto simp: error_within_def)
    next
      case (Inr lx2)
      with cl obtain w where w: "r = w @ lit ''*/'' @ l_rest lx2" "l_pos lx2 = l_pos lx1 + 2 + utf8_len w + 2" by auto
      have c2: "consumes lx1 (lit ''/*'' @ w @ lit ''*/'') lx2" using r w by (simp add: consumes_def len_utf8_def)
      have "case skip_whitespace_and_comments lx2 of Inl e \<Rightarrow> error_within (l_pos lx2) (input_end lx2) e
          | Inr lx' \<Rightarrow> \<exists>g. trivia g \<and> consumes lx2 g lx' \<and> at_token lx'"
        using 1(2) [of lx1 ?op lx2] a lx1 Inr op by simp
      then show ?thesis using lift [OF _ c2] trivia_block [of _ w] eq Inr by simp
    qed
  next
    case a: 3
    have "l_rest lx1 = dropWhile is_ascii_whitespace (l_rest lx)" using ws by (auto simp: advance_while_def Let_def)
    then have "case l_rest lx1 of [] \<Rightarrow> True | c # _ \<Rightarrow> \<not> is_ascii_whitespace c"
      by (auto simp: dropWhile_eq_Cons_conv split: list.splits)
    with a have "at_token lx1" by (simp add: at_token_def)
    moreover have "skip_whitespace_and_comments lx = Inr lx1" using a lx1 by (subst skip_whitespace_and_comments.simps) simp
    moreover have "trivia ws" using trivia_spaces [OF c1(2) trivia_Nil] by simp
    ultimately show ?thesis using c1(1) by auto
  qed
qed

section \<open>The tokens of an input\<close>

lemma at_token_prefix:
  assumes "at_token lx" "l_rest lx = (c # w) @ r"
  shows "at_token (moved lx [] (c # w))"
proof -
  have "starts_with s lx" if "starts_with s (moved lx [] (c # w))" for s
  proof -
    have "take (length s) (c # w) = s" using that by (simp add: starts_with_def)
    then have "length s \<le> length (c # w)" by (metis length_take min.cobounded1 min.commute)
    then show ?thesis using that assms(2) by (simp add: starts_with_def del: append_Cons)
  qed
  with assms show ?thesis by (auto simp: at_token_def)
qed

lemma next_result:
  "case lexer_next std lx of
     None \<Rightarrow> trivia (l_rest lx)
   | Some (Inl e) \<Rightarrow> error_within (l_pos lx) (input_end lx) e
   | Some (Inr ((start, tok, stop), lx')) \<Rightarrow>
       \<exists>g w. trivia g \<and> w \<noteq> [] \<and> l_rest lx = g @ w @ l_rest lx' \<and> start = l_pos lx + utf8_len g \<and>
         stop = start + utf8_len w \<and> l_pos lx' = stop \<and>
         lexer_next std \<lparr>l_rest = w, l_pos = start\<rparr> = Some (Inr ((start, tok, stop), \<lparr>l_rest = [], l_pos = stop\<rparr>))"
proof (cases "skip_whitespace_and_comments lx")
  case (Inl e)
  with skip_result [of lx] show ?thesis by (simp add: lexer_next_def)
next
  case (Inr lx1)
  with skip_result [of lx] obtain g where g: "trivia g" "consumes lx g lx1" "at_token lx1" by auto
  show ?thesis
  proof (cases "l_rest lx1")
    case Nil
    with g Inr show ?thesis by (simp add: lexer_next_def advance_def consumes_def)
  next
    case (Cons c r)
    let ?lx2 = "\<lparr>l_rest = r, l_pos = l_pos lx1 + len_utf8 c\<rparr>"
    have adv: "advance lx1 = Some (c, ?lx2)" using Cons by (simp add: advance_def)
    have eq: "lexer_next std lx = Some (and_then (read_token std c (l_pos lx1) ?lx2) (\<lambda>(tok, lx). Inr ((l_pos lx1, tok, l_pos lx), lx)))"
      using Inr adv by (simp add: lexer_next_def Let_def)
    have sc: "scans (l_pos lx1) (read_token std c (l_pos lx1)) ?lx2" by (rule scans_token) simp
    show ?thesis
    proof (cases "read_token std c (l_pos lx1) ?lx2")
      case (Inl e)
      with sc have "error_within (l_pos lx1) (input_end ?lx2) e" by (simp add: scans_def)
      moreover have "input_end ?lx2 = input_end lx" using consumes_end [OF g(2)] Cons by (simp add: input_end_def)
      ultimately show ?thesis using consumes_pos [OF g(2)] Inl eq by (simp add: and_then_def error_within_def)
    next
      case (Inr r')
      obtain tok lx' where r': "r' = (tok, lx')" by (cases r')
      with sc Inr obtain w where w: "consumes ?lx2 w lx'" "read_token std c (l_pos lx1) (moved ?lx2 [] w) = Inr (tok, moved ?lx2 w [])"
        unfolding scans_def by blast
      let ?alone = "moved lx1 [] (c # w)"
      have "at_token ?alone" by (rule at_token_prefix [OF g(3), of c w "l_rest lx'"]) (use w(1) Cons in \<open>simp add: consumes_def\<close>)
      then have "skip_whitespace_and_comments ?alone = Inr ?alone" by (rule at_token_skip)
      moreover have "advance ?alone = Some (c, moved ?lx2 [] w)" by (simp add: advance_def moved_def)
      moreover have "l_pos ?alone = l_pos lx1" by simp
      ultimately have "lexer_next std ?alone =
          Some (and_then (read_token std c (l_pos lx1) (moved ?lx2 [] w)) (\<lambda>(tok, lx). Inr ((l_pos lx1, tok, l_pos lx), lx)))"
        unfolding lexer_next_def Let_def by simp
      then have "lexer_next std ?alone = Some (Inr ((l_pos lx1, tok, l_pos lx1 + len_utf8 c + utf8_len w), moved ?lx2 w []))"
        unfolding w(2) by (simp add: and_then_def)
      then have alone: "lexer_next std \<lparr>l_rest = c # w, l_pos = l_pos lx1\<rparr> =
          Some (Inr ((l_pos lx1, tok, l_pos lx1 + utf8_len (c # w)), \<lparr>l_rest = [], l_pos = l_pos lx1 + utf8_len (c # w)\<rparr>))"
        by (simp add: moved_def add.assoc)
      have pos: "l_pos lx' = l_pos lx1 + utf8_len (c # w)" "l_rest lx1 = (c # w) @ l_rest lx'" using w(1) Cons by (simp_all add: consumes_def)
      have "lexer_next std lx = Some (Inr ((l_pos lx1, tok, l_pos lx1 + utf8_len (c # w)), lx'))"
        using eq Inr r' pos(1) by (simp add: and_then_def)
      moreover have "\<exists>g w'. trivia g \<and> w' \<noteq> [] \<and> l_rest lx = g @ w' @ l_rest lx' \<and> l_pos lx1 = l_pos lx + utf8_len g \<and>
         l_pos lx1 + utf8_len (c # w) = l_pos lx1 + utf8_len w' \<and> l_pos lx' = l_pos lx1 + utf8_len (c # w) \<and>
         lexer_next std \<lparr>l_rest = w', l_pos = l_pos lx1\<rparr> =
          Some (Inr ((l_pos lx1, tok, l_pos lx1 + utf8_len (c # w)), \<lparr>l_rest = [], l_pos = l_pos lx1 + utf8_len (c # w)\<rparr>))"
        using g alone pos by (intro exI [of _ g] exI [of _ "c # w"]) (simp add: consumes_def)
      ultimately show ?thesis by simp
    qed
  qed
qed

lemma next_shorter:
  assumes "lexer_next std lx = Some (Inr (t, lx'))"
  shows "length (l_rest lx') < length (l_rest lx)"
proof -
  obtain start tok stop where t: "t = (start, tok, stop)" by (cases t)
  with next_result [where std = std and lx = lx] assms obtain g w where "w \<noteq> []" "l_rest lx = g @ w @ l_rest lx'" by auto
  then show ?thesis by simp
qed

text \<open>\<open>TokenStream::new\<close> collects all tokens or fails with the first error.\<close>

function collect_tokens :: "('f, 'x) std_text_scheme \<Rightarrow> lexer \<Rightarrow> parse_error + (nat \<times> 'f tok \<times> nat) list" where
  "collect_tokens std lx =
     (case lexer_next std lx of
        None \<Rightarrow> Inr []
      | Some (Inl e) \<Rightarrow> Inl e
      | Some (Inr (t, lx)) \<Rightarrow> (case collect_tokens std lx of Inl e \<Rightarrow> Inl e | Inr ts \<Rightarrow> Inr (t # ts)))"
  by pat_completeness auto

termination collect_tokens
  by (relation "measure (\<lambda>(_, lx). length (l_rest lx))") (auto dest: next_shorter)

declare collect_tokens.simps [simp del]

text \<open>
  A token list tiles an input: between the tokens and at the end there is only trivia, every token has a text of its own
  that is not empty, and the lexer reads that token from the text alone.
\<close>

inductive tiles :: "('f, 'x) std_text_scheme \<Rightarrow> ustring \<Rightarrow> nat \<Rightarrow> (nat \<times> 'f tok \<times> nat) list \<Rightarrow> bool" for std where
  tiles_end: "trivia g \<Longrightarrow> tiles std g pos []"
| tiles_token: "trivia g \<Longrightarrow> w \<noteq> [] \<Longrightarrow> start = pos + utf8_len g \<Longrightarrow> stop = start + utf8_len w \<Longrightarrow>
    lexer_next std \<lparr>l_rest = w, l_pos = start\<rparr> = Some (Inr ((start, tok, stop), \<lparr>l_rest = [], l_pos = stop\<rparr>)) \<Longrightarrow>
    tiles std r stop ts \<Longrightarrow> tiles std (g @ w @ r) pos ((start, tok, stop) # ts)"

lemma collect_result:
  "case collect_tokens std lx of
     Inl e \<Rightarrow> error_within (l_pos lx) (input_end lx) e
   | Inr ts \<Rightarrow> tiles std (l_rest lx) (l_pos lx) ts"
proof (induction std lx rule: collect_tokens.induct)
  case (1 std lx)
  note n = next_result [where std = std and lx = lx]
  show ?case
  proof (cases "lexer_next std lx")
    case None
    with n show ?thesis by (subst collect_tokens.simps) (simp add: tiles_end)
  next
    case (Some r)
    show ?thesis
    proof (cases r)
      case (Inl e)
      with n Some show ?thesis by (subst collect_tokens.simps) simp
    next
      case (Inr t)
      obtain start tok stop lx' where t: "t = ((start, tok, stop), lx')" by (cases t) auto
      with n Some Inr obtain g w where gw: "trivia g" "w \<noteq> []" "l_rest lx = g @ w @ l_rest lx'" "start = l_pos lx + utf8_len g"
         "stop = start + utf8_len w" "l_pos lx' = stop"
         "lexer_next std \<lparr>l_rest = w, l_pos = start\<rparr> = Some (Inr ((start, tok, stop), \<lparr>l_rest = [], l_pos = stop\<rparr>))" by auto
      have ih: "case collect_tokens std lx' of Inl e \<Rightarrow> error_within (l_pos lx') (input_end lx') e
          | Inr ts \<Rightarrow> tiles std (l_rest lx') (l_pos lx') ts" using 1 Some Inr t by simp
      have eq: "collect_tokens std lx = (case collect_tokens std lx' of Inl e \<Rightarrow> Inl e | Inr ts \<Rightarrow> Inr ((start, tok, stop) # ts))"
        using Some Inr t by (subst collect_tokens.simps) simp
      have c: "consumes lx (g @ w) lx'" using gw by (simp add: consumes_def)
      show ?thesis
      proof (cases "collect_tokens std lx'")
        case (Inl e)
        with ih eq consumes_pos [OF c] consumes_end [OF c] show ?thesis by (simp add: error_within_def)
      next
        case (Inr ts)
        with ih have "tiles std (l_rest lx') stop ts" using gw(6) by simp
        from tiles_token [OF gw(1,2,4,5,7) this] Inr eq gw(3) show ?thesis by simp
      qed
    qed
  qed
qed

lemma tiles_sorted:
  "tiles std s pos ts \<Longrightarrow>
   sorted_wrt (\<lambda>(_, _, stop) (start, _, _). stop \<le> start) ts \<and>
   (\<forall>(start, _, stop)\<in>set ts. pos \<le> start \<and> start < stop \<and> stop \<le> pos + utf8_len s)"
proof (induction rule: tiles.induct)
  case (tiles_token g w start pos stop tok r ts)
  have "0 < utf8_len w" by (rule utf8_len_pos [OF tiles_token.hyps(2)])
  with tiles_token show ?case by fastforce
qed simp

text \<open>C12. Lexing ends on every input. When it fails, the span of the error lies within the input. When it succeeds, the tokens
  tile the input: what lies between them and after the last one is white space and comments, each token has a text that is
  not empty and that is lexed to the same token by itself, the spans are those of the texts in bytes, and they follow each
  other without overlap up to the end of the input.
\<close>

theorem lexer_tiles:
  "case collect_tokens std (lexer_new input) of
     Inl e \<Rightarrow> error_within 0 (utf8_len input) e
   | Inr ts \<Rightarrow> tiles std input 0 ts \<and> sorted_wrt (\<lambda>(_, _, stop) (start, _, _). stop \<le> start) ts \<and>
       list_all (\<lambda>(start, _, stop). start < stop \<and> stop \<le> utf8_len input) ts"
  using collect_result [where std = std and lx = "lexer_new input"] tiles_sorted [where std = std and s = input and pos = 0]
  by (auto simp: lexer_new_def input_end_def list_all_iff split: sum.splits)

end
