(* ===== verification/Lexer_Print.thy ===== *)
theory Lexer_Print
  imports Lexer_Tokens
begin

text \<open>
  A printer of tokens and the round trip through the lexer: every keyword and compound, the integer literals of the
  type of the lexer, strings with their escapes, quoted identifiers, parameters and all symbols. Floats have no printer
  here, as the values of their literals are a parameter of the lexer.
\<close>

section \<open>Printing tokens\<close>

text \<open>What is documented of the Unicode tables on ASCII.\<close>

definition ascii_tables :: "('f, 'x) std_text_scheme \<Rightarrow> bool" where
  "ascii_tables std \<longleftrightarrow>
     (\<forall>c<128. (s_alphabetic std c \<longleftrightarrow> 65 \<le> c \<and> c \<le> 90 \<or> 97 \<le> c \<and> c \<le> 122) \<and> (s_numeric std c \<longleftrightarrow> is_digit c) \<and>
        s_uppercase std c = [to_ascii_uppercase c])"

definition word_char :: "('f, 'x) std_text_scheme \<Rightarrow> nat \<Rightarrow> bool" where
  "word_char std c \<longleftrightarrow> is_alphanumeric std c \<or> c = cp CHR ''_''"

definition compound_text :: "(keyword_tok \<times> string \<times> string) list" where
  "compound_text =
     [(TNotIn, ''NOT'', '' IN''), (TIsNull, ''IS'', '' NULL''), (TIsNotNull, ''IS'', '' NOT NULL''),
      (TStartsWith, ''STARTS'', '' WITH''), (TEndsWith, ''ENDS'', '' WITH'')]"

text \<open>The first word of a keyword, and what follows it.\<close>

definition keyword_text :: "keyword_tok \<Rightarrow> string \<times> string" where
  "keyword_text kw =
     (case map_of compound_text kw of Some t \<Rightarrow> t
      | None \<Rightarrow> (case map_of (map prod.swap keyword_table) kw of Some w \<Rightarrow> (w, []) | None \<Rightarrow> ([], [])))"

definition escape :: "nat \<Rightarrow> ustring" where
  "escape c = (if c = 39 \<or> c = 92 then [92, c] else [c])"

definition symbol_text :: "('f tok \<times> string) list" where
  "symbol_text =
     [(TLParen, ''(''), (TRParen, '')''), (TLBracket, ''[''), (TRBracket, '']''), (TLBrace, ''{''), (TRBrace, ''}''),
      (TDot, ''.''), (TComma, '',''), (TColon, '':''), (TSemi, '';''), (TPipe, ''|''), (TDotDot, ''..''), (TEq, ''=''),
      (TNeq, ''<>''), (TLt, ''<''), (TLte, ''<=''), (TGt, ''>''), (TGte, ''>=''), (TPlus, ''+''), (TMinus, ''-''),
      (TStar, ''*''), (TSlash, ''/''), (TPercent, ''%''), (TCaret, ''^''), (TRegexMatch, ''=~''), (TPlusEq, ''+=''),
      (TRelOpen, ''-[''), (TLeftArrow, ''<-''), (TRightArrow, ''->'')]"

definition print_token :: "'f tok \<Rightarrow> ustring" where
  "print_token tok =
     (case tok of
        TKeyword kw \<Rightarrow> lit (fst (keyword_text kw) @ snd (keyword_text kw))
      | TIntLit n \<Rightarrow> decimal_digits (nat n)
      | TStrLit s \<Rightarrow> [39] @ concat (map escape s) @ [39]
      | TIdent s \<Rightarrow> [96] @ s @ [96]
      | TParam s \<Rightarrow> [36] @ s
      | _ \<Rightarrow> (case map_of symbol_text tok of Some s \<Rightarrow> lit s | None \<Rightarrow> []))"

text \<open>The tokens that have a text: no floats, integers of the literal type, names without a backtick or a line break.\<close>

definition printable :: "('f, 'x) std_text_scheme \<Rightarrow> 'f tok \<Rightarrow> bool" where
  "printable std tok =
     (case tok of
        TIntLit n \<Rightarrow> 0 \<le> n \<and> n < 2 ^ 127
      | TFloatLit _ \<Rightarrow> False
      | TIdent s \<Rightarrow> 96 \<notin> set s \<and> 10 \<notin> set s
      | TParam s \<Rightarrow> s \<noteq> [] \<and> list_all (word_char std) s \<and>
          (list_all is_digit s \<or> s_alphabetic std (hd s) \<or> hd s = cp CHR ''_'')
      | _ \<Rightarrow> True)"

text \<open>Keywords in a row that the lexer takes for one compound.\<close>

definition fuses :: "'f tok list \<Rightarrow> bool" where
  "fuses ts \<longleftrightarrow> list_ex (\<lambda>ks. take (length ks) ts = map TKeyword ks)
     [[TNot, TIn], [TIs, TNull], [TIs, TNot, TNull], [TStarts, TWith], [TEnds, TWith]]"

fun print_tokens :: "'f tok list \<Rightarrow> ustring" where
  "print_tokens [] = []"
| "print_tokens (t # ts) = print_token t @ 32 # print_tokens ts"

subsection \<open>Words\<close>

lemma word_chars:
  assumes "ascii_tables std"
  shows "65 \<le> c \<and> c \<le> 90 \<Longrightarrow> word_char std c" "\<not> word_char std 32" "65 \<le> c \<and> c \<le> 90 \<Longrightarrow> s_alphabetic std c"
    "65 \<le> c \<and> c \<le> 90 \<Longrightarrow> s_uppercase std c = [c]" "is_digit c \<Longrightarrow> word_char std c"
  using assms by (auto simp: ascii_tables_def word_char_def is_alphanumeric_def is_digit_def to_ascii_uppercase_def)

definition upper_word :: "string \<Rightarrow> bool" where
  "upper_word w \<longleftrightarrow> w \<noteq> [] \<and> list_all (\<lambda>c. 65 \<le> (of_char c :: nat) \<and> (of_char c :: nat) \<le> 90) w"

lemma while_word:
  assumes "list_all p w" "\<not> p 32"
  shows "advance_while p \<lparr>l_rest = w @ 32 # r, l_pos = pos\<rparr> = (w, \<lparr>l_rest = 32 # r, l_pos = pos + utf8_len w\<rparr>)"
  using assms by (simp add: advance_while_def Let_def list_all_iff takeWhile_append2 dropWhile_append2)

lemma upper_word_list:
  "upper_word w \<Longrightarrow> ascii_tables std \<Longrightarrow> list_all (word_char std) (lit w)"
  by (auto simp: upper_word_def list_all_iff word_chars(1))

lemma upper_word_ascii: "upper_word w \<Longrightarrow> list_all (\<lambda>c. (of_char c :: nat) < 128) w"
  by (auto simp: upper_word_def list_all_iff)

lemma next_word_printed:
  assumes "ascii_tables std" "upper_word w"
  shows "next_word_is std w' \<lparr>l_rest = 32 # lit w @ 32 # r, l_pos = pos\<rparr> \<longleftrightarrow> eq_ignore_ascii_case (lit w) (lit w')"
    "skip_ws_and_advance_n (length w) \<lparr>l_rest = 32 # lit w @ 32 # r, l_pos = pos\<rparr> = \<lparr>l_rest = 32 # r, l_pos = pos + 1 + length w\<rparr>"
proof -
  obtain c w1 where w: "w = c # w1" "65 \<le> (of_char c :: nat)" "of_char c \<le> (90 :: nat)" using assms(2) by (cases w) (auto simp: upper_word_def)
  have "\<not> is_ascii_whitespace (of_char c)" using w(2) by (auto simp: is_ascii_whitespace_def)
  then have d: "dropWhile is_ascii_whitespace (32 # lit w @ 32 # r) = lit w @ 32 # r" "takeWhile is_ascii_whitespace (32 # lit w @ 32 # r) = [32]"
    using w(1) by (simp_all add: is_ascii_whitespace_def)
  have "takeWhile (word_char std) (lit w @ 32 # r) = lit w"
    using while_word [OF upper_word_list [OF assms(2,1)] word_chars(2) [OF assms(1)], of r 0] by (simp add: advance_while_def Let_def)
  then show "next_word_is std w' \<lparr>l_rest = 32 # lit w @ 32 # r, l_pos = pos\<rparr> \<longleftrightarrow> eq_ignore_ascii_case (lit w) (lit w')"
    using w(1) unfolding next_word_is_def peek_keyword_def Let_def lexer.select_convs d word_char_def [abs_def] by simp
  show "skip_ws_and_advance_n (length w) \<lparr>l_rest = 32 # lit w @ 32 # r, l_pos = pos\<rparr> = \<lparr>l_rest = 32 # r, l_pos = pos + 1 + length w\<rparr>"
    unfolding skip_ws_and_advance_n_def advance_while_def Let_def lexer.select_convs d by (simp add: advance_ascii_def len_utf8_def)
qed

lemma eq_upper: "upper_word w \<Longrightarrow> upper_word w' \<Longrightarrow> eq_ignore_ascii_case (lit w) (lit w') \<longleftrightarrow> w = w'"
proof -
  assume "upper_word w" "upper_word w'"
  then have "map to_ascii_uppercase (lit w) = lit w" "map to_ascii_uppercase (lit w') = lit w'"
    by (auto simp: upper_word_def list_all_iff to_ascii_uppercase_def intro!: map_idI)
  then show ?thesis unfolding eq_ignore_ascii_case_def by (metis inj_map_eq_map inj_of_char)
qed

lemma keyword_table_words: "list_all (\<lambda>(w, _). upper_word w) keyword_table" "distinct (map fst keyword_table)"
  by (simp_all add: keyword_table_def upper_word_def)

lemma keyword_printed:
  assumes "ascii_tables std" "(w, kw) \<in> set keyword_table"
  shows "keyword std (lit w) = Some kw"
proof -
  have u: "upper_word w" using assms(2) keyword_table_words(1) by (auto simp: list_all_iff)
  then have "concat (map (s_uppercase std) (lit w)) = lit w"
    using word_chars(4) [OF assms(1)] by (induction w) (auto simp: upper_word_def list_all_iff, force)
  moreover have "inj_on (\<lambda>w. lit w :: ustring) (set (map fst keyword_table))" by (intro inj_onI) (metis inj_map_eq_map inj_of_char)
  then have "distinct (map fst (map (\<lambda>(word, tok). (lit word :: ustring, tok)) keyword_table))"
    using distinct_map [of "\<lambda>w. lit w :: ustring" "map fst keyword_table"] keyword_table_words(2)
    by (simp add: comp_def case_prod_beta)
  ultimately show ?thesis
    unfolding keyword_def to_uppercase_def using assms(2) by (auto intro!: map_of_is_SomeI)
qed

lemma read_word_printed:
  assumes std: "ascii_tables std" and w: "(c # w, kw) \<in> set keyword_table"
  shows "lexer_next std \<lparr>l_rest = lit (c # w) @ 32 # r, l_pos = pos\<rparr> =
    (case maybe_compound std kw \<lparr>l_rest = 32 # r, l_pos = pos + 1 + length w\<rparr> of
       (kw, lx) \<Rightarrow> Some (Inr ((pos, TKeyword kw, l_pos lx), lx)))"
proof -
  have u: "upper_word (c # w)" using w keyword_table_words(1) by (auto simp: list_all_iff)
  then have c: "65 \<le> (of_char c :: nat)" "(of_char c :: nat) \<le> 90" and l: "list_all (word_char std) (lit w)"
    using upper_word_list [OF u std] by (auto simp: upper_word_def)
  have lw: "utf8_len (lit w) = length w" using utf8_len_ascii [of "lit w"] upper_word_ascii [OF u] by (simp add: list_all_iff)
  have at: "at_token \<lparr>l_rest = lit (c # w) @ 32 # r, l_pos = pos\<rparr>"
    using c by (auto simp: at_token_def is_ascii_whitespace_def starts_with_def)
  have aw: "advance_while (\<lambda>c. is_alphanumeric std c \<or> c = cp CHR ''_'') \<lparr>l_rest = lit w @ 32 # r, l_pos = pos + 1\<rparr> =
      (lit w, \<lparr>l_rest = 32 # r, l_pos = pos + 1 + length w\<rparr>)"
    using while_word [OF l word_chars(2) [OF std], of r "pos + 1"] lw by (simp add: word_char_def [abs_def])
  have "read_token std (of_char c) pos \<lparr>l_rest = lit w @ 32 # r, l_pos = pos + 1\<rparr> =
      Inr (read_word std (of_char c) \<lparr>l_rest = lit w @ 32 # r, l_pos = pos + 1\<rparr>)"
    using c word_chars(3) [OF std, of "of_char c"] by (auto simp: read_token_def single_tokens_def is_digit_def)
  moreover have "read_word std (of_char c) \<lparr>l_rest = lit w @ 32 # r, l_pos = pos + 1\<rparr> =
      (case maybe_compound std kw \<lparr>l_rest = 32 # r, l_pos = pos + 1 + length w\<rparr> of (kw, lx) \<Rightarrow> (TKeyword kw, lx))"
    using aw keyword_printed [OF std w] by (simp add: read_word_def)
  moreover have "len_utf8 (of_char c) = 1" using c by (simp add: len_utf8_def)
  ultimately show ?thesis
    using at_token_skip [OF at] by (simp add: lexer_next_def advance_def and_then_def split: prod.splits)
qed

lemma keyword_text_table:
  "kw \<notin> fst ` set compound_text \<Longrightarrow> snd (keyword_text kw) = [] \<and> (fst (keyword_text kw), kw) \<in> set keyword_table"
proof -
  assume n: "kw \<notin> fst ` set compound_text"
  have "kw \<in> fst ` set compound_text \<union> snd ` set keyword_table" 
    unfolding compound_text_def keyword_table_def list.set image_insert image_empty fst_conv snd_conv Un_insert_left Un_empty_left
    by (cases kw; hypsubst; (rule insertI1 | rule insertI2)+)
  with n obtain w where "map_of (map prod.swap keyword_table) kw = Some w"
    by (cases "map_of (map prod.swap keyword_table) kw") (auto simp: map_of_eq_None_iff image_image)
  moreover from this have "(w, kw) \<in> set keyword_table" by (auto dest: map_of_SomeD)
  moreover have "map_of compound_text kw = None" using n by (simp add: map_of_eq_None_iff)
  ultimately show ?thesis by (simp add: keyword_text_def)
qed

lemma keyword_text_compound:
  "(kw, w1, w2) \<in> set compound_text \<Longrightarrow> keyword_text kw = (w1, w2)"
  by (auto simp: keyword_text_def compound_text_def)

lemma keyword_text_words:
  "upper_word (fst (keyword_text kw))" "snd (keyword_text kw) = [] \<or> (\<exists>r. snd (keyword_text kw) = CHR '' '' # r)"
proof -
  have "upper_word (fst (keyword_text kw)) \<and> (snd (keyword_text kw) = [] \<or> (\<exists>r. snd (keyword_text kw) = CHR '' '' # r))"
  proof (cases "kw \<in> fst ` set compound_text")
    case True
    then show ?thesis by (auto simp: keyword_text_def compound_text_def upper_word_def)
  next
    case False
    with keyword_text_table [OF this] keyword_table_words(1) show ?thesis by (auto simp: list_all_iff)
  qed
  then show "upper_word (fst (keyword_text kw))" "snd (keyword_text kw) = [] \<or> (\<exists>r. snd (keyword_text kw) = CHR '' '' # r)" by simp_all
qed

lemma next_word_first:
  assumes "next_word_is std w \<lparr>l_rest = 32 # c # r, l_pos = pos\<rparr>" "\<not> is_ascii_whitespace c" "upper_word w"
  shows "65 \<le> c \<and> c \<le> 90 \<or> 97 \<le> c \<and> c \<le> 122"
proof -
  have "dropWhile is_ascii_whitespace (32 # c # r) = c # r" using assms(2) by (simp add: is_ascii_whitespace_def)
  then obtain w' where "eq_ignore_ascii_case (c # w') (lit w)"
    using assms(1) by (auto simp: next_word_is_def peek_keyword_def Let_def split: if_splits)
  moreover obtain d w1 where "w = d # w1" "65 \<le> (of_char d :: nat)" "(of_char d :: nat) \<le> 90" using assms(3) by (cases w) (auto simp: upper_word_def)
  ultimately show ?thesis by (auto simp: eq_ignore_ascii_case_def to_ascii_uppercase_def split: if_splits)
qed

lemma decimal_digits_list: "list_all is_digit (decimal_digits n) \<and> decimal_digits n \<noteq> []"
  by (induction n rule: decimal_digits.induct) (subst (1 2) decimal_digits.simps, auto simp: is_digit_def list_all_iff)

lemma print_token_first:
  assumes "printable std t" "\<And>kw. t \<noteq> TKeyword kw"
  obtains c r where "print_token t = c # r" "\<not> is_ascii_whitespace c" "\<not> (65 \<le> c \<and> c \<le> 90 \<or> 97 \<le> c \<and> c \<le> 122)"
proof (cases t)
  case (TIntLit n)
  then obtain c r where "decimal_digits (nat n) = c # r" "is_digit c"
    using decimal_digits_list [of "nat n"] by (cases "decimal_digits (nat n)") auto
  with TIntLit show thesis by (intro that [of c r]) (auto simp: print_token_def is_digit_def is_ascii_whitespace_def)
qed (use assms that in \<open>auto simp: print_token_def printable_def symbol_text_def is_ascii_whitespace_def\<close>)

lemma next_word_tokens:
  assumes std: "ascii_tables std" and w: "upper_word w" and p: "list_all (printable std) ts"
    and n: "next_word_is std w \<lparr>l_rest = 32 # print_tokens ts, l_pos = pos\<rparr>"
  shows "\<exists>kw ts'. ts = TKeyword kw # ts' \<and> fst (keyword_text kw) = w"
proof (cases ts)
  case Nil
  with n show ?thesis by (simp add: next_word_is_def peek_keyword_def is_ascii_whitespace_def)
next
  case (Cons t ts')
  show ?thesis
  proof (cases "\<exists>kw. t = TKeyword kw")
    case True
    then obtain kw where kw: "t = TKeyword kw" by blast
    obtain r where r: "lit (snd (keyword_text kw)) @ 32 # print_tokens ts' = 32 # r" using keyword_text_words(2) [of kw] by fastforce
    have "print_tokens ts = lit (fst (keyword_text kw)) @ 32 # r" using Cons kw r by (simp add: print_token_def)
    with n next_word_printed(1) [OF std keyword_text_words(1)] eq_upper [OF keyword_text_words(1) w] kw Cons show ?thesis by simp
  next
    case False
    then obtain c r where "print_token t = c # r" "\<not> is_ascii_whitespace c" "\<not> (65 \<le> c \<and> c \<le> 90 \<or> 97 \<le> c \<and> c \<le> 122)"
      using print_token_first [of std t] p Cons by auto
    with n Cons next_word_first [of std w c _ pos] w show ?thesis by auto
  qed
qed

lemma first_word_kinds:
  "fst (keyword_text kw) = ''NOT'' \<Longrightarrow> kw = TNot \<or> kw = TNotIn" "fst (keyword_text kw) = ''IN'' \<Longrightarrow> kw = TIn"
  "fst (keyword_text kw) = ''NULL'' \<Longrightarrow> kw = TNull" "fst (keyword_text kw) = ''WITH'' \<Longrightarrow> kw = TWith"
proof -
  have "(kw \<in> fst ` set compound_text \<and> fst (keyword_text kw) = fst (the (map_of compound_text kw))) \<or> (fst (keyword_text kw), kw) \<in> set keyword_table"
    using keyword_text_table [of kw] by (auto simp: keyword_text_def compound_text_def)
  then show "fst (keyword_text kw) = ''NOT'' \<Longrightarrow> kw = TNot \<or> kw = TNotIn" "fst (keyword_text kw) = ''IN'' \<Longrightarrow> kw = TIn"
    "fst (keyword_text kw) = ''NULL'' \<Longrightarrow> kw = TNull" "fst (keyword_text kw) = ''WITH'' \<Longrightarrow> kw = TWith"
    by (auto simp: compound_text_def keyword_table_def)
qed

lemma is_not_apart:
  assumes std: "ascii_tables std" and p: "list_all (printable std) ts" and f: "\<not> fuses (TKeyword TIs # ts)"
    and n: "next_word_is std ''NOT'' \<lparr>l_rest = 32 # print_tokens ts, l_pos = pos\<rparr>"
  shows "\<not> next_word_is std ''NULL'' (skip_ws_and_advance_n 3 \<lparr>l_rest = 32 # print_tokens ts, l_pos = pos\<rparr>)"
proof
  have u: "upper_word ''NOT''" "upper_word ''IN''" "upper_word ''NULL''" by (simp_all add: upper_word_def)
  assume null: "next_word_is std ''NULL'' (skip_ws_and_advance_n 3 \<lparr>l_rest = 32 # print_tokens ts, l_pos = pos\<rparr>)"
  obtain kw ts' where ts: "ts = TKeyword kw # ts'" "fst (keyword_text kw) = ''NOT''" using next_word_tokens [OF std u(1) p n] by blast
  from first_word_kinds(1) [OF ts(2)] show False
  proof
    assume kw: "kw = TNot"
    then have "print_tokens ts = lit ''NOT'' @ 32 # print_tokens ts'"
      using ts by (simp add: print_token_def keyword_text_def compound_text_def keyword_table_def)
    then have "next_word_is std ''NULL'' \<lparr>l_rest = 32 # print_tokens ts', l_pos = pos + 1 + 3\<rparr>"
      using null next_word_printed(2) [OF std u(1), of "print_tokens ts'" pos] by (simp add: eval_nat_numeral)
    then obtain kw' ts'' where "ts' = TKeyword kw' # ts''" "fst (keyword_text kw') = ''NULL''"
      using next_word_tokens [OF std u(3), of ts' "pos + 1 + 3"] p ts(1) by auto
    with f ts(1) kw first_word_kinds(3) show False by (auto simp: fuses_def)
  next
    assume "kw = TNotIn"
    then have "print_tokens ts = lit ''NOT'' @ 32 # lit ''IN'' @ 32 # print_tokens ts'"
      using ts by (simp add: print_token_def keyword_text_def compound_text_def)
    then have "next_word_is std ''NULL'' \<lparr>l_rest = 32 # lit ''IN'' @ 32 # print_tokens ts', l_pos = pos + 1 + 3\<rparr>"
      using null next_word_printed(2) [OF std u(1), of "lit ''IN'' @ 32 # print_tokens ts'" pos] by (simp add: eval_nat_numeral)
    with next_word_printed(1) [OF std u(2)] eq_upper [OF u(2,3)] show False by blast
  qed
qed

lemma no_compound:
  assumes std: "ascii_tables std" and p: "list_all (printable std) ts" and f: "\<not> fuses (TKeyword kw # ts)"
  shows "maybe_compound std kw \<lparr>l_rest = 32 # print_tokens ts, l_pos = pos\<rparr> = (kw, \<lparr>l_rest = 32 # print_tokens ts, l_pos = pos\<rparr>)"
proof -
  have "\<not> next_word_is std w \<lparr>l_rest = 32 # print_tokens ts, l_pos = pos\<rparr>"
    if "(kw, w) \<in> {(TNot, ''IN''), (TIs, ''NULL''), (TStarts, ''WITH''), (TEnds, ''WITH'')}" for w
  proof
    assume "next_word_is std w \<lparr>l_rest = 32 # print_tokens ts, l_pos = pos\<rparr>"
    moreover have "upper_word w" using that by (auto simp: upper_word_def)
    ultimately obtain kw' ts' where "ts = TKeyword kw' # ts'" "fst (keyword_text kw') = w" using next_word_tokens [OF std _ p] by blast
    with f that first_word_kinds [of kw'] show False by (auto simp: fuses_def)
  qed
  then show ?thesis using is_not_apart [OF std p] f by (auto simp: maybe_compound_def Let_def)
qed

lemma next_start:
  assumes "at_token \<lparr>l_rest = c # r, l_pos = pos\<rparr>"
  shows "lexer_next std \<lparr>l_rest = c # r, l_pos = pos\<rparr> =
    Some (and_then (read_token std c pos \<lparr>l_rest = r, l_pos = pos + len_utf8 c\<rparr>) (\<lambda>(tok, lx). Inr ((pos, tok, l_pos lx), lx)))"
  using at_token_skip [OF assms] by (simp add: lexer_next_def advance_def)

lemma at_token_first:
  "\<not> is_ascii_whitespace c \<Longrightarrow> c \<noteq> 47 \<Longrightarrow> at_token \<lparr>l_rest = c # r, l_pos = pos\<rparr>"
  by (simp add: at_token_def starts_with_def)

definition reads :: "('f, 'x) std_text_scheme \<Rightarrow> ustring \<Rightarrow> 'f tok \<Rightarrow> ustring \<Rightarrow> bool" where
  "reads std w t r \<longleftrightarrow> (\<forall>pos. lexer_next std \<lparr>l_rest = w @ r, l_pos = pos\<rparr> =
     Some (Inr ((pos, t, pos + utf8_len w), \<lparr>l_rest = r, l_pos = pos + utf8_len w\<rparr>)))"

lemma readsI:
  assumes "\<not> is_ascii_whitespace c" "c \<noteq> 47"
    and "\<And>pos. read_token std c pos \<lparr>l_rest = w @ r, l_pos = pos + len_utf8 c\<rparr> = Inr (t, \<lparr>l_rest = r, l_pos = pos + len_utf8 c + utf8_len w\<rparr>)"
  shows "reads std (c # w) t r"
  unfolding reads_def
proof
  fix pos
  show "lexer_next std \<lparr>l_rest = (c # w) @ r, l_pos = pos\<rparr> = Some (Inr ((pos, t, pos + utf8_len (c # w)), \<lparr>l_rest = r, l_pos = pos + utf8_len (c # w)\<rparr>))"
    using next_start [OF at_token_first [OF assms(1,2)], where std = std and r = "w @ r" and pos = pos] assms(3) [of pos] by (simp add: and_then_def add.assoc)
qed

lemma read_string_printed:
  "read_string 39 start (concat (map escape s) @ 39 # r) pos acc =
     Inr (acc @ s, \<lparr>l_rest = r, l_pos = pos + utf8_len (concat (map escape s)) + 1\<rparr>)"
proof (induction s arbitrary: pos acc)
  case (Cons c s)
  then show ?case by (cases "c = 39 \<or> c = 92") (auto simp: escape_def len_utf8_def)
qed (simp add: len_utf8_def)

lemma reads_string: "reads std (print_token (TStrLit s)) (TStrLit s) r"
proof -
  have "reads std (39 # concat (map escape s) @ [39]) (TStrLit s) r"
    by (rule readsI) (simp_all add: is_ascii_whitespace_def read_token_def single_tokens_def and_then_def read_string_printed len_utf8_def)
  then show ?thesis by (simp add: print_token_def)
qed

lemma read_backtick_printed:
  "96 \<notin> set s \<Longrightarrow> 10 \<notin> set s \<Longrightarrow>
   read_backtick_ident start (s @ 96 # r) pos acc = Inr (acc @ s, \<lparr>l_rest = r, l_pos = pos + utf8_len s + 1\<rparr>)"
  by (induction s arbitrary: pos acc) (auto simp: len_utf8_def)

lemma reads_ident:
  assumes "96 \<notin> set s" "10 \<notin> set s"
  shows "reads std (print_token (TIdent s)) (TIdent s) r"
proof -
  have "reads std (96 # s @ [96]) (TIdent s) r"
    by (rule readsI) (simp_all add: is_ascii_whitespace_def read_token_def single_tokens_def and_then_def read_backtick_printed [OF assms] len_utf8_def)
  then show ?thesis by (simp add: print_token_def)
qed

lemma reads_param:
  assumes std: "ascii_tables std" and p: "printable std (TParam s)"
  shows "reads std (print_token (TParam s)) (TParam s) (32 # r)"
proof -
  have "advance_while (word_char std) \<lparr>l_rest = s @ 32 # r, l_pos = pos\<rparr> = (s, \<lparr>l_rest = 32 # r, l_pos = pos + utf8_len s\<rparr>)" for pos
    by (rule while_word) (use p word_chars(2) [OF std] in \<open>auto simp: printable_def\<close>)
  then have "reads std (36 # s) (TParam s) (32 # r)" using p
    by - (rule readsI; auto simp: is_ascii_whitespace_def read_token_def single_tokens_def read_parameter_def word_char_def [abs_def] printable_def)
  then show ?thesis by (simp add: print_token_def)
qed

lemma radix_value_digits: "radix_value 10 (decimal_digits n) = n"
proof (induction n rule: decimal_digits.induct)
  case (1 n)
  have d: "m < 10 \<Longrightarrow> the (to_digit 10 (48 + m)) = m" for m :: nat by (simp add: to_digit_def is_digit_def)
  show ?case
  proof (cases "n < 10")
    case True
    then show ?thesis by (subst decimal_digits.simps) (simp add: radix_value_def d)
  next
    case False
    with 1 have "foldl (\<lambda>n c. n * 10 + the (to_digit 10 c)) 0 (decimal_digits (n div 10)) = n div 10" by (simp add: radix_value_def)
    with False show ?thesis by (subst decimal_digits.simps) (simp add: radix_value_def d)
  qed
qed

lemma decimal_value:
  assumes "0 \<le> n" "n < 2 ^ 127"
  shows "i128_from_str_radix 10 (decimal_digits (nat n)) = Some n"
proof -
  let ?ds = "decimal_digits (nat n)"
  obtain c r where c: "?ds = c # r" "is_digit c" using decimal_digits_list [of "nat n"] by (cases ?ds) auto
  have "to_digit 10 d \<noteq> None" if "is_digit d" for d using that by (auto simp: to_digit_def is_digit_def Let_def)
  then have "list_all (\<lambda>c. to_digit 10 c \<noteq> None) ?ds" using decimal_digits_list [of "nat n"] by (auto simp: list_all_iff)
  moreover have "c \<noteq> 43" "c \<noteq> 45" using c(2) by (auto simp: is_digit_def)
  moreover have "int (radix_value 10 ?ds) = n" using radix_value_digits assms(1) by simp
  ultimately show ?thesis using c(1) assms by (simp add: i128_from_str_radix_def from_str_radix_def)
qed

lemma reads_int:
  assumes "0 \<le> n" "n < 2 ^ 127"
  shows "reads std (print_token (TIntLit n)) (TIntLit n) (32 # r)"
proof -
  obtain c ds where c: "decimal_digits (nat n) = c # ds" "is_digit c" "list_all is_digit ds"
    using decimal_digits_list [of "nat n"] by (cases "decimal_digits (nat n)") auto
  have l: "len_utf8 c = 1" using c(2) by (auto simp: len_utf8_def is_digit_def)
  have "read_token std c pos \<lparr>l_rest = ds @ 32 # r, l_pos = pos + 1\<rparr> = Inr (TIntLit n, \<lparr>l_rest = 32 # r, l_pos = pos + 1 + utf8_len ds\<rparr>)" for pos
  proof -
    let ?lx = "\<lparr>l_rest = ds @ 32 # r, l_pos = pos + 1\<rparr>" and ?lx' = "\<lparr>l_rest = 32 # r, l_pos = pos + 1 + utf8_len ds\<rparr>"
    have aw: "advance_while is_digit ?lx = (ds, ?lx')" by (rule while_word) (use c in \<open>auto simp: is_digit_def\<close>)
    have "x \<notin> {120, 88, 111, 79}" if "advance ?lx = Some (x, lx1)" for x lx1
      using that c(3) by (cases ds) (auto simp: advance_def is_digit_def)
    then have "read_number std c ?lx = read_decimal std pos c ?lx"
      using l by (auto simp: read_number_def Let_def split: option.splits)
    also have "\<dots> = parse_int 10 ''integer'' pos (c # ds) (c # ds) ?lx'"
      using aw by (simp add: read_decimal_def read_fraction_def read_exponent_def advance_def Let_def split: list.splits)
    also have "\<dots> = Inr (TIntLit n, ?lx')" using decimal_value [OF assms] c(1) by (simp add: parse_int_def)
    finally show ?thesis using c(2) by (auto simp: read_token_def single_tokens_def is_digit_def)
  qed
  then have "reads std (c # ds) (TIntLit n) (32 # r)" using c(2) l
    by - (rule readsI; auto simp: is_ascii_whitespace_def is_digit_def)
  with c(1) show ?thesis by (simp add: print_token_def)
qed

lemma reads_symbol:
  assumes "t \<in> fst ` set symbol_text"
  shows "reads std (print_token t) t (32 # r)"
  unfolding reads_def using assms
  by (auto simp: symbol_text_def print_token_def next_start at_token_def is_ascii_whitespace_def starts_with_def read_token_def single_tokens_def
      read_operator_def next_is_def peek_def advance_ascii_def and_then_def len_utf8_def is_digit_def)

lemma reads_simple:
  assumes std: "ascii_tables std" and p: "list_all (printable std) ts" and kw: "kw \<notin> fst ` set compound_text"
    and f: "\<not> fuses (TKeyword kw # ts)"
  shows "reads std (print_token (TKeyword kw)) (TKeyword kw) (32 # print_tokens ts)"
  unfolding reads_def
proof
  fix pos
  note t = keyword_text_table [OF kw]
  obtain c w where w: "fst (keyword_text kw) = c # w" using keyword_text_words(1) [of kw] by (cases "fst (keyword_text kw)") (auto simp: upper_word_def)
  have pt: "print_token (TKeyword kw) = lit (c # w)" using t w by (simp add: print_token_def)
  have "utf8_len (lit (c # w)) = length (c # w)"
    using utf8_len_ascii [of "lit (c # w)"] upper_word_ascii [OF keyword_text_words(1) [of kw]] w by (simp add: list_all_iff)
  then show "lexer_next std \<lparr>l_rest = print_token (TKeyword kw) @ 32 # print_tokens ts, l_pos = pos\<rparr> =
      Some (Inr ((pos, TKeyword kw, pos + utf8_len (print_token (TKeyword kw))), \<lparr>l_rest = 32 # print_tokens ts, l_pos = pos + utf8_len (print_token (TKeyword kw))\<rparr>))"
    unfolding pt using read_word_printed [OF std, of c w kw "print_tokens ts" pos] t w no_compound [OF std p f] by simp
qed

text \<open>A compound of two words.\<close>

lemma reads_pair:
  assumes std: "ascii_tables std" and w: "(c # w1, kw) \<in> set keyword_table" and w2: "upper_word w2"
    and m: "\<And>lx. next_word_is std w2 lx \<Longrightarrow> (\<And>w'. upper_word w' \<Longrightarrow> w' \<noteq> w2 \<Longrightarrow> \<not> next_word_is std w' lx) \<Longrightarrow> maybe_compound std kw lx = (kw', skip_ws_and_advance_n (length w2) lx)"
  shows "reads std (lit (c # w1 @ '' '' @ w2)) (TKeyword kw') (32 # r)"
  unfolding reads_def
proof
  fix pos
  let ?lx = "\<lparr>l_rest = 32 # lit w2 @ 32 # r, l_pos = pos + 1 + length w1\<rparr>"
  have u: "upper_word (c # w1)" using w keyword_table_words(1) by (auto simp: list_all_iff)
  have "next_word_is std w' ?lx \<longleftrightarrow> w2 = w'" if "upper_word w'" for w'
    using next_word_printed(1) [OF std w2] eq_upper [OF w2 that] by blast
  then have "maybe_compound std kw ?lx = (kw', skip_ws_and_advance_n (length w2) ?lx)" using w2 by (intro m) auto
  then have "maybe_compound std kw ?lx = (kw', \<lparr>l_rest = 32 # r, l_pos = pos + 1 + length w1 + 1 + length w2\<rparr>)"
    using next_word_printed(2) [OF std w2] by simp
  moreover have "utf8_len (lit (c # w1 @ '' '' @ w2)) = 1 + length w1 + 1 + length w2"
    using utf8_len_ascii [of "lit (c # w1 @ '' '' @ w2)"] upper_word_ascii [OF u] upper_word_ascii [OF w2] by (auto simp: list_all_iff)
  ultimately show "lexer_next std \<lparr>l_rest = lit (c # w1 @ '' '' @ w2) @ 32 # r, l_pos = pos\<rparr> =
      Some (Inr ((pos, TKeyword kw', pos + utf8_len (lit (c # w1 @ '' '' @ w2))), \<lparr>l_rest = 32 # r, l_pos = pos + utf8_len (lit (c # w1 @ '' '' @ w2))\<rparr>))"
    using read_word_printed [OF std w, of "lit w2 @ 32 # r" pos] by simp
qed

lemma reads_is_not_null:
  assumes std: "ascii_tables std"
  shows "reads std (lit ''IS NOT NULL'') (TKeyword TIsNotNull) (32 # r)"
  unfolding reads_def
proof
  fix pos
  let ?lx = "\<lparr>l_rest = 32 # lit ''NOT'' @ 32 # lit ''NULL'' @ 32 # r, l_pos = pos + 1 + length ''S''\<rparr>"
  have u: "upper_word ''NOT''" "upper_word ''NULL''" by (simp_all add: upper_word_def)
  note n = next_word_printed [OF std u(1), where r = "lit ''NULL'' @ 32 # r" and pos = "pos + 1 + length ''S''"]
    next_word_printed [OF std u(2), where r = r and pos = "pos + 2 + 4"]
  have "\<not> next_word_is std ''NULL'' ?lx" "next_word_is std ''NOT'' ?lx"
    using n(1) eq_upper [OF u(1) u(2)] eq_upper [OF u(1) u(1)] by blast+
  moreover have "skip_ws_and_advance_n 3 ?lx = \<lparr>l_rest = 32 # lit ''NULL'' @ 32 # r, l_pos = pos + 2 + 4\<rparr>" using n(2) by (simp add: eval_nat_numeral)
  moreover have "next_word_is std ''NULL'' \<lparr>l_rest = 32 # lit ''NULL'' @ 32 # r, l_pos = pos + 2 + 4\<rparr>" using n(3) eq_upper [OF u(2) u(2)] by blast
  moreover have "skip_ws_and_advance_n 4 \<lparr>l_rest = 32 # lit ''NULL'' @ 32 # r, l_pos = pos + 2 + 4\<rparr> = \<lparr>l_rest = 32 # r, l_pos = pos + 11\<rparr>" using n(4) by (simp add: eval_nat_numeral)
  ultimately have "maybe_compound std TIs ?lx = (TIsNotNull, \<lparr>l_rest = 32 # r, l_pos = pos + 11\<rparr>)" by (simp only: maybe_compound_def) simp
  moreover have "(''IS'', TIs) \<in> set keyword_table" by (simp add: keyword_table_def)
  ultimately show "lexer_next std \<lparr>l_rest = lit ''IS NOT NULL'' @ 32 # r, l_pos = pos\<rparr> =
      Some (Inr ((pos, TKeyword TIsNotNull, pos + utf8_len (lit ''IS NOT NULL'')), \<lparr>l_rest = 32 # r, l_pos = pos + utf8_len (lit ''IS NOT NULL'')\<rparr>))"
    using read_word_printed [OF std, of "CHR ''I''" "''S''" TIs "lit ''NOT NULL'' @ 32 # r" pos] by (simp add: len_utf8_def)
qed

lemma reads_compound:
  assumes std: "ascii_tables std" and kw: "kw \<in> fst ` set compound_text"
  shows "reads std (print_token (TKeyword kw)) (TKeyword kw) (32 # r)"
proof -
  have u: "upper_word ''IN''" "upper_word ''NULL''" "upper_word ''WITH''" by (simp_all add: upper_word_def)
  note pair = reads_pair [OF std _ u(1), of "CHR ''N''" "''OT''" TNot TNotIn] reads_pair [OF std _ u(2), of "CHR ''I''" "''S''" TIs TIsNull]
    reads_pair [OF std _ u(3), of "CHR ''S''" "''TARTS''" TStarts TStartsWith] reads_pair [OF std _ u(3), of "CHR ''E''" "''NDS''" TEnds TEndsWith]
  have "reads std (lit ''NOT IN'') (TKeyword TNotIn) (32 # r)" using pair(1) by (simp add: keyword_table_def maybe_compound_def eval_nat_numeral)
  moreover have "reads std (lit ''IS NULL'') (TKeyword TIsNull) (32 # r)" using pair(2) by (simp add: keyword_table_def maybe_compound_def eval_nat_numeral)
  moreover have "reads std (lit ''STARTS WITH'') (TKeyword TStartsWith) (32 # r)" using pair(3) by (simp add: keyword_table_def maybe_compound_def eval_nat_numeral)
  moreover have "reads std (lit ''ENDS WITH'') (TKeyword TEndsWith) (32 # r)" using pair(4) by (simp add: keyword_table_def maybe_compound_def eval_nat_numeral)
  ultimately show ?thesis using kw reads_is_not_null [OF std, of r]
    by (auto simp: compound_text_def print_token_def keyword_text_def)
qed

lemma reads_token:
  assumes std: "ascii_tables std" and t: "printable std t" and p: "list_all (printable std) ts"
    and f: "\<not> fuses (t # ts)"
  shows "reads std (print_token t) t (32 # print_tokens ts)"
proof (cases t)
  case (TKeyword kw)
  with reads_compound [OF std] reads_simple [OF std p] f show ?thesis by blast
next
  case (TIntLit n)
  with reads_int [of n] t show ?thesis by (simp add: printable_def)
next
  case (TIdent s)
  with reads_ident [of s] t show ?thesis by (simp add: printable_def)
qed (use t in \<open>auto simp: printable_def symbol_text_def intro!: reads_symbol reads_string reads_param [OF std]\<close>)

lemma next_space: "lexer_next std \<lparr>l_rest = 32 # r, l_pos = pos\<rparr> = lexer_next std \<lparr>l_rest = r, l_pos = pos + 1\<rparr>"
proof -
  have "advance_while is_ascii_whitespace \<lparr>l_rest = 32 # r, l_pos = pos\<rparr> =
      (32 # takeWhile is_ascii_whitespace r, snd (advance_while is_ascii_whitespace \<lparr>l_rest = r, l_pos = pos + 1\<rparr>))"
    by (simp add: advance_while_def Let_def is_ascii_whitespace_def len_utf8_def)
  then have "skip_whitespace_and_comments \<lparr>l_rest = 32 # r, l_pos = pos\<rparr> = skip_whitespace_and_comments \<lparr>l_rest = r, l_pos = pos + 1\<rparr>"
    by (subst (1 2) skip_whitespace_and_comments.simps) simp
  then show ?thesis by (simp add: lexer_next_def)
qed

fun token_spans :: "nat \<Rightarrow> 'f tok list \<Rightarrow> (nat \<times> 'f tok \<times> nat) list" where
  "token_spans pos [] = []"
| "token_spans pos (t # ts) = (pos, t, pos + utf8_len (print_token t)) # token_spans (pos + utf8_len (print_token t) + 1) ts"

lemma collect_printed:
  assumes std: "ascii_tables std" and "list_all (printable std) ts" "\<not> list_ex fuses (suffixes ts)"
  shows "collect_tokens std \<lparr>l_rest = print_tokens ts, l_pos = pos\<rparr> = Inr (token_spans pos ts)"
  using assms(2,3)
proof (induction ts arbitrary: pos)
  case Nil
  have "lexer_next std \<lparr>l_rest = [], l_pos = pos\<rparr> = None"
    using at_token_skip [of "\<lparr>l_rest = [], l_pos = pos\<rparr>"] by (simp add: lexer_next_def advance_def at_token_def starts_with_def)
  then show ?case by (subst collect_tokens.simps) simp
next
  case (Cons t ts)
  let ?stop = "pos + utf8_len (print_token t)"
  have "reads std (print_token t) t (32 # print_tokens ts)"
    by (rule reads_token [OF std]) (use Cons.prems in \<open>auto\<close>)
  then have n: "lexer_next std \<lparr>l_rest = print_tokens (t # ts), l_pos = pos\<rparr> = Some (Inr ((pos, t, ?stop), \<lparr>l_rest = 32 # print_tokens ts, l_pos = ?stop\<rparr>))"
    by (simp add: reads_def)
  from Cons have "collect_tokens std \<lparr>l_rest = print_tokens ts, l_pos = ?stop + 1\<rparr> = Inr (token_spans (?stop + 1) ts)" by simp
  then have "collect_tokens std \<lparr>l_rest = 32 # print_tokens ts, l_pos = ?stop\<rparr> = Inr (token_spans (?stop + 1) ts)"
    by (subst collect_tokens.simps) (subst (asm) collect_tokens.simps, simp add: next_space)
  then show ?case by (subst collect_tokens.simps) (simp only: n, simp)
qed

text \<open>C13. Printing and lexing. The text of a list of printable tokens, with a space after each, is lexed to exactly these tokens,
  each with the span of its text, where the Unicode tables are those of ASCII on ASCII and no keywords in a row form a
  compound.
\<close>

theorem tokens_roundtrip:
  assumes "ascii_tables std" "list_all (printable std) ts" "\<not> list_ex fuses (suffixes ts)"
  shows "collect_tokens std (lexer_new (print_tokens ts)) = Inr (token_spans 0 ts)"
  unfolding lexer_new_def by (rule collect_printed [OF assms])

definition ascii_text :: "'f std_text" where
  "ascii_text = \<lparr>s_alphabetic = \<lambda>c. 65 \<le> c \<and> c \<le> 90 \<or> 97 \<le> c \<and> c \<le> 122, s_numeric = is_digit,
     s_uppercase = \<lambda>c. [to_ascii_uppercase c], s_debug = \<lambda>c. [39, c, 39], s_parse_f64 = \<lambda>_. None\<rparr>"

lemma ascii_text_tables: "ascii_tables ascii_text"
  by (simp add: ascii_tables_def ascii_text_def)

text \<open>A query with a keyword compound, a quoted string, an integer and a parameter.\<close>

theorem tokens_roundtrip_witness:
  "collect_tokens (ascii_text :: nat std_text)
      (lexer_new (print_tokens ([TKeyword TMatch, TLParen, TIdent (lit ''n''), TRParen, TKeyword TWhere, TIdent (lit ''n''), TDot,
         TIdent (lit ''age''), TKeyword TIsNotNull, TKeyword TReturn, TKeyword TIs, TKeyword TNot, TStrLit (lit ''it'' @ [39] @ lit ''s''), TComma, TIntLit 42, TComma, TParam (lit ''p'')] :: nat tok list))) =
     Inr [(0, TKeyword TMatch, 5), (6, TLParen, 7), (8, TIdent (lit ''n''), 11), (12, TRParen, 13), (14, TKeyword TWhere, 19),
       (20, TIdent (lit ''n''), 23), (24, TDot, 25), (26, TIdent (lit ''age''), 31), (32, TKeyword TIsNotNull, 43),
       (44, TKeyword TReturn, 50), (51, TKeyword TIs, 53), (54, TKeyword TNot, 57), (58, TStrLit (lit ''it'' @ [39] @ lit ''s''), 65), (66, TComma, 67),
       (68, TIntLit 42, 70), (71, TComma, 72), (73, TParam (lit ''p''), 75)]"
  (is "collect_tokens ascii_text (lexer_new (print_tokens ?ts)) = _")
proof -
  have "list_all (printable (ascii_text :: nat std_text)) ?ts" by (simp add: printable_def word_char_def is_alphanumeric_def ascii_text_def)
  moreover have "\<not> list_ex fuses (suffixes ?ts)" by (simp add: fuses_def)
  ultimately have "collect_tokens (ascii_text :: nat std_text) (lexer_new (print_tokens ?ts)) = Inr (token_spans 0 ?ts)"
    by (rule tokens_roundtrip [OF ascii_text_tables])
  then show ?thesis
    by (simp add: print_token_def keyword_text_def compound_text_def keyword_table_def symbol_text_def escape_def decimal_digits.simps len_utf8_def)
qed

text \<open>A string literal that is cut off right after a backslash is not an error.\<close>

lemma unterminated_escape_accepted:
  "collect_tokens std (lexer_new [39, 92]) = Inr [(0, TStrLit [], 2)]"
proof -
  have "lexer_next std \<lparr>l_rest = [39, 92], l_pos = 0\<rparr> = Some (Inr ((0, TStrLit [], 2), \<lparr>l_rest = [], l_pos = 2\<rparr>))"
    using next_start [OF at_token_first [of 39], where std = std and r = "[92]" and pos = 0]
    by (simp add: is_ascii_whitespace_def read_token_def single_tokens_def and_then_def len_utf8_def)
  moreover have "collect_tokens std \<lparr>l_rest = [], l_pos = 2\<rparr> = Inr []"
    using collect_printed [of std "[]" 2] at_token_skip [of "\<lparr>l_rest = [], l_pos = 2\<rparr>"]
    by (subst collect_tokens.simps) (simp add: lexer_next_def advance_def at_token_def starts_with_def)
  ultimately show ?thesis unfolding lexer_new_def by (subst collect_tokens.simps) simp
qed

end
