(* ===== verification/Cypher_Ast.thy ===== *)
theory Cypher_Ast
  imports Cypher_Lexer
begin

text \<open>
  \<open>crates/graphforge-ast/src/ast.rs\<close>: the syntax tree of queries. The span of a node is a type parameter, so that trees
  can be compared up to their spans; the parser fills it with byte offsets. A structure that is the content of one variant
  only is spelled out as the fields of that variant. The entries of a map literal are kept in the order of the text.
\<close>

type_synonym span = "nat \<times> nat"

section \<open>Patterns\<close>

datatype (plugins only: code size) ('s, 'f) literal = LInt int 's | LFloat 'f 's | LStr ustring 's | LBool bool 's | LNull 's

datatype (plugins only: code size) ('s, 'e) property_access = PropertyAccess (pa_object: 'e) (pa_key: ustring) (pa_span: 's)

datatype direction = DirOut | DirIn | DirUndirected

datatype (plugins only: code size) ('s, 'e) node_pattern =
  NodePattern (n_var: "ustring option") (n_labels: "ustring list") (n_properties: "'e option") (n_span: 's)

datatype (plugins only: code size) ('s, 'e) rel_pattern =
  RelPattern (r_var: "ustring option") (r_types: "ustring list") (r_direction: direction) (r_min_hops: "nat option")
    (r_max_hops: "nat option") (r_properties: "'e option") (r_span: 's)

datatype (plugins only: code size) ('s, 'e) path_element = PNode "('s, 'e) node_pattern" | PRel "('s, 'e) rel_pattern"

datatype (plugins only: code size) ('s, 'e) path_pattern =
  PathPattern (p_var: "ustring option") (p_elements: "('s, 'e) path_element list") (p_span: 's)

section \<open>Clauses\<close>

datatype (plugins only: code size) ('s, 'e) where_clause = WhereClause (wh_predicate: 'e) (wh_span: 's)

datatype (plugins only: code size) ('s, 'e) match_clause =
  MatchClause (m_patterns: "('s, 'e) path_pattern list") (m_where_clause: "('s, 'e) where_clause option") (m_span: 's)

datatype (plugins only: code size) ('s, 'e) return_item =
  ReturnItem (ri_expr: 'e) (ri_alias: "ustring option") (ri_display: "ustring option") (ri_span: 's)

datatype sort_order = Ascending | Descending

datatype (plugins only: code size) ('s, 'e) sort_item = SortItem (so_expr: 'e) (so_order: sort_order) (so_span: 's)

datatype (plugins only: code size) ('s, 'e) order_by_clause = OrderByClause (ob_items: "('s, 'e) sort_item list") (ob_span: 's)

datatype (plugins only: code size) ('s, 'e) with_clause =
  WithClause (w_distinct: bool) (w_items: "('s, 'e) return_item list") (w_order_by: "('s, 'e) order_by_clause option")
    (w_skip: "'e option") (w_limit: "'e option") (w_where_clause: "('s, 'e) where_clause option") (w_span: 's)

datatype (plugins only: code size) ('s, 'e) return_clause =
  ReturnClause (rt_distinct: bool) (rt_items: "('s, 'e) return_item list") (rt_order_by: "('s, 'e) order_by_clause option")
    (rt_skip: "'e option") (rt_limit: "'e option") (rt_span: 's)

datatype (plugins only: code size) ('s, 'e) create_clause = CreateClause (cr_patterns: "('s, 'e) path_pattern list") (cr_span: 's)

datatype (plugins only: code size) ('s, 'e) set_item =
  SetProperty "('s, 'e) property_access" 'e 's
| SetPropertyMerge ustring 'e 's
| SetPropertyReplace ustring 'e 's
| SetLabel ustring "ustring list" 's

datatype (plugins only: code size) ('s, 'e) merge_clause =
  MergeClause (mg_pattern: "('s, 'e) path_pattern") (mg_on_create: "('s, 'e) set_item list")
    (mg_on_match: "('s, 'e) set_item list") (mg_span: 's)

datatype (plugins only: code size) ('s, 'e) set_clause = SetClause (st_items: "('s, 'e) set_item list") (st_span: 's)

datatype (plugins only: code size) ('s, 'e) remove_item =
  RemoveProperty "('s, 'e) property_access" 's
| RemoveLabel ustring "ustring list" 's

datatype (plugins only: code size) ('s, 'e) remove_clause = RemoveClause (rm_items: "('s, 'e) remove_item list") (rm_span: 's)

datatype (plugins only: code size) ('s, 'e) delete_clause = DeleteClause (d_detach: bool) (d_exprs: "'e list") (d_span: 's)

datatype (plugins only: code size) ('s, 'e) unwind_clause = UnwindClause (uw_expr: 'e) (uw_alias: ustring) (uw_span: 's)

datatype (plugins only: code size) ('s, 'e) call_clause =
  CallClause (ca_procedure: "ustring list") (ca_args: "'e list") (ca_args_explicit: bool)
    (ca_yield_items: "('s, 'e) return_item list") (ca_span: 's)

datatype (plugins only: code size) 's union_clause = UnionClause (u_all: bool) (u_span: 's)

datatype (plugins only: code size) ('s, 'e) ast_clause =
  CMatch "('s, 'e) match_clause"
| COptionalMatch "('s, 'e) match_clause"
| CWhere "('s, 'e) where_clause"
| CWith "('s, 'e) with_clause"
| CReturn "('s, 'e) return_clause"
| CCreate "('s, 'e) create_clause"
| CMerge "('s, 'e) merge_clause"
| CSet "('s, 'e) set_clause"
| CRemove "('s, 'e) remove_clause"
| CDelete "('s, 'e) delete_clause"
| CUnwind "('s, 'e) unwind_clause"
| CCall "('s, 'e) call_clause"
| CUnion "'s union_clause"

datatype dialect_version = OpenCypher9

datatype (plugins only: code size) ('s, 'e) ast_query =
  AstQuery (q_dialect: dialect_version) (q_clauses: "('s, 'e) ast_clause list") (q_span: 's)

section \<open>Expressions\<close>

datatype binary_op_kind =
  BEq | BNeq | BLt | BLte | BGt | BGte | BAnd | BOr | BXor | BAdd | BSub | BMul | BDiv | BMod | BPow | BConcat

datatype unary_op_kind = UNot | UNeg

datatype string_op_kind = SStartsWith | SEndsWith | SContains

datatype quantifier_kind = QAll | QAny | QNone | QSingle

datatype (plugins only: code size) ('s, 'e) when_clause = WhenClause (wn_condition: 'e) (wn_result: 'e) (wn_span: 's)

datatype (plugins only: code size) ('s, 'e) existential_subquery_body =
  SimpleBody "('s, 'e) path_pattern" "'e option"
| FullBody "('s, 'e) ast_query"

datatype (plugins only: code size) ('s, 'f) expr =
  ELiteral "('s, 'f) literal"
| EVar ustring 's
| EProperty "('s, ('s, 'f) expr) property_access"
| EBinaryOp binary_op_kind "('s, 'f) expr" "('s, 'f) expr" 's
| EUnaryOp unary_op_kind "('s, 'f) expr" 's
| EFunctionCall "ustring list" bool bool "('s, 'f) expr list" 's
| EList "('s, 'f) expr list" 's
| EMap "(ustring \<times> ('s, 'f) expr) list" "(ustring \<times> 's) list" 's
| EParam ustring 's
| ECase "('s, 'f) expr option" "('s, ('s, 'f) expr) when_clause list" "('s, 'f) expr option" 's
| EListComprehension ustring "('s, 'f) expr" "('s, 'f) expr option" "('s, 'f) expr option" 's
| EQuantifier quantifier_kind ustring "('s, 'f) expr" "('s, 'f) expr" 's
| EPatternComprehension "ustring option" "('s, ('s, 'f) expr) path_pattern" "('s, 'f) expr option" "('s, 'f) expr" 's
| EPatternPredicate "('s, ('s, 'f) expr) path_pattern" 's
| EExistentialSubquery "('s, ('s, 'f) expr) existential_subquery_body" 's
| ELabelPredicate ustring "ustring list" 's
| EIsNull "('s, 'f) expr" bool 's
| EInList "('s, 'f) expr" "('s, 'f) expr" bool 's
| EStringOp "('s, 'f) expr" string_op_kind "('s, 'f) expr" 's
| ERegexMatch "('s, 'f) expr" "('s, 'f) expr" 's
| EParenthesized "('s, 'f) expr" 's

primrec literal_span :: "('s, 'f) literal \<Rightarrow> 's" where
  "literal_span (LInt _ s) = s"
| "literal_span (LFloat _ s) = s"
| "literal_span (LStr _ s) = s"
| "literal_span (LBool _ s) = s"
| "literal_span (LNull s) = s"

fun expr_span :: "('s, 'f) expr \<Rightarrow> 's" where
  "expr_span (ELiteral l) = literal_span l"
| "expr_span (EVar _ s) = s"
| "expr_span (EProperty p) = pa_span p"
| "expr_span (EBinaryOp _ _ _ s) = s"
| "expr_span (EUnaryOp _ _ s) = s"
| "expr_span (EFunctionCall _ _ _ _ s) = s"
| "expr_span (EList _ s) = s"
| "expr_span (EMap _ _ s) = s"
| "expr_span (EParam _ s) = s"
| "expr_span (ECase _ _ _ s) = s"
| "expr_span (EListComprehension _ _ _ _ s) = s"
| "expr_span (EQuantifier _ _ _ _ s) = s"
| "expr_span (EPatternComprehension _ _ _ _ s) = s"
| "expr_span (EPatternPredicate _ s) = s"
| "expr_span (EExistentialSubquery _ s) = s"
| "expr_span (ELabelPredicate _ _ s) = s"
| "expr_span (EIsNull _ _ s) = s"
| "expr_span (EInList _ _ _ s) = s"
| "expr_span (EStringOp _ _ _ s) = s"
| "expr_span (ERegexMatch _ _ s) = s"
| "expr_span (EParenthesized _ s) = s"

fun clause_span :: "('s, 'e) ast_clause \<Rightarrow> 's" where
  "clause_span (CMatch c) = m_span c"
| "clause_span (COptionalMatch c) = m_span c"
| "clause_span (CWhere c) = wh_span c"
| "clause_span (CWith c) = w_span c"
| "clause_span (CReturn c) = rt_span c"
| "clause_span (CCreate c) = cr_span c"
| "clause_span (CMerge c) = mg_span c"
| "clause_span (CSet c) = st_span c"
| "clause_span (CRemove c) = rm_span c"
| "clause_span (CDelete c) = d_span c"
| "clause_span (CUnwind c) = uw_span c"
| "clause_span (CCall c) = ca_span c"
| "clause_span (CUnion c) = u_span c"

fun is_mutation :: "('s, 'e) ast_clause \<Rightarrow> bool" where
  "is_mutation (CCreate _) = True"
| "is_mutation (CMerge _) = True"
| "is_mutation (CSet _) = True"
| "is_mutation (CRemove _) = True"
| "is_mutation (CDelete _) = True"
| "is_mutation _ = False"

definition has_mutation_clauses :: "('s, 'e) ast_query \<Rightarrow> bool" where
  "has_mutation_clauses q \<longleftrightarrow> list_ex is_mutation (q_clauses q)"

section \<open>Parts\<close>

text \<open>The direct parts of an expression; going to a part ends.\<close>

fun expr_parts :: "('s, 'f) expr \<Rightarrow> ('s, 'f) expr set" where
  "expr_parts (ELiteral l) = {}"
| "expr_parts (EVar _ _) = {}"
| "expr_parts (EProperty q) = set2_property_access q"
| "expr_parts (EBinaryOp _ l r _) = {l, r}"
| "expr_parts (EUnaryOp _ e _) = {e}"
| "expr_parts (EFunctionCall _ _ _ args _) = set args"
| "expr_parts (EList es _) = set es"
| "expr_parts (EMap entries _ _) = snd ` set entries"
| "expr_parts (EParam _ _) = {}"
| "expr_parts (ECase subject whens else_expr _) = set_option subject \<union> \<Union> (set2_when_clause ` set whens) \<union> set_option else_expr"
| "expr_parts (EListComprehension _ list flt projection _) = insert list (set_option flt \<union> set_option projection)"
| "expr_parts (EQuantifier _ _ list predicate _) = {list, predicate}"
| "expr_parts (EPatternComprehension _ p flt projection _) = insert projection (set2_path_pattern p \<union> set_option flt)"
| "expr_parts (EPatternPredicate p _) = set2_path_pattern p"
| "expr_parts (EExistentialSubquery b _) = set2_existential_subquery_body b"
| "expr_parts (ELabelPredicate _ _ _) = {}"
| "expr_parts (EIsNull e _ _) = {e}"
| "expr_parts (EInList e l _ _) = {e, l}"
| "expr_parts (EStringOp e _ p _) = {e, p}"
| "expr_parts (ERegexMatch e p _) = {e, p}"
| "expr_parts (EParenthesized e _) = {e}"

lemma wf_expr_parts: "wf {(x, y). x \<in> expr_parts y}"
proof (rule wfUNIVI)
  fix P :: "('s, 'f) expr \<Rightarrow> bool" and x
  assume "\<forall>x. (\<forall>y. (y, x) \<in> {(x, y). x \<in> expr_parts y} \<longrightarrow> P y) \<longrightarrow> P x"
  then have step: "(\<And>y. y \<in> expr_parts x \<Longrightarrow> P y) \<Longrightarrow> P x" for x by blast
  show "P x" by (induction x; rule step; fastforce simp: prod_set_defs)
qed

end
