(* ===== verification/Token_Stream.thy ===== *)
theory Token_Stream
  imports Lexer_Tokens Cypher_Ast
begin

text \<open>
  \<open>crates/graphforge-cypher/src/parser/mod.rs\<close>: the token stream that the parser walks. A parser takes a stream to an
  error, or to a value and the stream after it; \<open>None\<close> is a run that does not end or panics. The debug forms of tokens and of
  expressions, which occur in messages only, and the white space of Unicode are parameters.
\<close>

record 'f fmt_text = "'f std_text" +
  f_debug_tok :: "'f tok \<Rightarrow> ustring"
  f_debug_expr :: "(span, 'f) expr \<Rightarrow> ustring"
  f_white_space :: "nat \<Rightarrow> bool"

record 'f token_stream =
  ts_tokens :: "(nat \<times> 'f tok \<times> nat) list"
  ts_pos :: nat
  ts_input :: ustring
  ts_unsupported :: "parse_error option"

section \<open>Parsers\<close>

type_synonym ('f, 'a) parser = "'f token_stream \<Rightarrow> (parse_error + 'a \<times> 'f token_stream) option"

definition ret :: "'a \<Rightarrow> ('f, 'a) parser" where
  "ret x = (\<lambda>ts. Some (Inr (x, ts)))"

definition fail :: "parse_error \<Rightarrow> ('f, 'a) parser" where
  "fail e = (\<lambda>ts. Some (Inl e))"

definition bindp :: "('f, 'a) parser \<Rightarrow> ('a \<Rightarrow> ('f, 'b) parser) \<Rightarrow> ('f, 'b) parser" where
  "bindp p f = (\<lambda>ts. case p ts of
     None \<Rightarrow> None
   | Some (Inl e) \<Rightarrow> Some (Inl e)
   | Some (Inr (x, ts)) \<Rightarrow> f x ts)"

text \<open>What a parser sees of the stream without moving it.\<close>

definition seeing :: "('f token_stream \<Rightarrow> 'a) \<Rightarrow> ('a \<Rightarrow> ('f, 'b) parser) \<Rightarrow> ('f, 'b) parser" where
  "seeing f p = (\<lambda>ts. p (f ts) ts)"

text \<open>A parser that runs on a clone of the stream, which is dropped: its value if it succeeds.\<close>

definition on_clone :: "('f, 'a) parser \<Rightarrow> ('f, 'a option) parser" where
  "on_clone p = (\<lambda>ts. case p ts of
     None \<Rightarrow> None
   | Some (Inl e) \<Rightarrow> Some (Inr (None, ts))
   | Some (Inr (x, _)) \<Rightarrow> Some (Inr (Some x, ts)))"

section \<open>The stream\<close>

definition token_stream_new :: "('f, 'x) std_text_scheme \<Rightarrow> ustring \<Rightarrow> parse_error + 'f token_stream" where
  "token_stream_new std input =
     and_then (collect_tokens std (lexer_new input)) (\<lambda>tokens.
       Inr \<lparr>ts_tokens = tokens, ts_pos = 0, ts_input = input, ts_unsupported = None\<rparr>)"

definition record_unsupported :: "unsupported_cypher_feature \<Rightarrow> span \<Rightarrow> ('f, unit) parser" where
  "record_unsupported feature span = (\<lambda>ts. Some (Inr ((),
     if ts_unsupported ts = None
     then ts\<lparr>ts_unsupported := Some (parse_error_new (UnsupportedFeature feature) span (lit (description feature) @ lit '' are not supported''))\<rparr>
     else ts)))"

definition finish_supported :: "'a \<Rightarrow> ('f, 'a) parser" where
  "finish_supported x = (\<lambda>ts. case ts_unsupported ts of
     Some e \<Rightarrow> Some (Inl e)
   | None \<Rightarrow> Some (Inr (x, ts)))"

definition ts_peek_n :: "nat \<Rightarrow> 'f token_stream \<Rightarrow> 'f tok option" where
  "ts_peek_n n ts = (if ts_pos ts + n < length (ts_tokens ts) then Some (fst (snd (ts_tokens ts ! (ts_pos ts + n)))) else None)"

definition ts_peek :: "'f token_stream \<Rightarrow> 'f tok option" where
  "ts_peek ts = (if ts_pos ts < length (ts_tokens ts) then Some (fst (snd (ts_tokens ts ! ts_pos ts))) else None)"

definition ts_at :: "'f tok \<Rightarrow> 'f token_stream \<Rightarrow> bool" where
  "ts_at expected ts \<longleftrightarrow> ts_peek ts = Some expected"

definition ts_is_empty :: "'f token_stream \<Rightarrow> bool" where
  "ts_is_empty ts \<longleftrightarrow> length (ts_tokens ts) \<le> ts_pos ts"

definition ts_advance :: "('f, (nat \<times> 'f tok \<times> nat) option) parser" where
  "ts_advance = (\<lambda>ts.
     if ts_pos ts < length (ts_tokens ts)
     then Some (Inr (Some (ts_tokens ts ! ts_pos ts), ts\<lparr>ts_pos := ts_pos ts + 1\<rparr>))
     else Some (Inr (None, ts)))"

text \<open>An advance whose token is unwrapped, and the advance over a number of tokens.\<close>

definition ts_take :: "('f, nat \<times> 'f tok \<times> nat) parser" where
  "ts_take = bindp ts_advance (\<lambda>t. case t of Some x \<Rightarrow> ret x | None \<Rightarrow> (\<lambda>ts. None))"

fun ts_advance_n :: "nat \<Rightarrow> ('f, unit) parser" where
  "ts_advance_n 0 = ret ()"
| "ts_advance_n (Suc n) = bindp ts_advance (\<lambda>_. ts_advance_n n)"

definition ts_current_pos :: "'f token_stream \<Rightarrow> nat" where
  "ts_current_pos ts = (if ts_pos ts < length (ts_tokens ts) then fst (ts_tokens ts ! ts_pos ts) else utf8_len (ts_input ts))"

definition ts_current_span :: "'f token_stream \<Rightarrow> span" where
  "ts_current_span ts = (let p = ts_current_pos ts in (p, p))"

definition ts_span_from :: "nat \<Rightarrow> 'f token_stream \<Rightarrow> span" where
  "ts_span_from start ts = (start, ts_current_pos ts)"

definition ts_eat :: "('f, 'x) fmt_text_scheme \<Rightarrow> 'f tok \<Rightarrow> ('f, span) parser" where
  "ts_eat fmt expected = (\<lambda>ts.
     if ts_pos ts < length (ts_tokens ts)
     then (case ts_tokens ts ! ts_pos ts of (l, tok, r) \<Rightarrow>
       if tok = expected then Some (Inr ((l, r), ts\<lparr>ts_pos := ts_pos ts + 1\<rparr>))
       else Some (Inl (parse_error_new (UnexpectedToken (f_debug_tok fmt tok) [f_debug_tok fmt expected]) (l, r)
         (lit ''expected '' @ f_debug_tok fmt expected @ lit '', found '' @ f_debug_tok fmt tok))))
     else Some (Inl (parse_error_new (UnexpectedEof [f_debug_tok fmt expected]) (ts_current_pos ts, ts_current_pos ts)
       (lit ''expected '' @ f_debug_tok fmt expected @ lit '', found end of input''))))"

definition ts_eat_if :: "'f tok \<Rightarrow> ('f, bool) parser" where
  "ts_eat_if expected = (\<lambda>ts.
     if ts_at expected ts then Some (Inr (True, ts\<lparr>ts_pos := ts_pos ts + 1\<rparr>)) else Some (Inr (False, ts)))"

text \<open>The part of a text between two byte offsets, if these are boundaries of characters.\<close>

fun byte_drop :: "nat \<Rightarrow> ustring \<Rightarrow> ustring option" where
  "byte_drop n s =
     (if n = 0 then Some s
      else case s of [] \<Rightarrow> None | c # s \<Rightarrow> if len_utf8 c \<le> n then byte_drop (n - len_utf8 c) s else None)"

fun byte_take :: "nat \<Rightarrow> ustring \<Rightarrow> ustring option" where
  "byte_take n s =
     (if n = 0 then Some []
      else case s of [] \<Rightarrow> None
           | c # s \<Rightarrow> if len_utf8 c \<le> n then map_option (Cons c) (byte_take (n - len_utf8 c) s) else None)"

declare byte_drop.simps [simp del] byte_take.simps [simp del]

definition ts_text :: "span \<Rightarrow> 'f token_stream \<Rightarrow> ustring" where
  "ts_text span ts =
     (case span of (start, stop) \<Rightarrow>
       if start \<le> stop
       then (case Option.bind (byte_drop start (ts_input ts)) (byte_take (stop - start)) of None \<Rightarrow> [] | Some s \<Rightarrow> s)
       else [])"

definition ts_err :: "('f, 'x) fmt_text_scheme \<Rightarrow> ustring \<Rightarrow> 'f token_stream \<Rightarrow> parse_error" where
  "ts_err fmt msg ts =
     (if ts_pos ts < length (ts_tokens ts)
      then (case ts_tokens ts ! ts_pos ts of (l, tok, r) \<Rightarrow> parse_error_new (UnexpectedToken (f_debug_tok fmt tok) []) (l, r) msg)
      else parse_error_new (UnexpectedEof []) (utf8_len (ts_input ts), utf8_len (ts_input ts)) msg)"

definition fail_here :: "('f, 'x) fmt_text_scheme \<Rightarrow> ustring \<Rightarrow> ('f, 'a) parser" where
  "fail_here fmt msg = (\<lambda>ts. Some (Inl (ts_err fmt msg ts)))"

text \<open>The decimal form of an integer.\<close>

definition int_text :: "int \<Rightarrow> ustring" where
  "int_text n = (if n < 0 then cp CHR ''-'' # decimal_digits (nat (- n)) else decimal_digits (nat n))"

definition str_trim :: "('f, 'x) fmt_text_scheme \<Rightarrow> ustring \<Rightarrow> ustring" where
  "str_trim fmt s = rev (dropWhile (f_white_space fmt) (rev (dropWhile (f_white_space fmt) s)))"

text \<open>The contents of tokens.\<close>

definition ident_of :: "'f tok \<Rightarrow> ustring option" where
  "ident_of tok = (case tok of TIdent name \<Rightarrow> Some name | _ \<Rightarrow> None)"

definition int_of :: "'f tok \<Rightarrow> int option" where
  "int_of tok = (case tok of TIntLit n \<Rightarrow> Some n | _ \<Rightarrow> None)"

definition keyword_of :: "'f tok \<Rightarrow> keyword_tok option" where
  "keyword_of tok = (case tok of TKeyword kw \<Rightarrow> Some kw | _ \<Rightarrow> None)"

lemma token_contents:
  "ident_of tok = Some name \<longleftrightarrow> tok = TIdent name" "int_of tok = Some n \<longleftrightarrow> tok = TIntLit n"
  "keyword_of tok = Some kw \<longleftrightarrow> tok = TKeyword kw"
  by (simp_all add: ident_of_def int_of_def keyword_of_def split: tok.split)

definition peek_ident :: "nat \<Rightarrow> 'f token_stream \<Rightarrow> ustring option" where
  "peek_ident n ts = Option.bind (ts_peek_n n ts) ident_of"

definition peek_int :: "'f token_stream \<Rightarrow> int option" where
  "peek_int ts = Option.bind (ts_peek ts) int_of"

definition peek_keyword_in :: "keyword_tok list \<Rightarrow> 'f token_stream \<Rightarrow> bool" where
  "peek_keyword_in kws ts \<longleftrightarrow> list_ex (\<lambda>kw. ts_at (TKeyword kw) ts) kws"

section \<open>Loops\<close>

text \<open>
  A loop repeats a step that is a parser: the step takes the value so far to a new value with which the loop goes on, or
  to the value it ends with. Every step that goes on consumes a token, so the number of tokens bounds the steps.
\<close>

fun iterate :: "nat \<Rightarrow> ('a \<Rightarrow> ('f, 'a + 'b) parser) \<Rightarrow> 'a \<Rightarrow> ('f, 'b) parser" where
  "iterate 0 step x = (\<lambda>ts. None)"
| "iterate (Suc n) step x = bindp (step x) (\<lambda>r. case r of Inl x \<Rightarrow> iterate n step x | Inr y \<Rightarrow> ret y)"

definition loop :: "('a \<Rightarrow> ('f, 'a + 'b) parser) \<Rightarrow> 'a \<Rightarrow> ('f, 'b) parser" where
  "loop step x = (\<lambda>ts. iterate (length (ts_tokens ts) + 1) step x ts)"

text \<open>The loops that parse one more item while the given token is there.\<close>

definition while_eat :: "'f tok \<Rightarrow> ('f, 'a) parser \<Rightarrow> 'a list \<Rightarrow> ('f, 'a list) parser" where
  "while_eat sep item = loop (\<lambda>xs.
     bindp (ts_eat_if sep) (\<lambda>more.
     if more then bindp item (\<lambda>x. ret (Inl (xs @ [x]))) else ret (Inr xs)))"

definition comma_separated :: "('f, 'a) parser \<Rightarrow> ('f, 'a list) parser" where
  "comma_separated item = bindp item (\<lambda>x. while_eat TComma item [x])"

end
