(* ===== verification/Parser_Patterns.thy ===== *)
theory Parser_Patterns
  imports Token_Stream
begin

text \<open>
  \<open>crates/graphforge-cypher/src/parser/patterns.rs\<close>: path, node and relationship patterns. The parser is recursive
  through expressions, patterns and subqueries; a function that calls one of these gets it from the record \<open>grammar\<close>,
  which also has the parameters of the messages. \<open>Parser_Clauses\<close> ties the knot.
\<close>

type_synonym 'f exp = "(span, 'f) expr"
type_synonym 'f node = "(span, 'f exp) node_pattern"
type_synonym 'f rel = "(span, 'f exp) rel_pattern"
type_synonym 'f path = "(span, 'f exp) path_pattern"
type_synonym 'f query = "(span, 'f exp) ast_query"

record 'f grammar =
  g_fmt :: "'f fmt_text"
  g_expr :: "nat \<Rightarrow> ('f, 'f exp) parser"
  g_pattern :: "('f, 'f path) parser"
  g_subquery :: "('f, 'f query) parser"

abbreviation eat :: "'f grammar \<Rightarrow> 'f tok \<Rightarrow> ('f, span) parser" where
  "eat G \<equiv> ts_eat (g_fmt G)"

abbreviation err :: "'f grammar \<Rightarrow> string \<Rightarrow> ('f, 'a) parser" where
  "err G msg \<equiv> fail_here (g_fmt G) (lit msg)"

section \<open>Names\<close>

definition pattern_eat_ident :: "'f grammar \<Rightarrow> ('f, ustring) parser" where
  "pattern_eat_ident G =
     seeing (peek_ident 0) (\<lambda>t. case t of
       Some name \<Rightarrow> bindp ts_advance (\<lambda>_. ret name)
     | None \<Rightarrow> err G ''expected identifier'')"

definition label_table :: "(keyword_tok \<times> string) list" where
  "label_table =
    [(TMatch, ''Match''), (TReturn, ''Return''), (TWhere, ''Where''), (TWith, ''With''), (TAs, ''As''),
     (TDistinct, ''Distinct''), (TUnion, ''Union''), (TAll, ''All''), (TCreate, ''Create''), (TMerge, ''Merge''),
     (TOn, ''On''), (TSet, ''Set''), (TRemove, ''Remove''), (TDelete, ''Delete''), (TDetach, ''Detach''),
     (TCall, ''Call''), (TYield, ''Yield''), (TUnwind, ''Unwind''), (TOrder, ''Order''), (TBy, ''By''),
     (TSkip, ''Skip''), (TLimit, ''Limit''), (TIs, ''Is''), (TIn, ''In''), (TStarts, ''Starts''), (TEnds, ''Ends''),
     (TContains, ''Contains''), (TCase, ''Case''), (TWhen, ''When''), (TThen, ''Then''), (TElse, ''Else''),
     (TEnd, ''End''), (TTrue, ''True''), (TFalse, ''False''), (TNull, ''Null''), (TCount, ''Count''),
     (TExists, ''Exists''), (TNot, ''Not''), (TAnd, ''And''), (TOr, ''Or''), (TXor, ''Xor''),
     (TOptional, ''Optional''), (TAny, ''Any''), (TNone, ''None''), (TSingle, ''Single''), (TFilter, ''Filter''),
     (TExtract, ''Extract''), (TReduce, ''Reduce''), (TShortestPath, ''ShortestPath''),
     (TAllShortestPaths, ''AllShortestPaths''), (TAsc, ''Asc''), (TDesc, ''Desc''), (TAscending, ''Ascending''),
     (TDescending, ''Descending'')]"

definition tok_as_label_str :: "'f tok \<Rightarrow> ustring option" where
  "tok_as_label_str tok = map_option (\<lambda>s. lit s) (Option.bind (keyword_of tok) (map_of label_table))"

text \<open>A name that is an identifier, or a keyword taken for its string in a table, with the messages for other tokens.\<close>

definition eat_name :: "'f grammar \<Rightarrow> ('f tok \<Rightarrow> ustring option) \<Rightarrow> string \<Rightarrow> string \<Rightarrow> ('f, ustring) parser" where
  "eat_name G name_of msg eof_msg =
     seeing ts_peek (\<lambda>t. case t of
       None \<Rightarrow> err G eof_msg
     | Some tok \<Rightarrow> (case ident_of tok of
         Some name \<Rightarrow> bindp ts_advance (\<lambda>_. ret name)
       | None \<Rightarrow> (case name_of tok of
           Some kw \<Rightarrow> bindp ts_advance (\<lambda>_. ret kw)
         | None \<Rightarrow> err G msg)))"

definition pattern_eat_label_name :: "'f grammar \<Rightarrow> ('f, ustring) parser" where
  "pattern_eat_label_name G =
     eat_name G tok_as_label_str ''expected label or type name'' ''expected label or type name, found end of input''"

section \<open>Hops\<close>

definition pattern_to_u32 :: "int \<Rightarrow> span \<Rightarrow> ('f, nat) parser" where
  "pattern_to_u32 n span =
     (if 0 \<le> n \<and> n < 2 ^ 32 then ret (nat n)
      else fail (parse_error_new InvalidNumericLiteral span (lit ''hop count '' @ int_text n @ lit '' out of range for u32'')))"

definition parse_u32_lit :: "'f grammar \<Rightarrow> ('f, nat) parser" where
  "parse_u32_lit G =
     seeing peek_int (\<lambda>t. case t of
       Some n \<Rightarrow> bindp ts_take (\<lambda>(l, _, r). pattern_to_u32 n (l, r))
     | None \<Rightarrow> err G ''expected integer for hop count'')"

definition parse_hop_range :: "'f grammar \<Rightarrow> ('f, nat option \<times> nat option) parser" where
  "parse_hop_range G =
     seeing (ts_at TDotDot) (\<lambda>dots. seeing peek_int (\<lambda>t.
       if dots then
         bindp ts_advance (\<lambda>_.
         seeing peek_int (\<lambda>t. case t of
           Some _ \<Rightarrow> bindp (parse_u32_lit G) (\<lambda>max. ret (None, Some max))
         | None \<Rightarrow> ret (Some 1, None)))
       else (case t of
         Some n \<Rightarrow>
           bindp ts_take (\<lambda>(l, _, r).
           bindp (pattern_to_u32 n (l, r)) (\<lambda>min.
           bindp (ts_eat_if TDotDot) (\<lambda>range.
           if range then
             seeing peek_int (\<lambda>t. case t of
               Some _ \<Rightarrow> bindp (parse_u32_lit G) (\<lambda>max. ret (Some min, Some max))
             | None \<Rightarrow> ret (Some min, None))
           else ret (Some min, Some min))))
       | None \<Rightarrow> ret (Some 1, None))))"

section \<open>Relationships\<close>

type_synonym 'f rel_detail = "ustring option \<times> ustring list \<times> nat option \<times> nat option \<times> 'f exp option"

text \<open>The variable and the property map that node and relationship patterns may have.\<close>

definition opt_var :: "'f grammar \<Rightarrow> ('f, ustring option) parser" where
  "opt_var G =
     seeing (peek_ident 0) (\<lambda>t.
       if t \<noteq> None then bindp (pattern_eat_ident G) (\<lambda>name. ret (Some name)) else ret None)"

definition opt_properties :: "'f grammar \<Rightarrow> ('f, 'f exp option) parser" where
  "opt_properties G =
     seeing (ts_at TLBrace) (\<lambda>brace.
       if brace then bindp (g_expr G 0) (\<lambda>properties. ret (Some properties)) else ret None)"

definition parse_rel_types :: "'f grammar \<Rightarrow> ('f, ustring list) parser" where
  "parse_rel_types G =
     bindp (ts_eat_if TColon) (\<lambda>colon.
     if colon then
       bindp (pattern_eat_label_name G) (\<lambda>first.
       while_eat TPipe (bindp (ts_eat_if TColon) (\<lambda>_. pattern_eat_label_name G)) [first])
     else ret [])"

definition parse_rel_detail :: "'f grammar \<Rightarrow> ('f, 'f rel_detail) parser" where
  "parse_rel_detail G =
     bindp (opt_var G) (\<lambda>var.
     bindp (parse_rel_types G) (\<lambda>types.
     bindp (ts_eat_if TStar) (\<lambda>star.
     bindp (if star then parse_hop_range G else ret (None, None)) (\<lambda>(min_hops, max_hops).
     bindp (opt_properties G) (\<lambda>properties.
     ret (var, types, min_hops, max_hops, properties))))))"

definition parse_rel_pattern :: "'f grammar \<Rightarrow> ('f, 'f rel) parser" where
  "parse_rel_pattern G =
     seeing ts_current_pos (\<lambda>start. seeing ts_peek (\<lambda>t.
       if t = Some TRelOpen then
         bindp ts_advance (\<lambda>_.
         bindp (parse_rel_detail G) (\<lambda>(var, types, min_hops, max_hops, properties).
         bindp (eat G TRBracket) (\<lambda>_.
         bindp (ts_eat_if TRightArrow) (\<lambda>right.
         bindp (if right then ret DirOut
                else bindp (ts_eat_if TMinus) (\<lambda>minus.
                  if minus then ret DirUndirected else err G ''expected `->` or `-` after `]`'')) (\<lambda>direction.
         seeing ts_current_pos (\<lambda>stop.
         ret (RelPattern var types direction min_hops max_hops properties (start, stop))))))))
       else if t = Some TLeftArrow then
         bindp ts_advance (\<lambda>_.
         bindp (ts_eat_if TLBracket) (\<lambda>bracket.
         if bracket then
           bindp (parse_rel_detail G) (\<lambda>(var, types, min_hops, max_hops, properties).
           bindp (eat G TRBracket) (\<lambda>_.
           bindp (ts_eat_if TMinus) (\<lambda>minus.
           bindp (if minus then ret DirIn
                  else bindp (ts_eat_if TRightArrow) (\<lambda>right.
                    if right then ret DirUndirected
                    else err G ''expected `-` after `]` in incoming relationship pattern'')) (\<lambda>direction.
           seeing ts_current_pos (\<lambda>stop.
           ret (RelPattern var types direction min_hops max_hops properties (start, stop)))))))
         else
           bindp (ts_eat_if TRightArrow) (\<lambda>right.
           bindp (if right then ret DirUndirected else bindp (eat G TMinus) (\<lambda>_. ret DirIn)) (\<lambda>direction.
           seeing ts_current_pos (\<lambda>stop.
           ret (RelPattern None [] direction None None None (start, stop)))))))
       else if t = Some TMinus then
         bindp ts_advance (\<lambda>_.
         bindp (ts_eat_if TRightArrow) (\<lambda>right.
         if right then
           seeing ts_current_pos (\<lambda>stop. ret (RelPattern None [] DirOut None None None (start, stop)))
         else
           bindp (ts_eat_if TMinus) (\<lambda>minus.
           if minus then
             seeing ts_current_pos (\<lambda>stop. ret (RelPattern None [] DirUndirected None None None (start, stop)))
           else err G ''expected `->` or `-` after `-`'')))
       else err G ''expected relationship pattern (`-`, `<-`, or `-[`)''))"

section \<open>Nodes and paths\<close>

definition parse_node_pattern_inner :: "'f grammar \<Rightarrow> ('f, 'f node) parser" where
  "parse_node_pattern_inner G =
     seeing ts_current_pos (\<lambda>start.
     bindp (eat G TLParen) (\<lambda>_.
     bindp (opt_var G) (\<lambda>var.
     bindp (while_eat TColon (pattern_eat_label_name G) []) (\<lambda>labels.
     bindp (opt_properties G) (\<lambda>properties.
     bindp (eat G TRParen) (\<lambda>(_, r).
     ret (NodePattern var labels properties (start, r))))))))"

definition is_relationship_start :: "'f tok option \<Rightarrow> bool" where
  "is_relationship_start t \<longleftrightarrow> t = Some TRelOpen \<or> t = Some TMinus \<or> t = Some TLeftArrow"

definition parse_path_elements :: "'f grammar \<Rightarrow> (span, 'f exp) path_element list \<Rightarrow> ('f, (span, 'f exp) path_element list) parser" where
  "parse_path_elements G = loop (\<lambda>elements.
     seeing ts_peek (\<lambda>t.
       if is_relationship_start t then
         bindp (parse_rel_pattern G) (\<lambda>rel.
         bindp (parse_node_pattern_inner G) (\<lambda>node.
         ret (Inl (elements @ [PRel rel, PNode node]))))
       else ret (Inr elements)))"

definition parse_path_var :: "'f grammar \<Rightarrow> ('f, ustring option) parser" where
  "parse_path_var G =
     seeing (\<lambda>ts. peek_ident 0 ts \<noteq> None \<and> ts_peek_n 1 ts = Some TEq) (\<lambda>named.
       if named then
         bindp (pattern_eat_ident G) (\<lambda>name.
         bindp (eat G TEq) (\<lambda>_.
         ret (Some name)))
       else ret None)"

definition parse_pattern_inner :: "'f grammar \<Rightarrow> ('f, 'f path) parser" where
  "parse_pattern_inner G =
     seeing ts_current_pos (\<lambda>start.
     bindp (parse_path_var G) (\<lambda>var.
     seeing (peek_keyword_in [TShortestPath, TAllShortestPaths]) (\<lambda>shortest.
       if shortest then
         bindp ts_advance (\<lambda>_.
         bindp (eat G TLParen) (\<lambda>_.
         bindp (g_pattern G) (\<lambda>pattern.
         bindp (eat G TRParen) (\<lambda>_.
         seeing (ts_span_from start) (\<lambda>span.
         bindp (record_unsupported ShortestPath span) (\<lambda>_.
         ret (PathPattern var (p_elements pattern) span)))))))
       else
         bindp (parse_node_pattern_inner G) (\<lambda>first.
         bindp (parse_path_elements G [PNode first]) (\<lambda>elements.
         seeing (ts_span_from start) (\<lambda>span.
         ret (PathPattern var elements span)))))))"

definition parse_pattern_list_inner :: "'f grammar \<Rightarrow> ('f, 'f path list) parser" where
  "parse_pattern_list_inner G = comma_separated (g_pattern G)"

definition parse_pattern :: "'f grammar \<Rightarrow> ('f, 'f path) parser" where
  "parse_pattern G = bindp (parse_pattern_inner G) finish_supported"

definition parse_pattern_list :: "'f grammar \<Rightarrow> ('f, 'f path list) parser" where
  "parse_pattern_list G = bindp (parse_pattern_list_inner G) finish_supported"

definition parse_node_pattern :: "'f grammar \<Rightarrow> ('f, 'f node) parser" where
  "parse_node_pattern G = bindp (parse_node_pattern_inner G) finish_supported"

end
