(* ===== verification/Parser_Exprs.thy ===== *)
theory Parser_Exprs
  imports Parser_Patterns
begin

text \<open>
  \<open>crates/graphforge-cypher/src/parser/expr.rs\<close>: expressions, by binding powers. The functions stand in the order in
  which they call each other.
\<close>

section \<open>Binding powers\<close>

datatype infix_op =
  IOr | IXor | IAnd | IEq | INeq | ILt | ILte | IGt | IGte | IRegexMatch | IIsNull | IIsNotNull | IIn | INotIn |
  IStartsWith | IEndsWith | IContains | IAdd | ISub | IMul | IDiv | IMod | IPow | IDot | ISubscript | ILabelPredicate

definition infix_table :: "('f tok \<times> infix_op) list" where
  "infix_table =
    [(TKeyword TOr, IOr), (TKeyword TXor, IXor), (TKeyword TAnd, IAnd), (TEq, IEq), (TNeq, INeq), (TLt, ILt), (TLte, ILte),
     (TGt, IGt), (TGte, IGte), (TRegexMatch, IRegexMatch), (TKeyword TIsNull, IIsNull), (TKeyword TIsNotNull, IIsNotNull),
     (TKeyword TIn, IIn), (TKeyword TNotIn, INotIn), (TKeyword TStartsWith, IStartsWith), (TKeyword TEndsWith, IEndsWith),
     (TKeyword TContains, IContains), (TPlus, IAdd), (TMinus, ISub), (TStar, IMul), (TSlash, IDiv), (TPercent, IMod),
     (TCaret, IPow), (TDot, IDot), (TLBracket, ISubscript), (TColon, ILabelPredicate)]"

definition peek_infix_op :: "'f token_stream \<Rightarrow> infix_op option" where
  "peek_infix_op ts = Option.bind (ts_peek ts) (map_of infix_table)"

definition infix_binding_power :: "infix_op \<Rightarrow> nat \<times> nat" where
  "infix_binding_power op =
     (case op of
        IOr \<Rightarrow> (10, 11)
      | IXor \<Rightarrow> (20, 21)
      | IAnd \<Rightarrow> (30, 31)
      | IEq \<Rightarrow> (40, 41) | INeq \<Rightarrow> (40, 41) | ILt \<Rightarrow> (40, 41) | ILte \<Rightarrow> (40, 41) | IGt \<Rightarrow> (40, 41) | IGte \<Rightarrow> (40, 41)
      | IRegexMatch \<Rightarrow> (40, 41)
      | IIsNull \<Rightarrow> (45, 46) | IIsNotNull \<Rightarrow> (45, 46) | IIn \<Rightarrow> (45, 46) | INotIn \<Rightarrow> (45, 46)
      | IStartsWith \<Rightarrow> (45, 46) | IEndsWith \<Rightarrow> (45, 46) | IContains \<Rightarrow> (45, 46)
      | IAdd \<Rightarrow> (50, 51) | ISub \<Rightarrow> (50, 51)
      | IMul \<Rightarrow> (60, 61) | IDiv \<Rightarrow> (60, 61) | IMod \<Rightarrow> (60, 61)
      | IPow \<Rightarrow> (70, 71)
      | IDot \<Rightarrow> (80, 81) | ISubscript \<Rightarrow> (80, 81) | ILabelPredicate \<Rightarrow> (80, 81))"

definition binary_table :: "(infix_op \<times> binary_op_kind) list" where
  "binary_table =
    [(IOr, BOr), (IXor, BXor), (IAnd, BAnd), (IEq, BEq), (INeq, BNeq), (ILt, BLt), (ILte, BLte), (IGt, BGt), (IGte, BGte),
     (IAdd, BAdd), (ISub, BSub), (IMul, BMul), (IDiv, BDiv), (IMod, BMod), (IPow, BPow)]"

definition infix_op_to_binary_kind :: "infix_op \<Rightarrow> binary_op_kind option" where
  "infix_op_to_binary_kind op = map_of binary_table op"

section \<open>Names and numbers\<close>

definition expr_to_i64 :: "int \<Rightarrow> span \<Rightarrow> ('f, int) parser" where
  "expr_to_i64 n span =
     (if - (2 ^ 63) \<le> n \<and> n < 2 ^ 63 then ret n
      else fail (parse_error_new InvalidNumericLiteral span (lit ''integer literal out of range for i64: '' @ int_text n)))"

definition negate_i64_magnitude :: "int \<Rightarrow> span \<Rightarrow> ('f, int) parser" where
  "negate_i64_magnitude n span =
     (if n = 2 ^ 63 then ret (- (2 ^ 63)) else bindp (expr_to_i64 n span) (\<lambda>positive. ret (- positive)))"

definition keyword_names :: "(keyword_tok \<times> string) list" where
  "keyword_names =
    [(TCount, ''count''), (TExists, ''exists''), (TAll, ''all''), (TAny, ''any''), (TNone, ''none''), (TSingle, ''single''),
     (TFilter, ''filter''), (TExtract, ''extract''), (TReduce, ''reduce''), (TShortestPath, ''shortestPath''),
     (TAllShortestPaths, ''allShortestPaths'')]"

definition tok_keyword_name :: "keyword_tok \<Rightarrow> ustring" where
  "tok_keyword_name kw = (case map_of keyword_names kw of Some s \<Rightarrow> lit s | None \<Rightarrow> [])"

definition keyword_str_table :: "(keyword_tok \<times> string) list" where
  "keyword_str_table =
    [(TMatch, ''match''), (TReturn, ''return''), (TWhere, ''where''), (TWith, ''with''), (TAs, ''as''),
     (TDistinct, ''distinct''), (TUnion, ''union''), (TAll, ''all''), (TCreate, ''create''), (TMerge, ''merge''),
     (TOn, ''on''), (TSet, ''set''), (TRemove, ''remove''), (TDelete, ''delete''), (TDetach, ''detach''),
     (TCall, ''call''), (TYield, ''yield''), (TUnwind, ''unwind''), (TOrder, ''order''), (TBy, ''by''),
     (TSkip, ''skip''), (TLimit, ''limit''), (TIs, ''is''), (TIn, ''in''), (TStarts, ''starts''), (TEnds, ''ends''),
     (TContains, ''contains''), (TCase, ''case''), (TWhen, ''when''), (TThen, ''then''), (TElse, ''else''),
     (TEnd, ''end''), (TTrue, ''true''), (TFalse, ''false''), (TNull, ''null''), (TCount, ''count''),
     (TExists, ''exists''), (TNot, ''not''), (TAnd, ''and''), (TOr, ''or''), (TXor, ''xor''),
     (TOptional, ''optional''), (TAny, ''any''), (TNone, ''none''), (TSingle, ''single''), (TFilter, ''filter''),
     (TExtract, ''extract''), (TReduce, ''reduce''), (TShortestPath, ''shortestPath''),
     (TAllShortestPaths, ''allShortestPaths''), (TAsc, ''asc''), (TDesc, ''desc''), (TAscending, ''ascending''),
     (TDescending, ''descending'')]"

definition tok_as_keyword_str :: "'f tok \<Rightarrow> string option" where
  "tok_as_keyword_str tok = Option.bind (keyword_of tok) (map_of keyword_str_table)"

definition to_ascii_lowercase :: "nat \<Rightarrow> nat" where
  "to_ascii_lowercase c = (if 65 \<le> c \<and> c \<le> 90 then c + 32 else c)"

definition eat_ident_with_span :: "'f grammar \<Rightarrow> ('f, ustring \<times> span) parser" where
  "eat_ident_with_span G =
     bindp ts_advance (\<lambda>token. case token of
       None \<Rightarrow> err G ''expected identifier, found end of input''
     | Some (l, tok, r) \<Rightarrow> (case ident_of tok of
         Some name \<Rightarrow> ret (name, (l, r))
       | None \<Rightarrow> (case tok_as_keyword_str tok of
           Some kw \<Rightarrow>
             seeing (ts_text (l, r)) (\<lambda>raw.
             if raw = [] then ret (map to_ascii_lowercase (lit kw), (l, r)) else ret (raw, (l, r)))
         | None \<Rightarrow> fail (parse_error_new (UnexpectedToken (f_debug_tok (g_fmt G) tok) [lit ''identifier'']) (l, r)
             (lit ''expected identifier'')))))"

definition eat_ident :: "'f grammar \<Rightarrow> ('f, ustring) parser" where
  "eat_ident G = bindp (eat_ident_with_span G) (\<lambda>(name, _). ret name)"

text \<open>The placeholder of a construct that is recognized but not supported.\<close>

definition unsupported :: "nat \<Rightarrow> unsupported_cypher_feature \<Rightarrow> ('f, 'f exp) parser" where
  "unsupported start feature =
     seeing (ts_span_from start) (\<lambda>span.
     bindp (record_unsupported feature span) (\<lambda>_.
     ret (ELiteral (LNull span))))"

section \<open>Calls and collections\<close>

definition parse_function_call_args :: "'f grammar \<Rightarrow> ustring list \<Rightarrow> nat \<Rightarrow> ('f, 'f exp) parser" where
  "parse_function_call_args G name start =
     bindp (ts_eat_if TStar) (\<lambda>star.
     if star then
       bindp (eat G TRParen) (\<lambda>_.
       seeing (ts_span_from start) (\<lambda>span.
       ret (EFunctionCall name False True [] span)))
     else
       bindp (ts_eat_if (TKeyword TDistinct)) (\<lambda>distinct.
       seeing (ts_at TRParen) (\<lambda>empty.
       bindp (if empty then ret [] else comma_separated (g_expr G 0)) (\<lambda>args.
       bindp (eat G TRParen) (\<lambda>_.
       seeing (ts_span_from start) (\<lambda>span.
       ret (EFunctionCall name distinct False args span)))))))"

fun dotted_segments :: "'f tok list \<Rightarrow> ustring list" where
  "dotted_segments (d # i # r) =
     (case ident_of i of Some seg \<Rightarrow> if d = TDot then seg # dotted_segments r else [] | None \<Rightarrow> [])"
| "dotted_segments _ = []"

definition namespaced_call_segments :: "ustring \<Rightarrow> 'f token_stream \<Rightarrow> ustring list option" where
  "namespaced_call_segments first ts =
     (let segments = dotted_segments (map (\<lambda>(_, tok, _). tok) (drop (ts_pos ts) (ts_tokens ts)))
      in if segments \<noteq> [] \<and> ts_peek_n (2 * length segments) ts = Some TLParen then Some (first # segments) else None)"

definition parse_identifier :: "'f grammar \<Rightarrow> ustring \<Rightarrow> nat \<Rightarrow> ('f, 'f exp) parser" where
  "parse_identifier G name start =
     bindp ts_advance (\<lambda>_.
     bindp (ts_eat_if TLParen) (\<lambda>call.
     if call then parse_function_call_args G [name] start
     else seeing (namespaced_call_segments name) (\<lambda>t. case t of
       Some segments \<Rightarrow>
         bindp (ts_advance_n (2 * (length segments - 1))) (\<lambda>_.
         bindp (eat G TLParen) (\<lambda>_.
         parse_function_call_args G segments start))
     | None \<Rightarrow>
         seeing (ts_span_from start) (\<lambda>span.
         ret (EVar name span)))))"

text \<open>The optional parts of comprehensions: a keyword or symbol, and an expression.\<close>

definition opt_after :: "'f grammar \<Rightarrow> 'f tok \<Rightarrow> ('f, 'f exp option) parser" where
  "opt_after G tok =
     bindp (ts_eat_if tok) (\<lambda>found.
     if found then bindp (g_expr G 0) (\<lambda>e. ret (Some e)) else ret None)"

definition parse_quantifier :: "'f grammar \<Rightarrow> quantifier_kind \<Rightarrow> nat \<Rightarrow> ('f, 'f exp) parser" where
  "parse_quantifier G kind start =
     seeing (peek_ident 0) (\<lambda>var.
     bindp ts_advance (\<lambda>_.
     bindp (eat G (TKeyword TIn)) (\<lambda>_.
     bindp (g_expr G 0) (\<lambda>list.
     bindp (eat G (TKeyword TWhere)) (\<lambda>_.
     bindp (g_expr G 0) (\<lambda>predicate.
     bindp (eat G TRParen) (\<lambda>_.
     seeing (ts_span_from start) (\<lambda>span.
     ret (EQuantifier kind (the var) list predicate span)))))))))"

definition quantifier_of :: "keyword_tok \<Rightarrow> quantifier_kind" where
  "quantifier_of kw = (if kw = TAll then QAll else if kw = TAny then QAny else if kw = TNone then QNone else QSingle)"

text \<open>The start of \<open>var IN\<close>.\<close>

definition at_var_in :: "'f token_stream \<Rightarrow> bool" where
  "at_var_in ts \<longleftrightarrow> peek_ident 0 ts \<noteq> None \<and> ts_peek_n 1 ts = Some (TKeyword TIn)"

definition parse_quantifier_or_call :: "'f grammar \<Rightarrow> keyword_tok \<Rightarrow> nat \<Rightarrow> ('f, 'f exp) parser" where
  "parse_quantifier_or_call G kw start =
     bindp ts_advance (\<lambda>_.
     bindp (eat G TLParen) (\<lambda>_.
     seeing at_var_in (\<lambda>quantifier.
       if quantifier then parse_quantifier G (quantifier_of kw) start
       else parse_function_call_args G [tok_keyword_name kw] start)))"

definition try_parse_pattern_comprehension :: "'f grammar \<Rightarrow> nat \<Rightarrow> ('f, 'f exp option) parser" where
  "try_parse_pattern_comprehension G start =
     bindp (on_clone (
       seeing (\<lambda>ts. peek_ident 0 ts \<noteq> None \<and> ts_peek_n 1 ts = Some TEq) (\<lambda>named.
       bindp (if named then ts_advance_n 2 else ret ()) (\<lambda>_.
       bindp (parse_node_pattern_inner G) (\<lambda>_.
       seeing ts_peek ret))))) (\<lambda>shape.
     if (case shape of None \<Rightarrow> True | Some t \<Rightarrow> \<not> is_relationship_start t) then ret None
     else
       bindp (g_pattern G) (\<lambda>pattern.
       bindp (opt_after G (TKeyword TWhere)) (\<lambda>filter.
       bindp (eat G TPipe) (\<lambda>_.
       bindp (g_expr G 0) (\<lambda>projection.
       bindp (eat G TRBracket) (\<lambda>_.
       seeing (ts_span_from start) (\<lambda>span.
       ret (Some (EPatternComprehension (p_var pattern) (PathPattern None (p_elements pattern) (p_span pattern))
         filter projection span)))))))))"

definition parse_list_or_comprehension :: "'f grammar \<Rightarrow> nat \<Rightarrow> ('f, 'f exp) parser" where
  "parse_list_or_comprehension G start =
     bindp (ts_eat_if TRBracket) (\<lambda>empty.
     if empty then seeing (ts_span_from start) (\<lambda>span. ret (EList [] span))
     else
       bindp (try_parse_pattern_comprehension G start) (\<lambda>comprehension. case comprehension of
         Some e \<Rightarrow> ret e
       | None \<Rightarrow>
           seeing at_var_in (\<lambda>list_comprehension.
           if list_comprehension then
             seeing (peek_ident 0) (\<lambda>var.
             bindp ts_advance (\<lambda>_.
             bindp (eat G (TKeyword TIn)) (\<lambda>_.
             bindp (g_expr G 0) (\<lambda>list.
             bindp (opt_after G (TKeyword TWhere)) (\<lambda>filter.
             bindp (opt_after G TPipe) (\<lambda>projection.
             bindp (eat G TRBracket) (\<lambda>_.
             seeing (ts_span_from start) (\<lambda>span.
             ret (EListComprehension (the var) list filter projection span)))))))))
           else
             bindp (comma_separated (g_expr G 0)) (\<lambda>elements.
             bindp (eat G TRBracket) (\<lambda>_.
             seeing (ts_span_from start) (\<lambda>span.
             ret (EList elements span)))))))"

definition parse_map_entries :: "'f grammar \<Rightarrow> ('f, (ustring \<times> 'f exp) list \<times> (ustring \<times> span) list) parser" where
  "parse_map_entries G = loop (\<lambda>(entries, key_spans).
     bindp (eat_ident_with_span G) (\<lambda>(key, key_span).
     bindp (eat G TColon) (\<lambda>_.
     bindp (g_expr G 0) (\<lambda>val.
     if key \<in> fst ` set entries
     then fail_here (g_fmt G) (lit ''duplicate key '' @ [39] @ key @ [39] @ lit '' in map literal'')
     else
       bindp (ts_eat_if TComma) (\<lambda>more.
       if more then ret (Inl (entries @ [(key, val)], key_spans @ [(key, key_span)]))
       else ret (Inr (entries @ [(key, val)], key_spans @ [(key, key_span)]))))))) ([], [])"

definition parse_map_literal :: "'f grammar \<Rightarrow> nat \<Rightarrow> ('f, 'f exp) parser" where
  "parse_map_literal G start =
     seeing (ts_at TRBrace) (\<lambda>empty.
     bindp (if empty then ret ([], []) else parse_map_entries G) (\<lambda>(entries, key_spans).
     bindp (eat G TRBrace) (\<lambda>_.
     seeing (ts_span_from start) (\<lambda>span.
     ret (EMap entries key_spans span)))))"

definition parse_when_clause :: "'f grammar \<Rightarrow> ('f, (span, 'f exp) when_clause) parser" where
  "parse_when_clause G =
     seeing ts_current_pos (\<lambda>when_start.
     bindp (g_expr G 0) (\<lambda>condition.
     bindp (eat G (TKeyword TThen)) (\<lambda>_.
     bindp (g_expr G 0) (\<lambda>result.
     seeing (ts_span_from when_start) (\<lambda>span.
     ret (WhenClause condition result span))))))"

definition parse_case_expr :: "'f grammar \<Rightarrow> nat \<Rightarrow> ('f, 'f exp) parser" where
  "parse_case_expr G start =
     seeing (ts_at (TKeyword TWhen)) (\<lambda>searched.
     bindp (if searched then ret None else bindp (g_expr G 0) (\<lambda>e. ret (Some e))) (\<lambda>subject.
     bindp (while_eat (TKeyword TWhen) (parse_when_clause G) []) (\<lambda>when_clauses.
     bindp (opt_after G (TKeyword TElse)) (\<lambda>else_expr.
     bindp (eat G (TKeyword TEnd)) (\<lambda>_.
     seeing (ts_span_from start) (\<lambda>span.
     ret (ECase subject when_clauses else_expr span)))))))"

section \<open>Prefix forms\<close>

definition exists_clause_keywords :: "keyword_tok list" where
  "exists_clause_keywords =
     [TMatch, TOptional, TWith, TReturn, TUnwind, TCreate, TMerge, TSet, TRemove, TDelete, TDetach, TCall]"

definition parse_exists :: "'f grammar \<Rightarrow> nat \<Rightarrow> ('f, 'f exp) parser" where
  "parse_exists G start =
     bindp ts_advance (\<lambda>_.
     bindp (ts_eat_if TLBrace) (\<lambda>block.
     if block then
       seeing (peek_keyword_in exists_clause_keywords) (\<lambda>full.
       bindp (if full then bindp (g_subquery G) (\<lambda>query. ret (FullBody query))
              else bindp (g_pattern G) (\<lambda>pattern.
                   bindp (opt_after G (TKeyword TWhere)) (\<lambda>filter.
                   ret (SimpleBody pattern filter)))) (\<lambda>body.
       bindp (eat G TRBrace) (\<lambda>_.
       seeing (ts_span_from start) (\<lambda>span.
       ret (EExistentialSubquery body span)))))
     else
       bindp (eat G TLParen) (\<lambda>_.
       parse_function_call_args G [lit ''exists''] start)))"

definition parse_count_block :: "'f grammar \<Rightarrow> nat \<Rightarrow> ('f, 'f exp) parser" where
  "parse_count_block G start = bindp (parse_exists G start) (\<lambda>_. unsupported start CountSubquery)"

definition parse_reduce :: "'f grammar \<Rightarrow> nat \<Rightarrow> ('f, 'f exp) parser" where
  "parse_reduce G start =
     bindp ts_advance (\<lambda>_.
     bindp (eat G TLParen) (\<lambda>_.
     bindp (eat_ident G) (\<lambda>_.
     bindp (eat G TEq) (\<lambda>_.
     bindp (g_expr G 0) (\<lambda>_.
     bindp (eat G TComma) (\<lambda>_.
     bindp (eat_ident G) (\<lambda>_.
     bindp (eat G (TKeyword TIn)) (\<lambda>_.
     bindp (g_expr G 0) (\<lambda>_.
     bindp (eat G TPipe) (\<lambda>_.
     bindp (g_expr G 0) (\<lambda>_.
     bindp (eat G TRParen) (\<lambda>_.
     unsupported start Reduce))))))))))))"

definition parse_shortest_path :: "'f grammar \<Rightarrow> nat \<Rightarrow> ('f, 'f exp) parser" where
  "parse_shortest_path G start =
     bindp ts_advance (\<lambda>_.
     bindp (eat G TLParen) (\<lambda>_.
     bindp (g_pattern G) (\<lambda>_.
     bindp (eat G TRParen) (\<lambda>_.
     unsupported start ShortestPath))))"

definition parse_keyword_function :: "'f grammar \<Rightarrow> keyword_tok \<Rightarrow> nat \<Rightarrow> ('f, 'f exp) parser" where
  "parse_keyword_function G kw start =
     bindp ts_advance (\<lambda>_.
     bindp (ts_eat_if TLParen) (\<lambda>call.
     if call then parse_function_call_args G [tok_keyword_name kw] start
     else seeing (ts_span_from start) (\<lambda>span. ret (EVar (tok_keyword_name kw) span))))"

definition try_parse_pattern_predicate :: "'f grammar \<Rightarrow> nat \<Rightarrow> ('f, 'f exp option) parser" where
  "try_parse_pattern_predicate G start =
     bindp (on_clone (bindp (parse_node_pattern_inner G) (\<lambda>_. seeing ts_peek ret))) (\<lambda>probe.
     if (case probe of None \<Rightarrow> True | Some t \<Rightarrow> \<not> is_relationship_start t) then ret None
     else
       bindp (g_pattern G) (\<lambda>pattern.
       seeing (ts_span_from start) (\<lambda>span.
       ret (Some (EPatternPredicate pattern span)))))"

definition parse_negation :: "'f grammar \<Rightarrow> nat \<Rightarrow> ('f, 'f exp) parser" where
  "parse_negation G start =
     bindp ts_advance (\<lambda>_.
     seeing peek_int (\<lambda>t. case t of
       Some n \<Rightarrow>
         bindp ts_take (\<lambda>(l, _, r).
         bindp (negate_i64_magnitude n (l, r)) (\<lambda>value.
         ret (ELiteral (LInt value (start, r)))))
     | None \<Rightarrow>
         bindp (g_expr G 75) (\<lambda>e.
         seeing (ts_span_from start) (\<lambda>span.
         ret (EUnaryOp UNeg e span)))))"

definition parse_parenthesized :: "'f grammar \<Rightarrow> nat \<Rightarrow> ('f, 'f exp) parser" where
  "parse_parenthesized G start =
     bindp (try_parse_pattern_predicate G start) (\<lambda>predicate. case predicate of
       Some e \<Rightarrow> ret e
     | None \<Rightarrow>
         bindp ts_advance (\<lambda>_.
         bindp (g_expr G 0) (\<lambda>inner.
         bindp (eat G TRParen) (\<lambda>_.
         seeing (ts_span_from start) (\<lambda>span.
         ret (EParenthesized inner span))))))"

text \<open>A literal of one token, from the token's span.\<close>

definition parse_literal :: "(span \<Rightarrow> 'f exp) \<Rightarrow> ('f, 'f exp) parser" where
  "parse_literal e = bindp ts_take (\<lambda>(l, _, r). ret (e (l, r)))"

definition parse_prefix_keyword :: "'f grammar \<Rightarrow> keyword_tok \<Rightarrow> nat \<Rightarrow> ('f, 'f exp) parser" where
  "parse_prefix_keyword G kw start =
     seeing (ts_peek_n 1) (\<lambda>second.
       if kw = TTrue then parse_literal (\<lambda>span. ELiteral (LBool True span))
       else if kw = TFalse then parse_literal (\<lambda>span. ELiteral (LBool False span))
       else if kw = TNull then parse_literal (\<lambda>span. ELiteral (LNull span))
       else if kw \<in> {TAll, TAny, TNone, TSingle} then parse_quantifier_or_call G kw start
       else if kw = TExists then parse_exists G start
       else if kw = TCount \<and> second = Some TLBrace then parse_count_block G start
       else if kw = TReduce \<and> second = Some TLParen then parse_reduce G start
       else if kw \<in> {TShortestPath, TAllShortestPaths} \<and> second = Some TLParen then parse_shortest_path G start
       else if kw \<in> {TCount, TFilter, TExtract, TReduce, TShortestPath, TAllShortestPaths} then parse_keyword_function G kw start
       else if kw = TNot then
         bindp ts_advance (\<lambda>_.
         bindp (g_expr G 35) (\<lambda>e.
         seeing (ts_span_from start) (\<lambda>span.
         ret (EUnaryOp UNot e span))))
       else if kw = TCase then bindp ts_advance (\<lambda>_. parse_case_expr G start)
       else err G ''expected expression'')"

definition parse_prefix_tok :: "'f grammar \<Rightarrow> 'f tok \<Rightarrow> nat \<Rightarrow> ('f, 'f exp) parser" where
  "parse_prefix_tok G tok start =
     (case tok of
        TIntLit n \<Rightarrow>
          bindp ts_take (\<lambda>(l, _, r).
          bindp (expr_to_i64 n (l, r)) (\<lambda>value.
          ret (ELiteral (LInt value (l, r)))))
      | TFloatLit f \<Rightarrow> parse_literal (\<lambda>span. ELiteral (LFloat f span))
      | TStrLit s \<Rightarrow> parse_literal (\<lambda>span. ELiteral (LStr s span))
      | TParam name \<Rightarrow> parse_literal (\<lambda>span. EParam name span)
      | TIdent name \<Rightarrow> parse_identifier G name start
      | TKeyword kw \<Rightarrow> parse_prefix_keyword G kw start
      | TMinus \<Rightarrow> parse_negation G start
      | TLParen \<Rightarrow> parse_parenthesized G start
      | TLBracket \<Rightarrow> bindp ts_advance (\<lambda>_. parse_list_or_comprehension G start)
      | TLBrace \<Rightarrow> bindp ts_advance (\<lambda>_. parse_map_literal G start)
      | _ \<Rightarrow> err G ''expected expression'')"

definition parse_prefix :: "'f grammar \<Rightarrow> ('f, 'f exp) parser" where
  "parse_prefix G =
     seeing ts_current_pos (\<lambda>start.
     seeing ts_peek (\<lambda>t. case t of
       Some tok \<Rightarrow> parse_prefix_tok G tok start
     | None \<Rightarrow>
         seeing ts_current_span (\<lambda>span.
         fail (parse_error_new (UnexpectedEof [lit ''expression'']) span (lit ''expected expression, found end of input'')))))"

section \<open>Infix forms\<close>

fun comparison_tail :: "'f exp \<Rightarrow> 'f exp option" where
  "comparison_tail (EBinaryOp op left right span) =
     (if op \<in> {BEq, BNeq, BLt, BLte, BGt, BGte} then Some right
      else if op = BAnd then comparison_tail right else None)"
| "comparison_tail _ = None"

definition comparison_chain_tail :: "'f exp \<Rightarrow> infix_op \<Rightarrow> 'f exp option" where
  "comparison_chain_tail lhs step = (if step \<in> {IEq, INeq, ILt, ILte, IGt, IGte} then comparison_tail lhs else None)"

definition parse_binary :: "'f grammar \<Rightarrow> 'f exp \<Rightarrow> infix_op \<Rightarrow> binary_op_kind \<Rightarrow> nat \<Rightarrow> nat \<Rightarrow> ('f, 'f exp) parser" where
  "parse_binary G lhs op kind r_bp start =
     bindp ts_advance (\<lambda>_.
     bindp (g_expr G r_bp) (\<lambda>rhs.
     let span = (start, snd (expr_span rhs)) in
     case comparison_chain_tail lhs op of
       Some left \<Rightarrow> ret (EBinaryOp BAnd lhs (EBinaryOp kind left rhs span) span)
     | None \<Rightarrow> ret (EBinaryOp kind lhs rhs span)))"

text \<open>The predicates with an operand on the right.\<close>

definition parse_operand :: "'f grammar \<Rightarrow> nat \<Rightarrow> nat \<Rightarrow> ('f exp \<Rightarrow> span \<Rightarrow> 'f exp) \<Rightarrow> ('f, 'f exp) parser" where
  "parse_operand G r_bp start e =
     bindp ts_advance (\<lambda>_.
     bindp (g_expr G r_bp) (\<lambda>rhs.
     ret (e rhs (start, snd (expr_span rhs)))))"

definition parse_null_predicate :: "'f exp \<Rightarrow> bool \<Rightarrow> nat \<Rightarrow> ('f, 'f exp) parser" where
  "parse_null_predicate lhs negated start =
     bindp ts_advance (\<lambda>_.
     seeing ts_current_pos (\<lambda>stop.
     ret (EIsNull lhs negated (start, stop))))"

definition parse_property :: "'f grammar \<Rightarrow> 'f exp \<Rightarrow> nat \<Rightarrow> ('f, 'f exp) parser" where
  "parse_property G lhs start =
     bindp ts_advance (\<lambda>_.
     bindp (eat_ident G) (\<lambda>key.
     seeing ts_current_pos (\<lambda>stop.
     ret (EProperty (PropertyAccess lhs key (start, stop))))))"

definition parse_label_predicate :: "'f grammar \<Rightarrow> 'f exp \<Rightarrow> nat \<Rightarrow> ('f, 'f exp) parser" where
  "parse_label_predicate G lhs start =
     bindp ts_advance (\<lambda>_.
     bindp (eat_ident G) (\<lambda>label.
     seeing ts_current_pos (\<lambda>stop.
     case lhs of
       EVar name _ \<Rightarrow> ret (ELabelPredicate name [label] (start, stop))
     | ELabelPredicate name labels _ \<Rightarrow> ret (ELabelPredicate name (labels @ [label]) (start, stop))
     | _ \<Rightarrow> fail (parse_error_new (UnexpectedToken (f_debug_expr (g_fmt G) lhs) [lit ''variable before `:Label` predicate''])
         (start, stop) (lit ''`:Label` predicates require a variable'')))))"

definition parse_subscript :: "'f grammar \<Rightarrow> 'f exp \<Rightarrow> nat \<Rightarrow> ('f, 'f exp) parser" where
  "parse_subscript G lhs start =
     bindp ts_advance (\<lambda>_.
     bindp (ts_eat_if TDotDot) (\<lambda>open_start.
     if open_start then
       bindp (g_expr G 0) (\<lambda>hi.
       bindp (eat G TRBracket) (\<lambda>_.
       seeing ts_current_pos (\<lambda>stop.
       ret (EFunctionCall [lit ''_slice_from_start''] False False [lhs, hi] (start, stop)))))
     else
       bindp (g_expr G 0) (\<lambda>idx.
       bindp (ts_eat_if TDotDot) (\<lambda>slice.
       if slice then
         seeing (ts_at TRBracket) (\<lambda>open_end.
         bindp (if open_end then ret (''_slice_to_end'', [lhs, idx])
                else bindp (g_expr G 0) (\<lambda>hi. ret (''_slice'', [lhs, idx, hi]))) (\<lambda>(name, args).
         bindp (eat G TRBracket) (\<lambda>_.
         seeing ts_current_pos (\<lambda>stop.
         ret (EFunctionCall [lit name] False False args (start, stop))))))
       else
         bindp (eat G TRBracket) (\<lambda>_.
         seeing ts_current_pos (\<lambda>stop.
         ret (EFunctionCall [lit ''_subscript''] False False [lhs, idx] (start, stop))))))))"

definition parse_infix :: "'f grammar \<Rightarrow> 'f exp \<Rightarrow> infix_op \<Rightarrow> nat \<Rightarrow> ('f, 'f exp) parser" where
  "parse_infix G lhs op r_bp =
     (let start = fst (expr_span lhs)
      in case infix_op_to_binary_kind op of
           Some kind \<Rightarrow> parse_binary G lhs op kind r_bp start
         | None \<Rightarrow>
             if op = IRegexMatch then parse_operand G r_bp start (\<lambda>rhs span. ERegexMatch lhs rhs span)
             else if op = IIsNull then parse_null_predicate lhs False start
             else if op = IIsNotNull then parse_null_predicate lhs True start
             else if op = IIn then parse_operand G r_bp start (\<lambda>rhs span. EInList lhs rhs False span)
             else if op = INotIn then parse_operand G r_bp start (\<lambda>rhs span. EInList lhs rhs True span)
             else if op = IStartsWith then parse_operand G r_bp start (\<lambda>rhs span. EStringOp lhs SStartsWith rhs span)
             else if op = IEndsWith then parse_operand G r_bp start (\<lambda>rhs span. EStringOp lhs SEndsWith rhs span)
             else if op = IContains then parse_operand G r_bp start (\<lambda>rhs span. EStringOp lhs SContains rhs span)
             else if op = IDot then parse_property G lhs start
             else if op = ILabelPredicate then parse_label_predicate G lhs start
             else parse_subscript G lhs start)"

definition parse_infix_loop :: "'f grammar \<Rightarrow> nat \<Rightarrow> 'f exp \<Rightarrow> ('f, 'f exp) parser" where
  "parse_infix_loop G min_bp = loop (\<lambda>lhs.
     seeing peek_infix_op (\<lambda>t. case t of
       None \<Rightarrow> ret (Inr lhs)
     | Some op \<Rightarrow> (case infix_binding_power op of (l_bp, r_bp) \<Rightarrow>
         if l_bp < min_bp then ret (Inr lhs)
         else bindp (parse_infix G lhs op r_bp) (\<lambda>lhs. ret (Inl lhs)))))"

definition parse_expr_inner :: "'f grammar \<Rightarrow> nat \<Rightarrow> ('f, 'f exp) parser" where
  "parse_expr_inner G min_bp = bindp (parse_prefix G) (\<lambda>lhs. parse_infix_loop G min_bp lhs)"

definition parse_expr :: "'f grammar \<Rightarrow> nat \<Rightarrow> ('f, 'f exp) parser" where
  "parse_expr G min_bp = bindp (parse_expr_inner G min_bp) finish_supported"

end
