(* ===== verification/Parser_Clauses.thy ===== *)
theory Parser_Clauses
  imports Parser_Exprs
begin

text \<open>
  \<open>crates/graphforge-cypher/src/parser/clauses.rs\<close>: the clauses of a query and the query itself.
\<close>

type_synonym 'f return_items = "(span, 'f exp) return_item list"
type_synonym 'f clause = "(span, 'f exp) ast_clause"

section \<open>Names\<close>

definition clause_eat_ident :: "'f grammar \<Rightarrow> ('f, ustring) parser" where
  "clause_eat_ident G =
     seeing (peek_ident 0) (\<lambda>t. case t of
       Some name \<Rightarrow> bindp ts_advance (\<lambda>_. ret name)
     | None \<Rightarrow> err G ''expected identifier'')"

definition clause_eat_ident_with_span :: "'f grammar \<Rightarrow> ('f, ustring \<times> span) parser" where
  "clause_eat_ident_with_span G =
     seeing (peek_ident 0) (\<lambda>t. case t of
       Some name \<Rightarrow> bindp ts_take (\<lambda>(l, _, r). ret (name, (l, r)))
     | None \<Rightarrow> err G ''expected identifier'')"

definition alias_table :: "(keyword_tok \<times> string) list" where
  "alias_table =
    [(TCount, ''count''), (TExists, ''exists''), (TFilter, ''filter''), (TReduce, ''reduce''),
     (TExtract, ''extract''), (TMatch, ''match''), (TReturn, ''return''), (TWhere, ''where''), (TWith, ''with''),
     (TAs, ''as''), (TDistinct, ''distinct''), (TUnion, ''union''), (TAll, ''all''), (TCreate, ''create''),
     (TMerge, ''merge''), (TOn, ''on''), (TSet, ''set''), (TRemove, ''remove''), (TDelete, ''delete''),
     (TDetach, ''detach''), (TCall, ''call''), (TYield, ''yield''), (TUnwind, ''unwind''), (TOrder, ''order''),
     (TBy, ''by''), (TSkip, ''skip''), (TLimit, ''limit''), (TIs, ''is''), (TIn, ''in''), (TStarts, ''starts''),
     (TEnds, ''ends''), (TContains, ''contains''), (TCase, ''case''), (TWhen, ''when''), (TThen, ''then''),
     (TElse, ''else''), (TEnd, ''end''), (TTrue, ''true''), (TFalse, ''false''), (TNull, ''null''), (TNot, ''not''),
     (TAnd, ''and''), (TOr, ''or''), (TXor, ''xor''), (TOptional, ''optional''), (TAny, ''any''), (TNone, ''none''),
     (TSingle, ''single''), (TShortestPath, ''shortestPath''), (TAllShortestPaths, ''allShortestPaths''),
     (TAsc, ''asc''), (TDesc, ''desc''), (TAscending, ''ascending''), (TDescending, ''descending'')]"

definition tok_as_alias_str :: "'f tok \<Rightarrow> ustring option" where
  "tok_as_alias_str tok = map_option (\<lambda>s. lit s) (Option.bind (keyword_of tok) (map_of alias_table))"

definition eat_alias :: "'f grammar \<Rightarrow> ('f, ustring) parser" where
  "eat_alias G = eat_name G tok_as_alias_str ''expected alias name after AS'' ''expected alias name, found end of input''"

definition clause_eat_label_name :: "'f grammar \<Rightarrow> ('f, ustring) parser" where
  "clause_eat_label_name G = eat_name G tok_as_alias_str ''expected label name'' ''expected label name, found end of input''"

definition eat_label_names :: "'f grammar \<Rightarrow> ('f, ustring list) parser" where
  "eat_label_names G =
     bindp (while_eat TColon (clause_eat_label_name G) []) (\<lambda>labels.
     if labels = [] then err G ''expected `:Label` after variable'' else ret labels)"

section \<open>Projections\<close>

definition parse_one_return_item :: "'f grammar \<Rightarrow> ('f, (span, 'f exp) return_item) parser" where
  "parse_one_return_item G =
     seeing ts_current_pos (\<lambda>start. seeing (ts_at TStar) (\<lambda>star.
       if star then
         bindp ts_take (\<lambda>(l, _, r).
         ret (ReturnItem (EVar (lit ''*'') (l, r)) None None (l, r)))
       else
         bindp (g_expr G 0) (\<lambda>e.
         seeing (ts_text (expr_span e)) (\<lambda>text.
         bindp (ts_eat_if (TKeyword TAs)) (\<lambda>as_found.
         bindp (if as_found then bindp (eat_alias G) (\<lambda>name. ret (Some name)) else ret None) (\<lambda>alias.
         seeing (ts_span_from start) (\<lambda>span.
         ret (ReturnItem e alias (Some (str_trim (g_fmt G) text)) span))))))))"

definition parse_return_items :: "'f grammar \<Rightarrow> ('f, 'f return_items) parser" where
  "parse_return_items G = comma_separated (parse_one_return_item G)"

definition parse_sort_item :: "'f grammar \<Rightarrow> ('f, (span, 'f exp) sort_item) parser" where
  "parse_sort_item G =
     seeing ts_current_pos (\<lambda>start.
     bindp (g_expr G 0) (\<lambda>e.
     seeing (peek_keyword_in [TAsc, TAscending]) (\<lambda>asc. seeing (peek_keyword_in [TDesc, TDescending]) (\<lambda>desc.
     bindp (if asc then bindp ts_advance (\<lambda>_. ret Ascending)
            else if desc then bindp ts_advance (\<lambda>_. ret Descending)
            else ret Ascending) (\<lambda>order.
     seeing (ts_span_from start) (\<lambda>span.
     ret (SortItem e order span)))))))"

definition parse_opt_order_by :: "'f grammar \<Rightarrow> ('f, (span, 'f exp) order_by_clause option) parser" where
  "parse_opt_order_by G =
     seeing (ts_at (TKeyword TOrder)) (\<lambda>order.
       if order then
         seeing ts_current_pos (\<lambda>start.
         bindp ts_advance (\<lambda>_.
         bindp (eat G (TKeyword TBy)) (\<lambda>_.
         bindp (comma_separated (parse_sort_item G)) (\<lambda>items.
         seeing (ts_span_from start) (\<lambda>span.
         ret (Some (OrderByClause items span)))))))
       else ret None)"

text \<open>\<open>SKIP\<close> and \<open>LIMIT\<close>.\<close>

definition parse_opt_count :: "'f grammar \<Rightarrow> keyword_tok \<Rightarrow> ('f, 'f exp option) parser" where
  "parse_opt_count G kw =
     seeing (ts_at (TKeyword kw)) (\<lambda>found.
       if found then bindp ts_advance (\<lambda>_. bindp (g_expr G 0) (\<lambda>e. ret (Some e))) else ret None)"

definition parse_where_clause :: "'f grammar \<Rightarrow> ('f, (span, 'f exp) where_clause) parser" where
  "parse_where_clause G =
     seeing ts_current_pos (\<lambda>start.
     bindp (eat G (TKeyword TWhere)) (\<lambda>_.
     bindp (g_expr G 0) (\<lambda>predicate.
     seeing (ts_span_from start) (\<lambda>span.
     ret (WhereClause predicate span)))))"

definition parse_opt_where :: "'f grammar \<Rightarrow> ('f, (span, 'f exp) where_clause option) parser" where
  "parse_opt_where G =
     seeing (ts_at (TKeyword TWhere)) (\<lambda>found.
       if found then bindp (parse_where_clause G) (\<lambda>w. ret (Some w)) else ret None)"

section \<open>Reading clauses\<close>

definition parse_match_clause :: "'f grammar \<Rightarrow> bool \<Rightarrow> ('f, (span, 'f exp) match_clause) parser" where
  "parse_match_clause G optional =
     seeing ts_current_pos (\<lambda>start.
     bindp (if optional then bindp (eat G (TKeyword TOptional)) (\<lambda>_. ret ()) else ret ()) (\<lambda>_.
     bindp (eat G (TKeyword TMatch)) (\<lambda>_.
     bindp (parse_pattern_list_inner G) (\<lambda>patterns.
     bindp (parse_opt_where G) (\<lambda>where_clause.
     seeing (ts_span_from start) (\<lambda>span.
     ret (MatchClause patterns where_clause span)))))))"

definition parse_return_clause :: "'f grammar \<Rightarrow> ('f, (span, 'f exp) return_clause) parser" where
  "parse_return_clause G =
     seeing ts_current_pos (\<lambda>start.
     bindp (eat G (TKeyword TReturn)) (\<lambda>_.
     bindp (ts_eat_if (TKeyword TDistinct)) (\<lambda>distinct.
     bindp (parse_return_items G) (\<lambda>items.
     bindp (parse_opt_order_by G) (\<lambda>order_by.
     bindp (parse_opt_count G TSkip) (\<lambda>skip.
     bindp (parse_opt_count G TLimit) (\<lambda>limit.
     seeing (ts_span_from start) (\<lambda>span.
     ret (ReturnClause distinct items order_by skip limit span)))))))))"

definition parse_with_clause :: "'f grammar \<Rightarrow> ('f, (span, 'f exp) with_clause) parser" where
  "parse_with_clause G =
     seeing ts_current_pos (\<lambda>start.
     bindp (eat G (TKeyword TWith)) (\<lambda>_.
     bindp (ts_eat_if (TKeyword TDistinct)) (\<lambda>distinct.
     bindp (parse_return_items G) (\<lambda>items.
     bindp (parse_opt_order_by G) (\<lambda>order_by.
     bindp (parse_opt_count G TSkip) (\<lambda>skip.
     bindp (parse_opt_count G TLimit) (\<lambda>limit.
     bindp (parse_opt_where G) (\<lambda>where_clause.
     seeing (ts_span_from start) (\<lambda>span.
     ret (WithClause distinct items order_by skip limit where_clause span))))))))))"

definition parse_unwind_clause :: "'f grammar \<Rightarrow> ('f, (span, 'f exp) unwind_clause) parser" where
  "parse_unwind_clause G =
     seeing ts_current_pos (\<lambda>start.
     bindp (eat G (TKeyword TUnwind)) (\<lambda>_.
     bindp (g_expr G 0) (\<lambda>e.
     bindp (eat G (TKeyword TAs)) (\<lambda>_.
     bindp (clause_eat_ident G) (\<lambda>alias.
     seeing (ts_span_from start) (\<lambda>span.
     ret (UnwindClause e alias span)))))))"

definition parse_union_clause :: "'f grammar \<Rightarrow> ('f, span union_clause) parser" where
  "parse_union_clause G =
     seeing ts_current_pos (\<lambda>start.
     bindp (eat G (TKeyword TUnion)) (\<lambda>_.
     bindp (ts_eat_if (TKeyword TAll)) (\<lambda>all.
     seeing (ts_span_from start) (\<lambda>span.
     ret (UnionClause all span)))))"

section \<open>Writing clauses\<close>

text \<open>The relationships of a list of patterns, in order; the first with more than one type makes a \<open>CREATE\<close> fail.\<close>

definition pattern_rels :: "'f path list \<Rightarrow> 'f rel list" where
  "pattern_rels patterns =
     concat (map (\<lambda>element. case element of PRel rel \<Rightarrow> [rel] | PNode _ \<Rightarrow> []) (concat (map p_elements patterns)))"

definition check_create_types :: "'f path list \<Rightarrow> ('f, unit) parser" where
  "check_create_types patterns =
     (case filter (\<lambda>rel. 1 < length (r_types rel)) (pattern_rels patterns) of
        [] \<Rightarrow> ret ()
      | rel # _ \<Rightarrow> fail (parse_error_new (UnexpectedToken (lit ''|'') [lit ''a single relationship type'']) (r_span rel)
          (lit ''a CREATE relationship must have exactly one type; a type disjunction `:A|B` is only valid in MATCH'')))"

definition parse_create_clause :: "'f grammar \<Rightarrow> ('f, (span, 'f exp) create_clause) parser" where
  "parse_create_clause G =
     seeing ts_current_pos (\<lambda>start.
     bindp (eat G (TKeyword TCreate)) (\<lambda>_.
     bindp (parse_pattern_list_inner G) (\<lambda>patterns.
     bindp (check_create_types patterns) (\<lambda>_.
     seeing (ts_span_from start) (\<lambda>span.
     ret (CreateClause patterns span))))))"

definition parse_set_item :: "'f grammar \<Rightarrow> ('f, (span, 'f exp) set_item) parser" where
  "parse_set_item G =
     seeing ts_current_pos (\<lambda>start.
     bindp (ts_eat_if TLParen) (\<lambda>parenthesized.
     bindp (clause_eat_ident_with_span G) (\<lambda>(var, var_span).
     bindp (if parenthesized then bindp (eat G TRParen) (\<lambda>_. ret ()) else ret ()) (\<lambda>_.
     seeing ts_peek (\<lambda>t.
       if t = Some TDot then
         bindp ts_advance (\<lambda>_.
         bindp (clause_eat_ident G) (\<lambda>key.
         seeing (ts_span_from start) (\<lambda>prop_span.
         bindp (eat G TEq) (\<lambda>_.
         bindp (g_expr G 0) (\<lambda>value.
         seeing (ts_span_from start) (\<lambda>span.
         ret (SetProperty (PropertyAccess (EVar var var_span) key prop_span) value span)))))))
       else if t = Some TEq then
         bindp ts_advance (\<lambda>_.
         bindp (g_expr G 0) (\<lambda>map.
         seeing (ts_span_from start) (\<lambda>span.
         ret (SetPropertyReplace var map span))))
       else if t = Some TPlusEq then
         bindp ts_advance (\<lambda>_.
         bindp (g_expr G 0) (\<lambda>map.
         seeing (ts_span_from start) (\<lambda>span.
         ret (SetPropertyMerge var map span))))
       else if t = Some TColon then
         bindp (eat_label_names G) (\<lambda>labels.
         seeing (ts_span_from start) (\<lambda>span.
         ret (SetLabel var labels span)))
       else err G ''expected `.`, `=`, `+=`, or `:` after variable in SET'')))))"

definition parse_set_items :: "'f grammar \<Rightarrow> ('f, (span, 'f exp) set_item list) parser" where
  "parse_set_items G = comma_separated (parse_set_item G)"

definition parse_set_clause :: "'f grammar \<Rightarrow> ('f, (span, 'f exp) set_clause) parser" where
  "parse_set_clause G =
     seeing ts_current_pos (\<lambda>start.
     bindp (eat G (TKeyword TSet)) (\<lambda>_.
     bindp (parse_set_items G) (\<lambda>items.
     seeing (ts_span_from start) (\<lambda>span.
     ret (SetClause items span)))))"

definition parse_merge_actions ::
  "'f grammar \<Rightarrow> ('f, (span, 'f exp) set_item list \<times> (span, 'f exp) set_item list) parser" where
  "parse_merge_actions G = loop (\<lambda>(on_create, on_match).
     seeing (ts_at (TKeyword TOn)) (\<lambda>on.
       if on then
         bindp ts_advance (\<lambda>_.
         seeing ts_peek (\<lambda>t.
           if t = Some (TKeyword TCreate) then
             bindp ts_advance (\<lambda>_.
             bindp (eat G (TKeyword TSet)) (\<lambda>_.
             bindp (parse_set_items G) (\<lambda>items.
             ret (Inl (on_create @ items, on_match)))))
           else if t = Some (TKeyword TMatch) then
             bindp ts_advance (\<lambda>_.
             bindp (eat G (TKeyword TSet)) (\<lambda>_.
             bindp (parse_set_items G) (\<lambda>items.
             ret (Inl (on_create, on_match @ items)))))
           else err G ''expected CREATE or MATCH after ON''))
       else ret (Inr (on_create, on_match)))) ([], [])"

definition parse_merge_clause :: "'f grammar \<Rightarrow> ('f, (span, 'f exp) merge_clause) parser" where
  "parse_merge_clause G =
     seeing ts_current_pos (\<lambda>start.
     bindp (eat G (TKeyword TMerge)) (\<lambda>_.
     bindp (g_pattern G) (\<lambda>pattern.
     bindp (parse_merge_actions G) (\<lambda>(on_create, on_match).
     seeing (ts_span_from start) (\<lambda>span.
     ret (MergeClause pattern on_create on_match span))))))"

definition parse_remove_item :: "'f grammar \<Rightarrow> ('f, (span, 'f exp) remove_item) parser" where
  "parse_remove_item G =
     seeing ts_current_pos (\<lambda>start.
     bindp (clause_eat_ident_with_span G) (\<lambda>(var, var_span).
     seeing ts_peek (\<lambda>t.
       if t = Some TDot then
         bindp ts_advance (\<lambda>_.
         bindp (clause_eat_ident G) (\<lambda>key.
         seeing (ts_span_from start) (\<lambda>span.
         ret (RemoveProperty (PropertyAccess (EVar var var_span) key span) span))))
       else if t = Some TColon then
         bindp (eat_label_names G) (\<lambda>labels.
         seeing (ts_span_from start) (\<lambda>span.
         ret (RemoveLabel var labels span)))
       else err G ''expected `.` or `:` after variable in REMOVE'')))"

definition parse_remove_items :: "'f grammar \<Rightarrow> ('f, (span, 'f exp) remove_item list) parser" where
  "parse_remove_items G = comma_separated (parse_remove_item G)"

definition parse_remove_clause :: "'f grammar \<Rightarrow> ('f, (span, 'f exp) remove_clause) parser" where
  "parse_remove_clause G =
     seeing ts_current_pos (\<lambda>start.
     bindp (eat G (TKeyword TRemove)) (\<lambda>_.
     bindp (parse_remove_items G) (\<lambda>items.
     seeing (ts_span_from start) (\<lambda>span.
     ret (RemoveClause items span)))))"

definition parse_delete_clause :: "'f grammar \<Rightarrow> bool \<Rightarrow> ('f, (span, 'f exp) delete_clause) parser" where
  "parse_delete_clause G detach =
     seeing ts_current_pos (\<lambda>start.
     bindp (if detach then bindp (eat G (TKeyword TDetach)) (\<lambda>_. ret ()) else ret ()) (\<lambda>_.
     bindp (eat G (TKeyword TDelete)) (\<lambda>_.
     bindp (comma_separated (g_expr G 0)) (\<lambda>exprs.
     seeing (ts_span_from start) (\<lambda>span.
     ret (DeleteClause detach exprs span))))))"

section \<open>Procedure calls\<close>

definition parse_procedure_name :: "'f grammar \<Rightarrow> ('f, ustring list) parser" where
  "parse_procedure_name G = bindp (clause_eat_ident G) (\<lambda>first. while_eat TDot (clause_eat_ident G) [first])"

definition parse_opt_yield :: "'f grammar \<Rightarrow> ('f, 'f return_items) parser" where
  "parse_opt_yield G =
     seeing (ts_at (TKeyword TYield)) (\<lambda>found.
       if found then bindp ts_advance (\<lambda>_. parse_return_items G) else ret [])"

definition parse_call_args :: "'f grammar \<Rightarrow> ('f, 'f exp list) parser" where
  "parse_call_args G =
     bindp ts_advance (\<lambda>_.
     bindp (ts_eat_if TRParen) (\<lambda>empty.
     if empty then ret []
     else
       bindp (comma_separated (g_expr G 0)) (\<lambda>args.
       bindp (eat G TRParen) (\<lambda>_.
       ret args))))"

definition parse_call_clause :: "'f grammar \<Rightarrow> ('f, (span, 'f exp) call_clause) parser" where
  "parse_call_clause G =
     seeing ts_current_pos (\<lambda>start.
     bindp (eat G (TKeyword TCall)) (\<lambda>_.
     seeing (ts_at TLBrace) (\<lambda>block.
       if block then
         bindp (eat G TLBrace) (\<lambda>_.
         bindp (g_subquery G) (\<lambda>body.
         if q_clauses body = [] then err G ''CALL subquery requires a query body''
         else
           bindp (eat G TRBrace) (\<lambda>_.
           seeing (ts_span_from start) (\<lambda>span.
           bindp (record_unsupported CallSubquery span) (\<lambda>_.
           ret (CallClause [] [] False [] span))))))
       else
         bindp (parse_procedure_name G) (\<lambda>procedure.
         seeing (ts_at TLParen) (\<lambda>args_explicit.
         bindp (if args_explicit then parse_call_args G else ret []) (\<lambda>args.
         bindp (parse_opt_yield G) (\<lambda>yield_items.
         seeing (ts_span_from start) (\<lambda>span.
         ret (CallClause procedure args args_explicit yield_items span)))))))))"

section \<open>Queries\<close>

definition parse_clause :: "'f grammar \<Rightarrow> keyword_tok option \<Rightarrow> ('f, 'f clause) parser" where
  "parse_clause G kw =
     (if kw = Some TMatch then bindp (parse_match_clause G False) (\<lambda>c. ret (CMatch c))
      else if kw = Some TOptional then bindp (parse_match_clause G True) (\<lambda>c. ret (COptionalMatch c))
      else if kw = Some TWith then bindp (parse_with_clause G) (\<lambda>c. ret (CWith c))
      else if kw = Some TReturn then bindp (parse_return_clause G) (\<lambda>c. ret (CReturn c))
      else if kw = Some TUnwind then bindp (parse_unwind_clause G) (\<lambda>c. ret (CUnwind c))
      else if kw = Some TUnion then bindp (parse_union_clause G) (\<lambda>c. ret (CUnion c))
      else if kw = Some TCreate then bindp (parse_create_clause G) (\<lambda>c. ret (CCreate c))
      else if kw = Some TMerge then bindp (parse_merge_clause G) (\<lambda>c. ret (CMerge c))
      else if kw = Some TSet then bindp (parse_set_clause G) (\<lambda>c. ret (CSet c))
      else if kw = Some TRemove then bindp (parse_remove_clause G) (\<lambda>c. ret (CRemove c))
      else if kw = Some TDelete then bindp (parse_delete_clause G False) (\<lambda>c. ret (CDelete c))
      else if kw = Some TDetach then bindp (parse_delete_clause G True) (\<lambda>c. ret (CDelete c))
      else if kw = Some TCall then bindp (parse_call_clause G) (\<lambda>c. ret (CCall c))
      else fail_here (g_fmt G) (lit ''expected a Cypher clause (MATCH, RETURN, WITH, '' @ [0x2026] @ lit '')''))"

definition parse_clauses :: "'f grammar \<Rightarrow> bool \<Rightarrow> 'f clause list \<Rightarrow> ('f, 'f clause list) parser" where
  "parse_clauses G stop_at_closing_brace = loop (\<lambda>clauses.
     seeing ts_peek (\<lambda>t.
       if t = None \<or> t = Some TRBrace \<and> stop_at_closing_brace then ret (Inr clauses)
       else bindp (parse_clause G (Option.bind t keyword_of)) (\<lambda>c. ret (Inl (clauses @ [c])))))"

definition parse_query_until :: "'f grammar \<Rightarrow> bool \<Rightarrow> ('f, 'f query) parser" where
  "parse_query_until G stop_at_closing_brace =
     seeing ts_current_pos (\<lambda>start.
     bindp (parse_clauses G stop_at_closing_brace []) (\<lambda>clauses.
     seeing (ts_span_from start) (\<lambda>span.
     ret (AstQuery OpenCypher9 clauses span))))"

definition parse_subquery :: "'f grammar \<Rightarrow> ('f, 'f query) parser" where
  "parse_subquery G = parse_query_until G True"

definition parse_query :: "'f grammar \<Rightarrow> ('f, 'f query) parser" where
  "parse_query G = bindp (parse_query_until G False) finish_supported"

section \<open>The parser\<close>

text \<open>
  The recursion. \<open>nested_grammar fmt n\<close> allows \<open>n\<close> nested calls of the three recursive functions. A call of an expression consumes
  a token before it calls an expression again, and calls a pattern at most once before that, so two calls for each token
  are enough.
\<close>

primrec nested_grammar :: "'f fmt_text \<Rightarrow> nat \<Rightarrow> 'f grammar" where
  "nested_grammar fmt 0 = \<lparr>g_fmt = fmt, g_expr = \<lambda>_ _. None, g_pattern = \<lambda>_. None, g_subquery = \<lambda>_. None\<rparr>"
| "nested_grammar fmt (Suc n) =
     (let G = nested_grammar fmt n
      in \<lparr>g_fmt = fmt, g_expr = parse_expr_inner G, g_pattern = parse_pattern_inner G, g_subquery = parse_subquery G\<rparr>)"

definition grammar_for :: "'f fmt_text \<Rightarrow> 'f token_stream \<Rightarrow> 'f grammar" where
  "grammar_for fmt ts = nested_grammar fmt (2 * length (ts_tokens ts) + 2)"

definition parse :: "'f fmt_text \<Rightarrow> ustring \<Rightarrow> (parse_error + 'f query) option" where
  "parse fmt input =
     (case token_stream_new fmt input of
        Inl e \<Rightarrow> Some (Inl e)
      | Inr ts \<Rightarrow> map_option (map_sum id fst) (parse_query (grammar_for fmt ts) ts))"

end
