(* ===== verification/Ast_Facts.thy ===== *)
theory Ast_Facts
  imports Parser_Clauses
begin

text \<open>
  What a syntax tree holds: the parameters of an expression, the shape of paths and map literals, the ranges of numbers
  and the spans. Each is collected over the tree; \<open>expr_valid\<close> and \<open>parts_params\<close> have equations for every node.
\<close>

text \<open>
  The parameters of an expression and the well-formedness of its parts. The direct expressions and spans of a node are
  the set functions of its type; those of a tree are collected by recursion.
\<close>

primrec expr_params :: "('s, 'f) expr \<Rightarrow> ustring set" where
  "expr_params (ELiteral l) = {}"
| "expr_params (EVar _ s) = {}"
| "expr_params (EProperty q) = \<Union> (set2_property_access (map_property_access id expr_params q))"
| "expr_params (EBinaryOp _ l r s) = expr_params l \<union> expr_params r"
| "expr_params (EUnaryOp _ e s) = expr_params e"
| "expr_params (EFunctionCall _ _ _ args s) = \<Union> (set (map expr_params args))"
| "expr_params (EList es s) = \<Union> (set (map expr_params es))"
| "expr_params (EMap entries _ s) = \<Union> (snd ` set (map (map_prod id expr_params) entries))"
| "expr_params (EParam name s) = {name}"
| "expr_params (ECase subject whens else_expr s) =
     \<Union> (set_option (map_option expr_params subject)) \<union> \<Union> (\<Union> (set2_when_clause ` set (map (map_when_clause id expr_params) whens)))
     \<union> \<Union> (set_option (map_option expr_params else_expr))"
| "expr_params (EListComprehension _ list flt projection s) =
     expr_params list \<union> \<Union> (set_option (map_option expr_params flt)) \<union> \<Union> (set_option (map_option expr_params projection))"
| "expr_params (EQuantifier _ _ list predicate s) = expr_params list \<union> expr_params predicate"
| "expr_params (EPatternComprehension _ p flt projection s) =
     \<Union> (set2_path_pattern (map_path_pattern id expr_params p)) \<union> \<Union> (set_option (map_option expr_params flt)) \<union> expr_params projection"
| "expr_params (EPatternPredicate p s) = \<Union> (set2_path_pattern (map_path_pattern id expr_params p))"
| "expr_params (EExistentialSubquery b s) = \<Union> (set2_existential_subquery_body (map_existential_subquery_body id expr_params b))"
| "expr_params (ELabelPredicate _ _ s) = {}"
| "expr_params (EIsNull e _ s) = expr_params e"
| "expr_params (EInList e l _ s) = expr_params e \<union> expr_params l"
| "expr_params (EStringOp e _ p s) = expr_params e \<union> expr_params p"
| "expr_params (ERegexMatch e p s) = expr_params e \<union> expr_params p"
| "expr_params (EParenthesized e s) = expr_params e"

text \<open>A path alternates nodes and relationships, and its hop counts have 32 bits.\<close>

definition hops_ok :: "('s, 'e) rel_pattern \<Rightarrow> bool" where
  "hops_ok rel \<longleftrightarrow> (\<forall>h\<in>set_option (r_min_hops rel) \<union> set_option (r_max_hops rel). h < 2 ^ 32)"

fun alternates :: "('s, 'e) path_element list \<Rightarrow> bool" where
  "alternates [PNode _] = True"
| "alternates (PNode _ # PRel rel # elements) = (hops_ok rel \<and> alternates elements)"
| "alternates _ = False"

fun clause_paths :: "('s, 'e) ast_clause \<Rightarrow> ('s, 'e) path_pattern list" where
  "clause_paths (CMatch c) = m_patterns c"
| "clause_paths (COptionalMatch c) = m_patterns c"
| "clause_paths (CCreate c) = cr_patterns c"
| "clause_paths (CMerge c) = [mg_pattern c]"
| "clause_paths _ = []"

definition query_paths :: "('s, 'e) ast_query \<Rightarrow> ('s, 'e) path_pattern list" where
  "query_paths q = concat (map clause_paths (q_clauses q))"

fun body_ok :: "('s, 'e) existential_subquery_body \<Rightarrow> bool" where
  "body_ok (SimpleBody p flt) = alternates (p_elements p)"
| "body_ok (FullBody q) = (q_clauses q \<noteq> [] \<and> list_all (\<lambda>p. alternates (p_elements p)) (query_paths q))"

primrec literal_ok :: "('s, 'f) literal \<Rightarrow> bool" where
  "literal_ok (LInt n _) = (- (2 ^ 63) \<le> n \<and> n < 2 ^ 63)"
| "literal_ok (LFloat _ _) = True"
| "literal_ok (LStr _ _) = True"
| "literal_ok (LBool _ _) = True"
| "literal_ok (LNull _) = True"

primrec expr_ok :: "('s, 'f) expr \<Rightarrow> bool" where
  "expr_ok (ELiteral l) = literal_ok l"
| "expr_ok (EVar _ s) = True"
| "expr_ok (EProperty q) = (\<forall>b\<in>set2_property_access (map_property_access id expr_ok q). b)"
| "expr_ok (EBinaryOp _ l r s) = (expr_ok l \<and> expr_ok r)"
| "expr_ok (EUnaryOp _ e s) = expr_ok e"
| "expr_ok (EFunctionCall name _ star args s) = (name \<noteq> [] \<and> (star \<longrightarrow> args = []) \<and> (\<forall>b\<in>set (map expr_ok args). b))"
| "expr_ok (EList es s) = (\<forall>b\<in>set (map expr_ok es). b)"
| "expr_ok (EMap entries key_spans s) =
     (distinct (map fst entries) \<and> map fst key_spans = map fst entries \<and> (\<forall>b\<in>snd ` set (map (map_prod id expr_ok) entries). b))"
| "expr_ok (EParam name s) = True"
| "expr_ok (ECase subject whens else_expr s) =
     ((\<forall>b\<in>set_option (map_option expr_ok subject). b) \<and>
      (\<forall>b\<in>\<Union> (set2_when_clause ` set (map (map_when_clause id expr_ok) whens)). b) \<and>
      (\<forall>b\<in>set_option (map_option expr_ok else_expr). b))"
| "expr_ok (EListComprehension _ list flt projection s) =
     (expr_ok list \<and> (\<forall>b\<in>set_option (map_option expr_ok flt). b) \<and> (\<forall>b\<in>set_option (map_option expr_ok projection). b))"
| "expr_ok (EQuantifier _ _ list predicate s) = (expr_ok list \<and> expr_ok predicate)"
| "expr_ok (EPatternComprehension _ p flt projection s) =
     (alternates (p_elements p) \<and> (\<forall>b\<in>set2_path_pattern (map_path_pattern id expr_ok p). b) \<and>
      (\<forall>b\<in>set_option (map_option expr_ok flt). b) \<and> expr_ok projection)"
| "expr_ok (EPatternPredicate p s) =
     (alternates (p_elements p) \<and> (\<forall>b\<in>set2_path_pattern (map_path_pattern id expr_ok p). b))"
| "expr_ok (EExistentialSubquery body s) =
     (body_ok body \<and> (\<forall>b\<in>set2_existential_subquery_body (map_existential_subquery_body id expr_ok body). b))"
| "expr_ok (ELabelPredicate _ labels s) = (labels \<noteq> [])"
| "expr_ok (EIsNull e _ s) = expr_ok e"
| "expr_ok (EInList e l _ s) = (expr_ok e \<and> expr_ok l)"
| "expr_ok (EStringOp e _ p s) = (expr_ok e \<and> expr_ok p)"
| "expr_ok (ERegexMatch e p s) = (expr_ok e \<and> expr_ok p)"
| "expr_ok (EParenthesized e s) = expr_ok e"

definition span_within :: "nat \<Rightarrow> span \<Rightarrow> bool" where
  "span_within n s \<longleftrightarrow> fst s \<le> snd s \<and> snd s \<le> n"

definition expr_valid :: "nat \<Rightarrow> 'f exp \<Rightarrow> bool" where
  "expr_valid n e \<longleftrightarrow> expr_ok e \<and> (\<forall>s\<in>set1_expr e. span_within n s)"

text \<open>The same for a node with given direct spans and expressions.\<close>

definition parts_params :: "'f exp set \<Rightarrow> ustring set" where
  "parts_params es = \<Union> (expr_params ` es)"

definition spans_valid :: "nat \<Rightarrow> span set \<Rightarrow> bool" where
  "spans_valid n ss \<longleftrightarrow> (\<forall>s\<in>ss. span_within n s)"

definition exprs_valid :: "nat \<Rightarrow> 'f exp set \<Rightarrow> bool" where
  "exprs_valid n es \<longleftrightarrow> (\<forall>e\<in>es. expr_valid n e)"

abbreviation parts_valid :: "nat \<Rightarrow> span set \<Rightarrow> 'f exp set \<Rightarrow> bool" where
  "parts_valid n ss es \<equiv> spans_valid n ss \<and> exprs_valid n es"

lemma parts_simps [simp]:
  "parts_params {} = {}" "parts_params (insert e es) = expr_params e \<union> parts_params es"
  "parts_params (es \<union> fs) = parts_params es \<union> parts_params fs"
  "parts_params (\<Union> (f ` A)) = \<Union> ((\<lambda>x. parts_params (f x)) ` A)"
  by (auto simp: parts_params_def)

lemma valid_simps [simp]:
  "spans_valid n {}" "spans_valid n (insert s ss) \<longleftrightarrow> span_within n s \<and> spans_valid n ss"
  "spans_valid n (ss \<union> rs) \<longleftrightarrow> spans_valid n ss \<and> spans_valid n rs"
  "spans_valid n (\<Union> (f ` A)) \<longleftrightarrow> (\<forall>x\<in>A. spans_valid n (f x))"
  "exprs_valid n {}" "exprs_valid n (insert e es) \<longleftrightarrow> expr_valid n e \<and> exprs_valid n es"
  "exprs_valid n (es \<union> fs) \<longleftrightarrow> exprs_valid n es \<and> exprs_valid n fs"
  "exprs_valid n (\<Union> (g ` A)) \<longleftrightarrow> (\<forall>x\<in>A. exprs_valid n (g x))"
  by (auto simp: spans_valid_def exprs_valid_def)

text \<open>The recursive functions over the direct parts.\<close>

lemmas part_maps = property_access.set_map path_pattern.set_map when_clause.set_map existential_subquery_body.set_map
  option.set_map list.set_map

lemma expr_params_parts [simp]:
  "expr_params (EProperty q) = parts_params (set2_property_access q)"
  "expr_params (EFunctionCall name dist star args s) = parts_params (set args)"
  "expr_params (EList es s) = parts_params (set es)"
  "expr_params (EMap entries key_spans s) = parts_params (snd ` set entries)"
  "expr_params (ECase subject whens else_expr s) =
     parts_params (set_option subject) \<union> parts_params (\<Union> (set2_when_clause ` set whens)) \<union> parts_params (set_option else_expr)"
  "expr_params (EListComprehension var list flt projection s) =
     expr_params list \<union> parts_params (set_option flt) \<union> parts_params (set_option projection)"
  "expr_params (EPatternComprehension pvar p flt projection' s) =
     parts_params (set2_path_pattern p) \<union> parts_params (set_option flt) \<union> expr_params projection'"
  "expr_params (EPatternPredicate p s) = parts_params (set2_path_pattern p)"
  "expr_params (EExistentialSubquery b s) = parts_params (set2_existential_subquery_body b)"
  by (simp_all add: part_maps parts_params_def image_image del: parts_simps) auto

declare expr_params.simps(3,6,7,8,10,11,13,14,15) [simp del]

lemma expr_valid_simple [simp]:
  "expr_valid n (EVar name s) \<longleftrightarrow> span_within n s"
  "expr_valid n (EBinaryOp op l r s) \<longleftrightarrow> span_within n s \<and> expr_valid n l \<and> expr_valid n r"
  "expr_valid n (EUnaryOp uop e s) \<longleftrightarrow> span_within n s \<and> expr_valid n e"
  "expr_valid n (EParam name s) \<longleftrightarrow> span_within n s"
  "expr_valid n (EQuantifier kind name l r s) \<longleftrightarrow> span_within n s \<and> expr_valid n l \<and> expr_valid n r"
  "expr_valid n (ELabelPredicate name labels s) \<longleftrightarrow> labels \<noteq> [] \<and> span_within n s"
  "expr_valid n (EIsNull e negated s) \<longleftrightarrow> span_within n s \<and> expr_valid n e"
  "expr_valid n (EInList l r negated s) \<longleftrightarrow> span_within n s \<and> expr_valid n l \<and> expr_valid n r"
  "expr_valid n (EStringOp l sop r s) \<longleftrightarrow> span_within n s \<and> expr_valid n l \<and> expr_valid n r"
  "expr_valid n (ERegexMatch l r s) \<longleftrightarrow> span_within n s \<and> expr_valid n l \<and> expr_valid n r"
  "expr_valid n (EParenthesized e s) \<longleftrightarrow> span_within n s \<and> expr_valid n e"
  by (auto simp: expr_valid_def)

lemma expr_valid_literal [simp]: "expr_valid n (ELiteral l) \<longleftrightarrow> literal_ok l \<and> span_within n (literal_span l)"
  by (cases l) (simp_all add: expr_valid_def)

lemma expr_valid_parts [simp]:
  "expr_valid n (EProperty q) \<longleftrightarrow> parts_valid n (set1_property_access q) (set2_property_access q)"
  "expr_valid n (EFunctionCall fname dist star args s) \<longleftrightarrow>
     fname \<noteq> [] \<and> (star \<longrightarrow> args = []) \<and> parts_valid n {s} (set args)"
  "expr_valid n (EList args s) \<longleftrightarrow> parts_valid n {s} (set args)"
  "expr_valid n (EMap entries key_spans s) \<longleftrightarrow>
     distinct (map fst entries) \<and> map fst key_spans = map fst entries \<and>
     parts_valid n (insert s (snd ` set key_spans)) (snd ` set entries)"
  "expr_valid n (ECase subject whens else_expr s) \<longleftrightarrow>
     parts_valid n (insert s (\<Union> (set1_when_clause ` set whens)))
       (set_option subject \<union> \<Union> (set2_when_clause ` set whens) \<union> set_option else_expr)"
  "expr_valid n (EListComprehension var e flt projection s) \<longleftrightarrow>
     parts_valid n {s} (insert e (set_option flt \<union> set_option projection))"
  "expr_valid n (EPatternComprehension pvar p flt e s) \<longleftrightarrow>
     alternates (p_elements p) \<and> parts_valid n (insert s (set1_path_pattern p)) (insert e (set2_path_pattern p \<union> set_option flt))"
  "expr_valid n (EPatternPredicate p s) \<longleftrightarrow>
     alternates (p_elements p) \<and> parts_valid n (insert s (set1_path_pattern p)) (set2_path_pattern p)"
  "expr_valid n (EExistentialSubquery b s) \<longleftrightarrow>
     body_ok b \<and> parts_valid n (insert s (set1_existential_subquery_body b)) (set2_existential_subquery_body b)"
proof goal_cases
  case 1 show ?case by (auto simp: expr_valid_def spans_valid_def exprs_valid_def part_maps)
next
  case 2 show ?case by (auto simp: expr_valid_def spans_valid_def exprs_valid_def)
next
  case 3 show ?case by (auto simp: expr_valid_def spans_valid_def exprs_valid_def)
next
  case 4 show ?case by (auto simp: expr_valid_def spans_valid_def exprs_valid_def image_image prod_set_defs)
next
  case 5 show ?case by (auto simp: expr_valid_def spans_valid_def exprs_valid_def part_maps)
next
  case 6 show ?case by (auto simp: expr_valid_def spans_valid_def exprs_valid_def part_maps)
next
  case 7 show ?case by (auto simp: expr_valid_def spans_valid_def exprs_valid_def part_maps)
next
  case 8 show ?case by (auto simp: expr_valid_def spans_valid_def exprs_valid_def part_maps)
next
  case 9 show ?case by (auto simp: expr_valid_def spans_valid_def exprs_valid_def part_maps)
qed

end
