(* ===== verification/Parser_Contract.thy ===== *)
theory Parser_Contract
  imports Ast_Facts
begin

text \<open>
  The contract of a parser and a calculus for it. \<open>good_stream\<close> is the invariant of the token stream, \<open>reached\<close> says how
  one stream comes after another, and \<open>spec_when\<close> what a parser does on every stream: it returns, its errors lie within
  the input, and its value has the parameters of the tokens it consumed. The rules in \<open>vcg\<close> follow the combinators of
  the parsers and the operations of the stream.
\<close>

section \<open>Streams\<close>

definition good_stream :: "'f token_stream \<Rightarrow> bool" where
  "good_stream ts \<longleftrightarrow>
     ts_pos ts \<le> length (ts_tokens ts) \<and>
     sorted_wrt (\<lambda>(_, _, stop) (start, _, _). stop \<le> start) (ts_tokens ts) \<and>
     list_all (\<lambda>(start, _, stop). start < stop \<and> stop \<le> utf8_len (ts_input ts)) (ts_tokens ts) \<and>
     list_all (\<lambda>(_, tok, _). case int_of tok of None \<Rightarrow> True | Some n \<Rightarrow> 0 \<le> n) (ts_tokens ts) \<and>
     (\<forall>e. ts_unsupported ts = Some e \<longrightarrow> error_within 0 (utf8_len (ts_input ts)) e)"

definition tok_params :: "'f tok \<Rightarrow> ustring set" where
  "tok_params tok = {s. tok = TParam s}"

definition seen_params :: "'f token_stream \<Rightarrow> 'f token_stream \<Rightarrow> ustring set" where
  "seen_params a b = \<Union> ((\<lambda>(_, tok, _). tok_params tok) ` set (take (ts_pos b - ts_pos a) (drop (ts_pos a) (ts_tokens a))))"

text \<open>
  A stream is reached from another: it has the same tokens, is at least \<open>j\<close> tokens further, keeps what was recorded as
  unsupported, and, as long as nothing is, the tokens between have the parameters \<open>S\<close>.
\<close>

definition reached :: "'f token_stream \<Rightarrow> nat \<Rightarrow> ustring set \<Rightarrow> 'f token_stream \<Rightarrow> bool" where
  "reached a j S b \<longleftrightarrow> good_stream a \<and> good_stream b \<and> ts_tokens b = ts_tokens a \<and> ts_input b = ts_input a \<and>
     ts_pos a + j \<le> ts_pos b \<and> (ts_unsupported a \<noteq> None \<longrightarrow> ts_unsupported b = ts_unsupported a) \<and>
     (ts_unsupported b = None \<longrightarrow> seen_params a b = S)"

lemma reached_refl: "good_stream a \<Longrightarrow> reached a 0 {} a"
  by (simp add: reached_def seen_params_def)

lemma seen_params_trans:
  assumes "ts_pos a \<le> ts_pos b" "ts_pos b \<le> ts_pos c" "ts_tokens b = ts_tokens a"
  shows "seen_params a c = seen_params a b \<union> seen_params b c"
proof -
  have "ts_pos c - ts_pos a = (ts_pos b - ts_pos a) + (ts_pos c - ts_pos b)" using assms by simp
  then show ?thesis using assms by (simp only: seen_params_def take_add drop_drop) (simp add: image_Un)
qed

lemma reached_trans: "reached a j S b \<Longrightarrow> reached b k T c \<Longrightarrow> reached a (j + k) (S \<union> T) c"
  unfolding reached_def using seen_params_trans [of a b c]
  by (cases "ts_unsupported c"; cases "ts_unsupported b"; cases "ts_unsupported a"; simp)

lemma reached_weaken: "reached a j S b \<Longrightarrow> k \<le> j \<Longrightarrow> reached a k S b"
  by (simp add: reached_def)

lemma token_spans_bound:
  assumes "good_stream ts" "i < length (ts_tokens ts)" "ts_tokens ts ! i = (l, tok, r)"
  shows "l < r" "r \<le> utf8_len (ts_input ts)" "i < j \<Longrightarrow> j < length (ts_tokens ts) \<Longrightarrow> r \<le> fst (ts_tokens ts ! j)"
proof -
  show "l < r" "r \<le> utf8_len (ts_input ts)" using assms by (auto simp: good_stream_def list_all_length)
  show "r \<le> fst (ts_tokens ts ! j)" if "i < j" "j < length (ts_tokens ts)"
  proof -
    have s: "sorted_wrt (\<lambda>(_, _, stop) (start, _, _). stop \<le> start) (ts_tokens ts)" using assms(1) by (simp add: good_stream_def)
    from sorted_wrt_nth_less [OF s that] assms(3) show ?thesis by (cases "ts_tokens ts ! j") simp
  qed
qed

lemma current_pos_mono:
  assumes "reached a j S b"
  shows "ts_current_pos a \<le> ts_current_pos b" "ts_current_pos b \<le> utf8_len (ts_input a)"
proof -
  have g: "good_stream a" "ts_tokens b = ts_tokens a" "ts_input b = ts_input a" "ts_pos a \<le> ts_pos b" using assms by (auto simp: reached_def)
  have u: "fst (ts_tokens a ! i) \<le> utf8_len (ts_input a)" if "i < length (ts_tokens a)" for i
    using token_spans_bound [OF g(1) that, of "fst (ts_tokens a ! i)"] by (cases "ts_tokens a ! i") auto
  have "fst (ts_tokens a ! ts_pos a) \<le> fst (ts_tokens a ! ts_pos b)" if "ts_pos a < ts_pos b" "ts_pos b < length (ts_tokens a)"
    using token_spans_bound [OF g(1), of "ts_pos a"] that by (cases "ts_tokens a ! ts_pos a") fastforce
  then show "ts_current_pos a \<le> ts_current_pos b"
    using g u by (cases "ts_pos a = ts_pos b") (auto simp: ts_current_pos_def)
  show "ts_current_pos b \<le> utf8_len (ts_input a)" using g u by (auto simp: ts_current_pos_def)
qed

section \<open>Specifications\<close>

definition span_from_to :: "'f exp \<Rightarrow> 'f token_stream \<Rightarrow> 'f token_stream \<Rightarrow> bool" where
  "span_from_to e a b \<longleftrightarrow> fst (expr_span e) = ts_current_pos a \<and> snd (expr_span e) \<le> ts_current_pos b"

text \<open>
  The outcome of a parser at a stream: it returns; an error lies within the input; a value \<open>x\<close> comes with a stream that
  is at least \<open>k\<close> tokens further, over tokens with the parameters \<open>W x\<close>, and satisfies \<open>V\<close>.
\<close>

definition parse_outcome :: "nat \<Rightarrow> ('a \<Rightarrow> ustring set) \<Rightarrow> ('a \<Rightarrow> 'f token_stream \<Rightarrow> 'f token_stream \<Rightarrow> bool) \<Rightarrow> ('f, 'a) parser \<Rightarrow> 'f token_stream \<Rightarrow> bool" where
  "parse_outcome k W V p ts \<longleftrightarrow>
     (case p ts of
        None \<Rightarrow> False
      | Some (Inl e) \<Rightarrow> error_within 0 (utf8_len (ts_input ts)) e
      | Some (Inr (x, ts')) \<Rightarrow> reached ts k (W x) ts' \<and> V x ts ts')"

abbreviation input_len :: "'f token_stream \<Rightarrow> nat" where
  "input_len ts \<equiv> utf8_len (ts_input ts)"

definition expr_outcome :: "('f, 'f exp) parser \<Rightarrow> 'f token_stream \<Rightarrow> bool" where
  "expr_outcome = parse_outcome 1 expr_params (\<lambda>e a b. expr_valid (input_len a) e \<and> span_from_to e a b)"

definition path_outcome :: "('f, 'f path) parser \<Rightarrow> 'f token_stream \<Rightarrow> bool" where
  "path_outcome = parse_outcome 1 (\<lambda>p. parts_params (set2_path_pattern p))
     (\<lambda>p a b. alternates (p_elements p) \<and> parts_valid (input_len a) (set1_path_pattern p) (set2_path_pattern p))"

definition query_ok :: "'f query \<Rightarrow> bool" where
  "query_ok q \<longleftrightarrow> list_all (\<lambda>p. alternates (p_elements p)) (query_paths q)"

definition query_outcome :: "('f, 'f query) parser \<Rightarrow> 'f token_stream \<Rightarrow> bool" where
  "query_outcome = parse_outcome 0 (\<lambda>q. parts_params (set2_ast_query q))
     (\<lambda>q a b. query_ok q \<and> parts_valid (input_len a) (set1_ast_query q) (set2_ast_query q) \<and>
        (q_clauses q = [] \<longrightarrow> ts_peek a = None \<or> ts_peek a = Some TRBrace))"

text \<open>
  The recursive calls keep their specification at all streams that are reached from \<open>a\<close> after \<open>d\<close> tokens, or after \<open>e\<close>
  tokens for patterns.
\<close>

definition callable :: "'f grammar \<Rightarrow> nat \<Rightarrow> nat \<Rightarrow> 'f token_stream \<Rightarrow> bool" where
  "callable G d e a \<longleftrightarrow> (\<forall>j S ts. reached a j S ts \<longrightarrow>
     (d \<le> j \<longrightarrow> (\<forall>bp. expr_outcome (g_expr G bp) ts) \<and> query_outcome (g_subquery G) ts) \<and>
     (e \<le> j \<longrightarrow> path_outcome (g_pattern G) ts))"

lemma callable_reached: "callable G d e a \<Longrightarrow> reached a j S ts \<Longrightarrow> d \<le> j + d' \<Longrightarrow> e \<le> j + e' \<Longrightarrow> callable G d' e' ts"
  unfolding callable_def using reached_trans [of a j S ts] by (metis add_le_cancel_left order_trans)

definition spec_when :: "('f token_stream \<Rightarrow> bool) \<Rightarrow> 'f grammar \<Rightarrow> nat \<Rightarrow> nat \<Rightarrow> nat \<Rightarrow> ('a \<Rightarrow> ustring set) \<Rightarrow>
    ('a \<Rightarrow> 'f token_stream \<Rightarrow> 'f token_stream \<Rightarrow> bool) \<Rightarrow> ('f, 'a) parser \<Rightarrow> bool" where
  "spec_when C G d e k W V p \<longleftrightarrow> (\<forall>ts. C ts \<longrightarrow> good_stream ts \<longrightarrow> callable G d e ts \<longrightarrow> parse_outcome k W V p ts)"

abbreviation spec :: "'f grammar \<Rightarrow> nat \<Rightarrow> nat \<Rightarrow> nat \<Rightarrow> ('a \<Rightarrow> ustring set) \<Rightarrow>
    ('a \<Rightarrow> 'f token_stream \<Rightarrow> 'f token_stream \<Rightarrow> bool) \<Rightarrow> ('f, 'a) parser \<Rightarrow> bool" where
  "spec \<equiv> spec_when (\<lambda>_. True)"

text \<open>
  The proof state in the middle of a parser: it started at \<open>a\<close>, has reached \<open>ts\<close> over \<open>j\<close> tokens with the parameters
  \<open>S\<close>, and goes on with \<open>p\<close> towards the postcondition \<open>Q\<close>.
\<close>

definition run :: "'f grammar \<Rightarrow> nat \<Rightarrow> nat \<Rightarrow> 'f token_stream \<Rightarrow> nat \<Rightarrow> ustring set \<Rightarrow> ('f, 'a) parser \<Rightarrow>
    ('a \<Rightarrow> nat \<Rightarrow> ustring set \<Rightarrow> 'f token_stream \<Rightarrow> bool) \<Rightarrow> 'f token_stream \<Rightarrow> bool" where
  "run G d e a j S p Q ts \<longleftrightarrow> (callable G d e a \<longrightarrow> reached a j S ts \<longrightarrow>
     (case p ts of
        None \<Rightarrow> False
      | Some (Inl er) \<Rightarrow> error_within 0 (input_len a) er
      | Some (Inr (x, ts')) \<Rightarrow> \<exists>j' S'. reached a j' S' ts' \<and> Q x j' S' ts'))"

named_theorems vcg

lemma specI:
  assumes "\<And>a. C a \<Longrightarrow> ts_current_pos a \<le> input_len a \<Longrightarrow> run G d e a 0 {} p (\<lambda>x j S ts. k \<le> j \<and> S = W x \<and> V x a ts) a"
  shows "spec_when C G d e k W V p"
  unfolding spec_when_def parse_outcome_def
proof (intro allI impI)
  fix ts assume "C ts" "good_stream ts" "callable G d e ts"
  with assms [of ts] reached_refl [of ts] current_pos_mono(2) [of ts 0 "{}" ts]
  show "case p ts of None \<Rightarrow> False | Some (Inl e) \<Rightarrow> error_within 0 (input_len ts) e | Some (Inr (x, ts')) \<Rightarrow> reached ts k (W x) ts' \<and> V x ts ts'"
    by (auto simp: run_def reached_weaken split: option.splits sum.splits)
qed

lemma spec_call:
  assumes "spec_when C G d' e' k W V p" "C ts" "d \<le> j + d'" "e \<le> j + e'"
    and "\<And>x ts'. V x ts ts' \<Longrightarrow> ts_input ts = ts_input a \<Longrightarrow> ts_current_pos ts \<le> ts_current_pos ts' \<Longrightarrow> ts_current_pos ts' \<le> input_len a \<Longrightarrow>
       ts_input ts' = ts_input a \<Longrightarrow> Q x (j + k) (S \<union> W x) ts'"
  shows "run G d e a j S p Q ts"
  unfolding run_def
proof (intro impI)
  assume c: "callable G d e a" and r: "reached a j S ts"
  then have "good_stream ts" "callable G d' e' ts" "ts_input ts = ts_input a"
    using callable_reached [OF c r assms(3,4)] by (auto simp: reached_def)
  with assms(1,2) have "parse_outcome k W V p ts" by (simp add: spec_when_def)
  moreover have "reached a (j + k) (S \<union> W x) ts' \<and> Q x (j + k) (S \<union> W x) ts'" if "reached ts k (W x) ts'" "V x ts ts'" for x ts'
    using reached_trans [OF r that(1)] current_pos_mono [OF that(1)] assms(5) [OF that(2)] \<open>ts_input ts = ts_input a\<close>
    by (simp add: reached_def)
  ultimately show "case p ts of None \<Rightarrow> False | Some (Inl er) \<Rightarrow> error_within 0 (input_len a) er
    | Some (Inr (x, ts')) \<Rightarrow> \<exists>j' S'. reached a j' S' ts' \<and> Q x j' S' ts'"
    using \<open>ts_input ts = ts_input a\<close> unfolding parse_outcome_def by (fastforce split: option.splits sum.splits)
qed

lemma run_bind [vcg]:
  "run G d e a j S p (\<lambda>x j S ts. run G d e a j S (f x) Q ts) ts \<Longrightarrow> run G d e a j S (bindp p f) Q ts"
  by (fastforce simp: run_def bindp_def split: option.splits sum.splits)

lemma run_ret [vcg]: "Q x j S ts \<Longrightarrow> run G d e a j S (ret x) Q ts"
  by (auto simp: run_def ret_def)

lemma run_seeing [vcg]: "run G d e a j S (p (f ts)) Q ts \<Longrightarrow> run G d e a j S (seeing f p) Q ts"
  by (simp add: run_def seeing_def)

lemma run_if [vcg]:
  "(c \<Longrightarrow> run G d e a j S p Q ts) \<Longrightarrow> (\<not> c \<Longrightarrow> run G d e a j S q Q ts) \<Longrightarrow> run G d e a j S (if c then p else q) Q ts"
  by simp

lemma run_option [vcg]:
  "(x = None \<Longrightarrow> run G d e a j S p Q ts) \<Longrightarrow> (\<And>y. x = Some y \<Longrightarrow> run G d e a j S (q y) Q ts) \<Longrightarrow>
   run G d e a j S (case x of None \<Rightarrow> p | Some y \<Rightarrow> q y) Q ts"
  by (cases x) simp_all

lemma run_prod [vcg]:
  "(\<And>y z. x = (y, z) \<Longrightarrow> run G d e a j S (q y z) Q ts) \<Longrightarrow> run G d e a j S (case x of (y, z) \<Rightarrow> q y z) Q ts"
  by (cases x) simp

lemma run_fail [vcg]: "error_within 0 (input_len a) er \<Longrightarrow> run G d e a j S (fail er) Q ts"
  by (simp add: run_def fail_def)

lemma run_fail_here [vcg]: "run G d e a j S (fail_here fmt msg) Q ts"
  unfolding run_def fail_here_def ts_err_def
proof (intro impI)
  assume "reached a j S ts"
  then have "good_stream ts" "ts_input ts = ts_input a" by (simp_all add: reached_def)
  with token_spans_bound [of ts "ts_pos ts"]
  show "case Some (Inl (if ts_pos ts < length (ts_tokens ts)
          then case ts_tokens ts ! ts_pos ts of (l, tok, r) \<Rightarrow> parse_error_new (UnexpectedToken (f_debug_tok fmt tok) []) (l, r) msg
          else parse_error_new (UnexpectedEof []) (input_len ts, input_len ts) msg)) of
      None \<Rightarrow> False | Some (Inl er) \<Rightarrow> error_within 0 (input_len a) er | Some (Inr (x, ts')) \<Rightarrow> \<exists>j' S'. reached a j' S' ts' \<and> Q x j' S' ts'"
    by (cases "ts_tokens ts ! ts_pos ts") (auto simp: error_within_def parse_error_new_def less_imp_le_nat)
qed

lemma run_clone [vcg]:
  "run G d e a j S p (\<lambda>x _ _ _. Q (Some x) j S ts) ts \<Longrightarrow> Q None j S ts \<Longrightarrow> run G d e a j S (on_clone p) Q ts"
  by (fastforce simp: run_def on_clone_def split: option.splits sum.splits)

lemma run_supported [vcg]: "Q x j S ts \<Longrightarrow> run G d e a j S (finish_supported x) Q ts"
  by (auto simp: run_def finish_supported_def reached_def good_stream_def split: option.splits)

lemma run_unsupported [vcg]:
  assumes "span_within (input_len a) span"
    and "\<And>ts'. ts_current_pos ts' = ts_current_pos ts \<Longrightarrow> ts_input ts' = ts_input ts \<Longrightarrow> Q () j (T ts') ts'"
  shows "run G d e a j S (record_unsupported feature span) Q ts"
  unfolding run_def record_unsupported_def
proof (intro impI)
  assume r: "reached a j S ts"
  let ?ts = "if ts_unsupported ts = None
     then ts\<lparr>ts_unsupported := Some (parse_error_new (UnsupportedFeature feature) span (lit (description feature) @ lit '' are not supported''))\<rparr>
     else ts"
  have "ts_unsupported ?ts \<noteq> None" by simp
  with r assms(1) have "reached a j S' ?ts" for S'
    by (auto simp: reached_def good_stream_def error_within_def span_within_def parse_error_new_def)
  moreover have "ts_current_pos ?ts = ts_current_pos ts" "ts_input ?ts = ts_input ts" by (simp_all add: ts_current_pos_def)
  ultimately show "case Some (Inr ((), ?ts)) of None \<Rightarrow> False | Some (Inl er) \<Rightarrow> error_within 0 (input_len a) er
      | Some (Inr (x, ts')) \<Rightarrow> \<exists>j' S'. reached a j' S' ts' \<and> Q x j' S' ts'"
    using assms(2) by (simp only: option.case sum.case prod.case) blast
qed

section \<open>The operations of the stream\<close>

text \<open>Going over one token.\<close>

definition over :: "'f token_stream \<Rightarrow> 'f token_stream" where
  "over ts = ts\<lparr>ts_pos := ts_pos ts + 1\<rparr>"

lemma peek_Some:
  "ts_peek ts = Some tok \<longleftrightarrow> ts_pos ts < length (ts_tokens ts) \<and> fst (snd (ts_tokens ts ! ts_pos ts)) = tok"
  "ts_peek ts = None \<longleftrightarrow> length (ts_tokens ts) \<le> ts_pos ts" "ts_peek_n 0 ts = ts_peek ts"
  by (auto simp: ts_peek_def ts_peek_n_def)

lemma reached_over:
  assumes r: "reached a j S ts" and p: "ts_peek ts \<noteq> None"
  obtains l rr where "ts_tokens ts ! ts_pos ts = (l, the (ts_peek ts), rr)" "l = ts_current_pos ts" "l < rr" "rr \<le> ts_current_pos (over ts)"
    "ts_current_pos (over ts) \<le> input_len a" "ts_input ts = ts_input a"
    "reached a (j + 1) (S \<union> tok_params (the (ts_peek ts))) (over ts)"
proof -
  obtain l tok rr where t: "ts_tokens ts ! ts_pos ts = (l, tok, rr)" by (cases "ts_tokens ts ! ts_pos ts")
  from p have i: "ts_pos ts < length (ts_tokens ts)" by (auto simp: ts_peek_def split: if_splits)
  with t have tok: "the (ts_peek ts) = tok" by (simp add: ts_peek_def)
  have g: "good_stream ts" "ts_input ts = ts_input a" using r by (simp_all add: reached_def)
  have l: "l = ts_current_pos ts" using t i by (simp add: ts_current_pos_def)
  note b = token_spans_bound [OF g(1) i t]
  have o: "reached ts 1 (tok_params tok) (over ts)"
    using g i t by (auto simp: reached_def over_def good_stream_def seen_params_def take_Suc_conv_app_nth Cons_nth_drop_Suc [symmetric])
  have "rr \<le> ts_current_pos (over ts)" using b(2,3) by (auto simp: ts_current_pos_def over_def)
  with that [OF _ l] t tok b(1) current_pos_mono(2) [OF reached_trans [OF r o]] g(2) reached_trans [OF r o] show thesis by simp
qed

lemma run_advance [vcg]:
  assumes "ts_peek ts \<noteq> None"
    and "\<And>r ts'. ts_current_pos ts < r \<Longrightarrow> r \<le> ts_current_pos ts' \<Longrightarrow> ts_current_pos ts' \<le> input_len a \<Longrightarrow> ts_input ts' = ts_input a \<Longrightarrow>
       Q (Some (ts_current_pos ts, the (ts_peek ts), r)) (j + 1) (S \<union> tok_params (the (ts_peek ts))) ts'"
  shows "run G d e a j S ts_advance Q ts"
  unfolding run_def
proof (intro impI)
  assume r: "reached a j S ts"
  from reached_over [OF r assms(1)] obtain l rr where t: "ts_tokens ts ! ts_pos ts = (l, the (ts_peek ts), rr)" "l = ts_current_pos ts" "l < rr"
      "rr \<le> ts_current_pos (over ts)" "ts_current_pos (over ts) \<le> input_len a" "ts_input ts = ts_input a"
      "reached a (j + 1) (S \<union> tok_params (the (ts_peek ts))) (over ts)" by metis
  have "ts_advance ts = Some (Inr (Some (l, the (ts_peek ts), rr), over ts))"
    using assms(1) t(1) by (auto simp: ts_advance_def over_def ts_peek_def split: if_splits)
  moreover have "Q (Some (l, the (ts_peek ts), rr)) (j + 1) (S \<union> tok_params (the (ts_peek ts))) (over ts)"
    using assms(2) [of rr "over ts"] t by (simp add: over_def)
  ultimately show "case ts_advance ts of None \<Rightarrow> False | Some (Inl er) \<Rightarrow> error_within 0 (input_len a) er
      | Some (Inr (x, ts')) \<Rightarrow> \<exists>j' S'. reached a j' S' ts' \<and> Q x j' S' ts'" using t(7) by auto
qed

lemma run_take [vcg]:
  assumes "ts_peek ts \<noteq> None"
    and "\<And>r ts'. ts_current_pos ts < r \<Longrightarrow> r \<le> ts_current_pos ts' \<Longrightarrow> ts_current_pos ts' \<le> input_len a \<Longrightarrow> ts_input ts' = ts_input a \<Longrightarrow>
       Q (ts_current_pos ts, the (ts_peek ts), r) (j + 1) (S \<union> tok_params (the (ts_peek ts))) ts'"
  shows "run G d e a j S ts_take Q ts"
  unfolding ts_take_def by (rule run_bind, rule run_advance [OF assms(1)]) (simp only: option.case, rule run_ret, rule assms(2))

lemma run_eat_if [vcg]:
  assumes "\<And>ts'. ts_peek ts = Some tok \<Longrightarrow> ts_current_pos ts < ts_current_pos ts' \<Longrightarrow> ts_current_pos ts' \<le> input_len a \<Longrightarrow> ts_input ts' = ts_input a \<Longrightarrow>
       Q True (j + 1) (S \<union> tok_params tok) ts'"
    and "ts_peek ts \<noteq> Some tok \<Longrightarrow> Q False j S ts"
  shows "run G d e a j S (ts_eat_if tok) Q ts"
proof (cases "ts_peek ts = Some tok")
  case True
  have "run G d e a j S ts_advance (\<lambda>_. Q True) ts" by (rule run_advance) (use True assms(1) in auto)
  with True show ?thesis by (fastforce simp: run_def ts_eat_if_def ts_at_def ts_advance_def peek_Some split: option.splits sum.splits)
next
  case False
  with assms(2) show ?thesis by (auto simp: run_def ts_eat_if_def ts_at_def)
qed

lemma run_eat [vcg]:
  assumes "\<And>r ts'. ts_current_pos ts < r \<Longrightarrow> r \<le> ts_current_pos ts' \<Longrightarrow> ts_current_pos ts' \<le> input_len a \<Longrightarrow> ts_input ts' = ts_input a \<Longrightarrow>
       Q (ts_current_pos ts, r) (j + 1) (S \<union> tok_params tok) ts'"
  shows "run G d e a j S (ts_eat fmt tok) Q ts"
proof (cases "ts_peek ts = Some tok")
  case True
  have "run G d e a j S ts_take (\<lambda>(l, _, r). Q (l, r)) ts" by (rule run_take) (use True assms(1) in auto)
  moreover have "ts_take ts = map_option (map_sum id (map_prod (\<lambda>(l, r). (l, tok, r)) id)) (ts_eat fmt tok ts)"
    using True by (cases "ts_tokens ts ! ts_pos ts") (auto simp: ts_eat_def ts_take_def ts_advance_def bindp_def ret_def peek_Some)
  ultimately show ?thesis by (fastforce simp: run_def split: option.splits sum.splits)
next
  case False
  have "run G d e a j S (fail_here fmt [] :: ('a, unit) parser) (\<lambda>_ _ _ _. True) ts" by (rule run_fail_here)
  with False show ?thesis
    by (cases "ts_tokens ts ! ts_pos ts")
       (auto simp: run_def fail_here_def ts_err_def ts_eat_def peek_Some error_within_def parse_error_new_def ts_current_pos_def)
qed

text \<open>Advancing, when nothing is known of the token, and advancing over tokens on a clone.\<close>

lemma run_advance_any:
  assumes "ts_peek ts = None \<Longrightarrow> Q None j S ts"
    and "\<And>tok r ts'. ts_peek ts = Some tok \<Longrightarrow> ts_current_pos ts < r \<Longrightarrow> r \<le> ts_current_pos ts' \<Longrightarrow> ts_current_pos ts' \<le> input_len a \<Longrightarrow>
       ts_input ts' = ts_input a \<Longrightarrow> Q (Some (ts_current_pos ts, tok, r)) (j + 1) (S \<union> tok_params tok) ts'"
  shows "run G d e a j S ts_advance Q ts"
proof (cases "ts_peek ts")
  case None
  with assms(1) show ?thesis by (auto simp: run_def ts_advance_def peek_Some)
next
  case (Some tok)
  show ?thesis by (rule run_advance) (use Some assms(2) in auto)
qed

section \<open>Loops\<close>

lemma run_context: "(callable G d e a \<Longrightarrow> reached a j S ts \<Longrightarrow> run G d e a j S p Q ts) \<Longrightarrow> run G d e a j S p Q ts"
  by (simp add: run_def)

lemma run_iterate:
  assumes step: "\<And>x j S ts. Inv x j S ts \<Longrightarrow> run G d e a j S (step x)
      (\<lambda>r j' S' ts'. case r of Inl y \<Rightarrow> j < j' \<and> Inv y j' S' ts' | Inr y \<Rightarrow> Q y j' S' ts') ts"
  shows "Inv x j S ts \<Longrightarrow> length (ts_tokens a) < j + n \<Longrightarrow> run G d e a j S (iterate n step x) Q ts"
proof (induction n arbitrary: x j S ts)
  case 0
  then show ?case by (auto simp: run_def reached_def good_stream_def)
next
  case (Suc n)
  have "run G d e a j S (step x) (\<lambda>r j' S' ts'. run G d e a j' S' (case r of Inl x \<Rightarrow> iterate n step x | Inr y \<Rightarrow> ret y) Q ts') ts"
    using step [OF Suc.prems(1)] Suc.IH Suc.prems(2) unfolding run_def
    by (fastforce simp: ret_def split: option.splits sum.splits)
  then show ?case by (simp add: run_bind)
qed

lemma run_loop:
  assumes "Inv x j S ts"
    and "\<And>x j S ts. Inv x j S ts \<Longrightarrow> run G d e a j S (step x)
      (\<lambda>r j' S' ts'. case r of Inl y \<Rightarrow> j < j' \<and> Inv y j' S' ts' | Inr y \<Rightarrow> Q y j' S' ts') ts"
  shows "run G d e a j S (loop step x) Q ts"
proof -
  have "run G d e a j S (iterate (length (ts_tokens a) + 1) step x) Q ts"
    by (rule run_iterate [where Inv = Inv]) (use assms in simp_all)
  then show ?thesis by (auto simp: run_def loop_def reached_def)
qed

text \<open>Where a run is: after its origin, and after a given position.\<close>

definition later :: "'f token_stream \<Rightarrow> nat \<Rightarrow> 'f token_stream \<Rightarrow> bool" where
  "later a p ts \<longleftrightarrow> p \<le> ts_current_pos ts \<and> ts_current_pos ts \<le> input_len a \<and> ts_input ts = ts_input a"

lemma later_start: "reached a j S ts \<Longrightarrow> later a (ts_current_pos ts) ts"
  using current_pos_mono [of a j S ts] by (simp add: later_def reached_def)

lemma run_while_eat:
  fixes ts :: "'f token_stream"
  assumes item: "spec G d' e' k W (\<lambda>x a b. P (input_len a) x) item" and d: "d \<le> Suc j + d'" "e \<le> Suc j + e'" and sep: "tok_params sep = {}"
    and Q: "\<And>zs j' ts'. j \<le> j' \<Longrightarrow> list_all (P (input_len a)) zs \<Longrightarrow> later a (ts_current_pos ts) ts' \<Longrightarrow> Q (xs @ zs) j' (S \<union> \<Union> (W ` set zs)) ts'"
  shows "run G d e a j S (while_eat sep item xs) Q ts"
proof (rule run_context)
  assume r: "reached a j S ts"
  define Inv where "Inv ys j' S' ts' \<longleftrightarrow> (\<exists>zs. ys = xs @ zs \<and> j \<le> j' \<and> S' = S \<union> \<Union> (W ` set zs) \<and> list_all (P (input_len a)) zs \<and>
    later a (ts_current_pos ts) ts')" for ys j' S' and ts' :: "'f token_stream"
  show ?thesis unfolding while_eat_def
  proof (rule run_loop [where Inv = Inv])
    show "Inv xs j S ts" using later_start [OF r] by (simp add: Inv_def)
    fix ys j' S' ts'
    assume "Inv ys j' S' ts'"
    then obtain zs where i: "ys = xs @ zs" "j \<le> j'" "S' = S \<union> \<Union> (W ` set zs)" "list_all (P (input_len a)) zs" "later a (ts_current_pos ts) ts'"
      by (auto simp: Inv_def)
    have "d \<le> j' + 1 + d'" "e \<le> j' + 1 + e'" using d i(2) by simp_all
    then have more: "run G d e a (j' + 1) (S' \<union> tok_params sep) (bindp item (\<lambda>x. ret (Inl (ys @ [x]))))
        (\<lambda>r j'' S'' ts''. case r of Inl y \<Rightarrow> j' < j'' \<and> Inv y j'' S'' ts'' | Inr y \<Rightarrow> Q y j'' S'' ts'') ts1"
      if "ts_current_pos ts' < ts_current_pos ts1" for ts1
    proof (intro run_bind spec_call [OF item] run_ret, goal_cases)
      case (4 x ts2)
      then show ?case using i that sep by (auto simp: Inv_def later_def intro!: exI [of _ "zs @ [x]"])
    qed simp_all
    show "run G d e a j' S' (bindp (ts_eat_if sep) (\<lambda>more. if more then bindp item (\<lambda>x. ret (Inl (ys @ [x]))) else ret (Inr ys)))
      (\<lambda>r j'' S'' ts''. case r of Inl y \<Rightarrow> j' < j'' \<and> Inv y j'' S'' ts'' | Inr y \<Rightarrow> Q y j'' S'' ts'') ts'"
      using more Q [OF i(2,4,5)] i(1,3) by (intro run_bind run_eat_if) (simp_all add: run_ret)
  qed
qed

text \<open>Lists of one item after another.\<close>

lemma spec_comma:
  assumes item: "spec G d e k W (\<lambda>x a b. P (input_len a) x) item"
  shows "spec G d e k (\<lambda>xs. \<Union> (W ` set xs)) (\<lambda>xs a b. xs \<noteq> [] \<and> list_all (P (input_len a)) xs) (comma_separated item)"
  unfolding comma_separated_def
proof (intro specI run_bind spec_call [OF item] run_while_eat [OF item])
  fix a x zs j'
  assume "P (input_len a) x" "0 + k \<le> j'" "list_all (P (input_len a)) zs"
  then show "k \<le> j' \<and> {} \<union> W x \<union> \<Union> (W ` set zs) = \<Union> (W ` set ([x] @ zs)) \<and> [x] @ zs \<noteq> [] \<and> list_all (P (input_len a)) ([x] @ zs)" by auto
qed (simp_all add: tok_params_def)

lemma spec_weaken:
  assumes "spec_when C G d e k W V p" "\<And>x a b. V x a b \<Longrightarrow> V' x a b"
  shows "spec_when C G d e k W V' p"
  using assms unfolding spec_when_def parse_outcome_def by (fastforce split: option.splits sum.splits)

section \<open>Recursive calls\<close>

lemma spec_g_expr: "spec G 0 0 1 expr_params (\<lambda>e a b. expr_valid (input_len a) e \<and> span_from_to e a b) (g_expr G bp)"
  unfolding spec_when_def
proof (intro allI impI)
  fix ts assume "good_stream ts" "callable G 0 0 ts"
  then have "expr_outcome (g_expr G bp) ts" using reached_refl [of ts] unfolding callable_def by blast
  then show "parse_outcome 1 expr_params (\<lambda>e a b. expr_valid (input_len a) e \<and> span_from_to e a b) (g_expr G bp) ts" by (simp add: expr_outcome_def)
qed

lemma spec_g_pattern_any:
  "spec G d 0 1 (\<lambda>p. parts_params (set2_path_pattern p))
     (\<lambda>p a b. alternates (p_elements p) \<and> parts_valid (input_len a) (set1_path_pattern p) (set2_path_pattern p)) (g_pattern G)"
  unfolding spec_when_def
proof (intro allI impI)
  fix ts assume "good_stream ts" "callable G d 0 ts"
  then have "path_outcome (g_pattern G) ts" using reached_refl [of ts] unfolding callable_def by blast
  then show "parse_outcome 1 (\<lambda>p. parts_params (set2_path_pattern p))
     (\<lambda>p a b. alternates (p_elements p) \<and> parts_valid (input_len a) (set1_path_pattern p) (set2_path_pattern p)) (g_pattern G) ts"
    by (simp add: path_outcome_def)
qed

lemmas spec_g_pattern = spec_g_pattern_any [where d = 0]

end
