(* ===== verification/Pattern_Specs.thy ===== *)
theory Pattern_Specs
  imports Parser_Contract
begin

text \<open>
  The contracts of the parsers of names, relationship patterns, node patterns and paths.
\<close>

lemma spec_leaf_call:
  assumes "spec_when C G d e k W V p" "C ts"
    and "\<And>x ts'. V x ts ts' \<Longrightarrow> ts_input ts = ts_input a \<Longrightarrow> ts_current_pos ts \<le> ts_current_pos ts' \<Longrightarrow> ts_current_pos ts' \<le> input_len a \<Longrightarrow>
       ts_input ts' = ts_input a \<Longrightarrow> Q x (j + k) (S \<union> W x) ts'"
  shows "run G d e a j S p Q ts"
  by (rule spec_call [OF assms(1,2)]) (use assms(3) in simp_all)

lemmas [vcg] = spec_g_expr [THEN spec_call] spec_g_pattern [THEN spec_call]

lemma peek_simps [simp]:
  "ts_at tok ts \<longleftrightarrow> ts_peek ts = Some tok" "peek_ident 0 ts = Some name \<longleftrightarrow> ts_peek ts = Some (TIdent name)"
  "peek_int ts = Some n \<longleftrightarrow> ts_peek ts = Some (TIntLit n)"
  by (auto simp: ts_at_def peek_ident_def peek_int_def peek_Some(3) token_contents bind_eq_Some_conv)

lemma tok_params_simps [simp]:
  "tok_params (TParam s) = {s}" "tok_params (TIdent s) = {}" "tok_params (TIntLit n) = {}" "tok_params (TKeyword kw) = {}"
  "tok_params (TStrLit s) = {}" "tok_params (TFloatLit f) = {}"
  "tok_params TLParen = {}" "tok_params TRParen = {}" "tok_params TLBracket = {}" "tok_params TRBracket = {}" "tok_params TLBrace = {}"
  "tok_params TRBrace = {}" "tok_params TDot = {}" "tok_params TComma = {}" "tok_params TColon = {}" "tok_params TPipe = {}"
  "tok_params TDotDot = {}" "tok_params TEq = {}" "tok_params TMinus = {}" "tok_params TStar = {}" "tok_params TPlusEq = {}"
  "tok_params TRelOpen = {}" "tok_params TLeftArrow = {}" "tok_params TRightArrow = {}"
  by (auto simp: tok_params_def)

abbreviation no_params :: "'a \<Rightarrow> ustring set" where
  "no_params x \<equiv> {}"

abbreviation anything :: "'a \<Rightarrow> 'f token_stream \<Rightarrow> 'f token_stream \<Rightarrow> bool" where
  "anything x a b \<equiv> True"

lemma spec_eat_ident: "spec G d e 1 no_params anything (pattern_eat_ident G)"
  unfolding pattern_eat_ident_def by (rule specI, intro vcg; simp)

lemma spec_eat_name:
  assumes "\<And>tok s. name_of tok = Some s \<Longrightarrow> tok_params tok = {}"
  shows "spec G d e 1 no_params anything (eat_name G name_of msg eof_msg)"
  unfolding eat_name_def by (rule specI, intro vcg; simp add: assms token_contents)

lemma spec_pattern_label: "spec G d e 1 no_params anything (pattern_eat_label_name G)"
  unfolding pattern_eat_label_name_def
  by (rule spec_eat_name) (auto simp: tok_as_label_str_def bind_eq_Some_conv token_contents)

lemmas [vcg] = spec_eat_ident [THEN spec_leaf_call] spec_pattern_label [THEN spec_leaf_call]

lemma run_to_u32 [vcg]:
  "span_within (input_len a) span \<Longrightarrow> (\<And>h. h < 2 ^ 32 \<Longrightarrow> Q h j S ts) \<Longrightarrow> run G d e a j S (pattern_to_u32 m span) Q ts"
  unfolding pattern_to_u32_def by (intro vcg) (auto simp: span_within_def error_within_def parse_error_new_def)

lemma spec_u32_lit: "spec G d e 1 no_params (\<lambda>h _ _. h < 2 ^ 32) (parse_u32_lit G)"
  unfolding parse_u32_lit_def by (rule specI, intro vcg; clarsimp simp: span_within_def)

lemmas [vcg] = spec_u32_lit [THEN spec_leaf_call]

lemma spec_hop_range:
  "spec G d e 0 no_params (\<lambda>(lo, hi) _ _. \<forall>h\<in>set_option lo \<union> set_option hi. h < 2 ^ 32) (parse_hop_range G)"
  unfolding parse_hop_range_def by (rule specI, intro vcg; clarsimp simp: span_within_def)

lemmas [vcg] = spec_hop_range [THEN spec_leaf_call]

lemma spec_opt_var: "spec G d e 0 no_params anything (opt_var G)"
  unfolding opt_var_def by (rule specI, intro vcg; simp)

lemma spec_opt_properties:
  "spec G 0 0 0 (\<lambda>e. parts_params (set_option e)) (\<lambda>e a b. parts_valid (input_len a) {} (set_option e)) (opt_properties G)"
  unfolding opt_properties_def by (rule specI, intro vcg; simp)

lemma spec_rel_types: "spec G d e 0 no_params anything (parse_rel_types G)"
proof -
  have item: "spec G d e 1 no_params anything (bindp (ts_eat_if TColon) (\<lambda>_. pattern_eat_label_name G))"
    by (rule specI, intro vcg; simp)
  show ?thesis unfolding parse_rel_types_def
    by (rule specI, intro vcg run_while_eat [OF item]; simp)
qed

lemmas [vcg] = spec_opt_var [THEN spec_leaf_call] spec_opt_properties [THEN spec_call] spec_rel_types [THEN spec_leaf_call]

lemma spec_rel_detail:
  "spec G 0 0 0 (\<lambda>(_, _, _, _, e). parts_params (set_option e))
     (\<lambda>(_, _, lo, hi, e) a b. (\<forall>h\<in>set_option lo \<union> set_option hi. h < 2 ^ 32) \<and> parts_valid (input_len a) {} (set_option e))
     (parse_rel_detail G)"
  unfolding parse_rel_detail_def by (rule specI, intro vcg; clarsimp)

lemmas [vcg] = spec_rel_detail [THEN spec_call]

lemma spec_rel_pattern:
  "spec G 1 1 1 (\<lambda>r. parts_params (set2_rel_pattern r))
     (\<lambda>r a b. hops_ok r \<and> parts_valid (input_len a) (set1_rel_pattern r) (set2_rel_pattern r)) (parse_rel_pattern G)"
  unfolding parse_rel_pattern_def by (rule specI, intro vcg; clarsimp simp: hops_ok_def span_within_def)

lemma spec_labels: "spec G d e 0 no_params anything (while_eat TColon (pattern_eat_label_name G) [])"
  by (intro specI run_while_eat [OF spec_pattern_label [where d = d and e = e]]; simp)

lemmas [vcg] = spec_rel_pattern [THEN spec_call] spec_labels [THEN spec_leaf_call]

lemma spec_node_pattern:
  "spec G 1 1 2 (\<lambda>n. parts_params (set2_node_pattern n))
     (\<lambda>n a b. parts_valid (input_len a) (set1_node_pattern n) (set2_node_pattern n)) (parse_node_pattern_inner G)"
  unfolding parse_node_pattern_inner_def by (rule specI, intro vcg; clarsimp simp: span_within_def)

lemmas [vcg] = spec_node_pattern [THEN spec_call]

lemma alternates_snoc: "alternates xs \<Longrightarrow> hops_ok rel \<Longrightarrow> alternates (xs @ [PRel rel, PNode node])"
  by (induction xs rule: alternates.induct) simp_all

definition elements_ok :: "nat \<Rightarrow> (span, 'f exp) path_element list \<Rightarrow> bool" where
  "elements_ok n xs \<longleftrightarrow> alternates xs \<and> parts_valid n (\<Union> (set1_path_element ` set xs)) (\<Union> (set2_path_element ` set xs))"

definition elements_params :: "(span, 'f exp) path_element list \<Rightarrow> ustring set" where
  "elements_params xs = parts_params (\<Union> (set2_path_element ` set xs))"

lemma path_pattern_parts [simp]:
  "set1_path_pattern p = insert (p_span p) (\<Union> (set1_path_element ` set (p_elements p)))"
  "set2_path_pattern p = \<Union> (set2_path_element ` set (p_elements p))"
  by (cases p, simp)+

lemma run_path_elements [vcg]:
  fixes G :: "'f grammar"
  assumes "elements_ok (input_len a) xs" "elements_params xs = S" "d \<le> j + 1" "e \<le> j + 1"
    and Q: "\<And>ys j' ts'. j \<le> j' \<Longrightarrow> elements_ok (input_len a) ys \<Longrightarrow> later a (ts_current_pos ts) ts' \<Longrightarrow> Q ys j' (elements_params ys) ts'"
  shows "run G d e a j S (parse_path_elements G xs) Q ts"
proof (rule run_context)
  assume r: "reached a j S ts"
  let ?Inv = "\<lambda>(ys :: (span, 'f exp) path_element list) j' S' ts'. j \<le> j' \<and> S' = elements_params ys \<and> elements_ok (input_len a) ys \<and> later a (ts_current_pos ts) ts'"
  show ?thesis unfolding parse_path_elements_def
  proof (rule run_loop [where Inv = ?Inv])
    show "?Inv xs j S ts" using assms later_start [OF r] by simp
    fix ys j' S' ts'
    assume i: "?Inv ys j' S' ts'"
    with assms(3,4) Q show "run G d e a j' S' (seeing ts_peek (\<lambda>t. if is_relationship_start t then
         bindp (parse_rel_pattern G) (\<lambda>rel. bindp (parse_node_pattern_inner G) (\<lambda>node. ret (Inl (ys @ [PRel rel, PNode node]))))
       else ret (Inr ys))) (\<lambda>r j'' S'' ts''. case r of Inl y \<Rightarrow> j' < j'' \<and> ?Inv y j'' S'' ts'' | Inr y \<Rightarrow> Q y j'' S'' ts'') ts'"
      by (intro vcg; auto simp: elements_ok_def elements_params_def alternates_snoc later_def)
  qed
qed

lemma spec_path_var: "spec G d e 0 no_params anything (parse_path_var G)"
  unfolding parse_path_var_def by (rule specI, intro vcg; simp)

lemmas [vcg] = spec_path_var [THEN spec_leaf_call]

lemma spec_pattern:
  "spec G 1 1 1 (\<lambda>p. parts_params (set2_path_pattern p))
     (\<lambda>p a b. alternates (p_elements p) \<and> parts_valid (input_len a) (set1_path_pattern p) (set2_path_pattern p)) (parse_pattern_inner G)"
  unfolding parse_pattern_inner_def
  by (rule specI, intro vcg; auto simp: span_within_def elements_ok_def elements_params_def later_def ts_span_from_def peek_keyword_in_def)

end
