(* ===== verification/Expr_Specs.thy ===== *)
theory Expr_Specs
  imports Pattern_Specs
begin

text \<open>
  The contracts of the parsers of expressions: prefix forms, infix forms and the loop over binding powers.
\<close>

section \<open>Expressions\<close>

lemmas [vcg] = spec_pattern [THEN spec_call]

text \<open>An expression that starts at a given position.\<close>

definition started :: "nat \<Rightarrow> 'f exp \<Rightarrow> 'f token_stream \<Rightarrow> 'f token_stream \<Rightarrow> bool" where
  "started start e a b \<longleftrightarrow> (start \<le> ts_current_pos a \<longrightarrow>
     expr_valid (input_len a) e \<and> fst (expr_span e) = start \<and> snd (expr_span e) \<le> ts_current_pos b)"

lemmas span_simps = span_within_def ts_span_from_def ts_current_span_def span_from_to_def started_def

lemma advance_n_eq: "ts_pos ts + n \<le> length (ts_tokens ts) \<Longrightarrow> ts_advance_n n ts = Some (Inr ((), ts\<lparr>ts_pos := ts_pos ts + n\<rparr>))"
  by (induction n arbitrary: ts) (simp_all add: ret_def bindp_def ts_advance_def)

lemma run_advance_n:
  assumes n: "ts_pos ts + n \<le> length (ts_tokens ts)"
    and t: "list_all (\<lambda>(_, tok, _). tok_params tok = {}) (take n (drop (ts_pos ts) (ts_tokens ts)))"
    and Q: "\<And>ts'. later a (ts_current_pos ts) ts' \<Longrightarrow> Q () (j + n) S ts'"
  shows "run G d e a j S (ts_advance_n n) Q ts"
  unfolding run_def
proof (intro impI)
  let ?ts = "ts\<lparr>ts_pos := ts_pos ts + n\<rparr>"
  assume r: "reached a j S ts"
  then have "reached ts n {} ?ts"
    using n t by (auto simp: reached_def good_stream_def seen_params_def list_all_iff case_prod_beta)
  then have "reached a (j + n) S ?ts" "later a (ts_current_pos ts) ?ts"
    using reached_trans [OF r, of n "{}" ?ts] current_pos_mono [of ts n "{}" ?ts] r by (auto simp: later_def reached_def)
  then show "case ts_advance_n n ts of None \<Rightarrow> False | Some (Inl er) \<Rightarrow> error_within 0 (input_len a) er
      | Some (Inr (x, ts')) \<Rightarrow> \<exists>j' S'. reached a j' S' ts' \<and> Q x j' S' ts'"
    using advance_n_eq [OF n] Q by auto
qed

lemma dotted_bound:
  "2 * length (dotted_segments toks) \<le> length toks \<and> list_all (\<lambda>tok. tok_params tok = {}) (take (2 * length (dotted_segments toks)) toks)"
  by (induction toks rule: dotted_segments.induct) (auto simp: token_contents split: option.split)

lemma run_segments [vcg]:
  assumes "namespaced_call_segments name ts = Some segments"
    and "\<And>ts'. later a (ts_current_pos ts) ts' \<Longrightarrow> segments \<noteq> [] \<Longrightarrow> Q () (j + 2 * (length segments - 1)) S ts'"
  shows "run G d e a j S (ts_advance_n (2 * (length segments - 1))) Q ts"
proof (rule run_context)
  assume r: "reached a j S ts"
  let ?toks = "map (\<lambda>(_, tok, _). tok) (drop (ts_pos ts) (ts_tokens ts))"
  have s: "segments = name # dotted_segments ?toks" using assms(1) by (auto simp: namespaced_call_segments_def Let_def split: if_splits)
  have "good_stream ts" using r by (simp add: reached_def)
  then have "ts_pos ts \<le> length (ts_tokens ts)" by (simp add: good_stream_def)
  with s dotted_bound [of ?toks] show ?thesis
    by (intro run_advance_n assms(2)) (auto simp: list_all_iff take_map)
qed

lemma spec_ident_span: "spec G d e 1 no_params (\<lambda>(_, s) a b. span_within (input_len a) s) (eat_ident_with_span G)"
  unfolding eat_ident_with_span_def
proof (rule specI, rule run_bind, rule run_advance_any, goal_cases)
  case (2 a tok r ts')
  then show ?case
    by (intro vcg) (auto simp: span_simps token_contents tok_as_keyword_str_def bind_eq_Some_conv error_within_def parse_error_new_def)
qed (simp add: run_fail_here)

lemmas [vcg] = spec_ident_span [THEN spec_leaf_call]

lemma spec_expr_ident: "spec G d e 1 no_params anything (eat_ident G)"
  unfolding eat_ident_def by (rule specI, intro vcg; simp)

lemma run_to_i64 [vcg]:
  "span_within (input_len a) span \<Longrightarrow> (\<And>m. literal_ok (LInt m span) \<Longrightarrow> Q m j S ts) \<Longrightarrow> run G d e a j S (expr_to_i64 n span) Q ts"
  unfolding expr_to_i64_def by (intro vcg) (auto simp: span_simps error_within_def parse_error_new_def)

text \<open>A negated literal is the negation of a literal that was not negative, so it keeps the range.\<close>

lemma run_negate [vcg]:
  "span_within (input_len a) span \<Longrightarrow> 0 \<le> n \<Longrightarrow> (\<And>m. literal_ok (LInt m span) \<Longrightarrow> Q m j S ts) \<Longrightarrow>
   run G d e a j S (negate_i64_magnitude n span) Q ts"
  unfolding negate_i64_magnitude_def expr_to_i64_def by (intro vcg) (auto simp: span_simps error_within_def parse_error_new_def)

lemmas [vcg] = spec_expr_ident [THEN spec_leaf_call]

lemma run_unsupported_expr [vcg]:
  assumes "start \<le> ts_current_pos ts" "ts_current_pos ts \<le> input_len a"
    and "\<And>x ts'. expr_valid (input_len a) x \<Longrightarrow> fst (expr_span x) = start \<Longrightarrow> snd (expr_span x) \<le> ts_current_pos ts' \<Longrightarrow> ts_input ts' = ts_input ts \<Longrightarrow> Q x j (expr_params x) ts'"
  shows "run G d e a j S (unsupported start feature) Q ts"
  unfolding unsupported_def
  using assms(3) [of "ELiteral (LNull (ts_span_from start ts))"] assms(1,2)
  by (intro run_seeing run_bind run_unsupported [where T = "\<lambda>_. {}"] run_ret; simp add: span_simps)

lemma spec_exprs:
  "spec G 0 0 1 (\<lambda>es. parts_params (set es)) (\<lambda>es a b. es \<noteq> [] \<and> exprs_valid (input_len a) (set es)) (comma_separated (g_expr G bp))"
proof -
  have "spec G 0 0 1 expr_params (\<lambda>e a b. expr_valid (input_len a) e) (g_expr G bp)" by (rule spec_weaken [OF spec_g_expr]) simp
  from spec_comma [OF this] show ?thesis by (simp add: parts_params_def exprs_valid_def list_all_iff)
qed

lemmas [vcg] = spec_exprs [THEN spec_call]

lemma spec_args:
  assumes "name \<noteq> []"
  shows "spec G 0 0 1 expr_params (started start) (parse_function_call_args G name start)"
  unfolding parse_function_call_args_def by (rule specI, intro vcg; auto simp: span_simps assms)

lemma spec_opt_after:
  "tok_params tok = {} \<Longrightarrow> spec G 0 0 0 (\<lambda>e. parts_params (set_option e)) (\<lambda>e a b. exprs_valid (input_len a) (set_option e)) (opt_after G tok)"
  unfolding opt_after_def by (rule specI, intro vcg; simp)

lemmas [vcg] = spec_args [THEN spec_call] spec_opt_after [OF tok_params_simps(4), THEN spec_call] spec_opt_after [OF tok_params_simps(16), THEN spec_call]

lemma spec_identifier:
  "spec_when (\<lambda>ts. ts_peek ts = Some (TIdent name) \<and> start = ts_current_pos ts) G 1 1 1 expr_params (started start) (parse_identifier G name start)"
  unfolding parse_identifier_def by (rule specI, intro vcg; auto simp: span_simps later_def)

lemmas [vcg] = spec_identifier [THEN spec_call]

lemma peek_ident_None [simp]: "peek_ident 0 ts \<noteq> None \<longleftrightarrow> (\<exists>name. ts_peek ts = Some (TIdent name))"
  using peek_simps(2) [of ts] by (metis not_None_eq)

lemma spec_quantifier:
  "spec_when at_var_in G 1 1 1 expr_params (started start) (parse_quantifier G kind start)"
  unfolding parse_quantifier_def by (rule specI, intro vcg; auto simp: span_simps at_var_in_def)

lemmas [vcg] = spec_quantifier [THEN spec_call]

abbreviation at_keyword :: "'f token_stream \<Rightarrow> bool" where
  "at_keyword ts \<equiv> \<exists>kw. ts_peek ts = Some (TKeyword kw)"

lemma spec_quantifier_or_call:
  "spec_when at_keyword G 1 1 1 expr_params (started start) (parse_quantifier_or_call G kw start)"
  unfolding parse_quantifier_or_call_def by (rule specI, intro vcg; auto simp: span_simps)

lemma spec_when_clause:
  "spec G 0 0 1 (\<lambda>w. parts_params (set2_when_clause w)) (\<lambda>w a b. parts_valid (input_len a) (set1_when_clause w) (set2_when_clause w)) (parse_when_clause G)"
  unfolding parse_when_clause_def by (rule specI, intro vcg; auto simp: span_simps)

lemma spec_case:
  "spec G 0 0 1 expr_params (started start) (parse_case_expr G start)"
  unfolding parse_case_expr_def
  by (rule specI, intro vcg run_while_eat [where P = "\<lambda>n w. parts_valid n (set1_when_clause w) (set2_when_clause w)", OF spec_when_clause];
      auto simp: span_simps later_def list_all_iff)

lemmas [vcg] = spec_quantifier_or_call [THEN spec_call] spec_case [THEN spec_call]

section \<open>Lists and maps\<close>

lemma run_advance_two [vcg]:
  assumes "peek_ident 0 ts \<noteq> None \<and> ts_peek_n 1 ts = Some TEq" and "\<And>ts'. later a (ts_current_pos ts) ts' \<Longrightarrow> Q () (j + 2) S ts'"
  shows "run G d e a j S (ts_advance_n 2) Q ts"
proof (rule run_advance_n)
  from assms(1) obtain name where n: "ts_pos ts + 1 < length (ts_tokens ts)" "fst (snd (ts_tokens ts ! (ts_pos ts + 1))) = TEq"
      "fst (snd (ts_tokens ts ! ts_pos ts)) = TIdent name"
    by (auto simp: peek_Some ts_peek_n_def split: if_splits)
  then show "ts_pos ts + 2 \<le> length (ts_tokens ts)" by simp
  have "take 2 (drop (ts_pos ts) (ts_tokens ts)) = [ts_tokens ts ! ts_pos ts, ts_tokens ts ! (ts_pos ts + 1)]"
    using n(1) by (simp add: numeral_2_eq_2 take_Suc_conv_app_nth)
  with n(2,3) show "list_all (\<lambda>(_, tok, _). tok_params tok = {}) (take 2 (drop (ts_pos ts) (ts_tokens ts)))"
    by (auto simp: case_prod_beta)
qed (rule assms(2))

lemma spec_try_comprehension:
  "spec G 0 0 0 (\<lambda>e. parts_params (set_option e)) (\<lambda>e a b. \<forall>x\<in>set_option e. started start x a b) (try_parse_pattern_comprehension G start)"
  unfolding try_parse_pattern_comprehension_def by (rule specI, intro vcg; auto simp: span_simps later_def)

lemmas [vcg] = spec_try_comprehension [THEN spec_call]

lemma spec_list:
  "spec G 0 0 0 expr_params (started start) (parse_list_or_comprehension G start)"
  unfolding parse_list_or_comprehension_def by (rule specI, intro vcg; auto simp: span_simps at_var_in_def)

definition entries_ok :: "nat \<Rightarrow> (ustring \<times> 'f exp) list \<times> (ustring \<times> span) list \<Rightarrow> bool" where
  "entries_ok n = (\<lambda>(entries, key_spans). distinct (map fst entries) \<and> map fst key_spans = map fst entries \<and>
     parts_valid n (snd ` set key_spans) (snd ` set entries))"

lemma spec_map_entries:
  "spec G 0 0 0 (\<lambda>x. parts_params (snd ` set (fst x))) (\<lambda>x a b. entries_ok (input_len a) x) (parse_map_entries G)"
proof (rule specI)
  fix a :: "'a token_stream"
  show "run G 0 0 a 0 {} (parse_map_entries G) (\<lambda>x j S ts. 0 \<le> j \<and> S = parts_params (snd ` set (fst x)) \<and> entries_ok (input_len a) x) a"
    unfolding parse_map_entries_def
    by (rule run_loop [where Inv = "\<lambda>x j S ts. S = parts_params (snd ` set (fst x)) \<and> entries_ok (input_len a) x"],
        simp add: entries_ok_def, intro vcg; auto simp: entries_ok_def)
qed

lemmas [vcg] = spec_list [THEN spec_call] spec_map_entries [THEN spec_call]

lemma spec_map: "spec G 0 0 0 expr_params (started start) (parse_map_literal G start)"
  unfolding parse_map_literal_def by (rule specI, intro vcg; auto simp: span_simps entries_ok_def)

section \<open>Prefix forms\<close>

lemma spec_g_subquery:
  "spec G 0 0 0 (\<lambda>q. parts_params (set2_ast_query q))
     (\<lambda>q a b. query_ok q \<and> parts_valid (input_len a) (set1_ast_query q) (set2_ast_query q) \<and>
        (q_clauses q = [] \<longrightarrow> ts_peek a = None \<or> ts_peek a = Some TRBrace)) (g_subquery G)"
  unfolding spec_when_def
proof (intro allI impI)
  fix ts assume "good_stream ts" "callable G 0 0 ts"
  then have "query_outcome (g_subquery G) ts" using reached_refl [of ts] unfolding callable_def by blast
  then show "parse_outcome 0 (\<lambda>q. parts_params (set2_ast_query q)) (\<lambda>q a b. query_ok q \<and> parts_valid (input_len a) (set1_ast_query q) (set2_ast_query q) \<and>
        (q_clauses q = [] \<longrightarrow> ts_peek a = None \<or> ts_peek a = Some TRBrace)) (g_subquery G) ts"
    by (simp add: query_outcome_def)
qed

lemmas [vcg] = spec_map [THEN spec_call] spec_g_subquery [THEN spec_call]

lemma peek_keyword_in_eq: "peek_keyword_in kws ts \<longleftrightarrow> (\<exists>kw\<in>set kws. ts_peek ts = Some (TKeyword kw))"
  by (auto simp: peek_keyword_in_def token_contents bind_eq_Some_conv list_ex_iff split: option.splits)

lemma spec_exists: "spec_when at_keyword G 1 1 1 expr_params (started start) (parse_exists G start)"
  unfolding parse_exists_def by (rule specI, intro vcg; auto simp: span_simps query_ok_def peek_keyword_in_eq)

lemmas [vcg] = spec_exists [THEN spec_call]

lemma spec_count_block: "spec_when (\<lambda>ts. at_keyword ts \<and> start = ts_current_pos ts) G 1 1 1 expr_params (started start) (parse_count_block G start)"
  unfolding parse_count_block_def by (rule specI, intro vcg; auto simp: span_simps)

lemma spec_reduce: "spec_when (\<lambda>ts. at_keyword ts \<and> start = ts_current_pos ts) G 1 1 1 expr_params (started start) (parse_reduce G start)"
  unfolding parse_reduce_def by (rule specI, intro vcg; auto simp: span_simps)

lemma spec_shortest_path: "spec_when (\<lambda>ts. at_keyword ts \<and> start = ts_current_pos ts) G 1 1 1 expr_params (started start) (parse_shortest_path G start)"
  unfolding parse_shortest_path_def by (rule specI, intro vcg; auto simp: span_simps)

lemma spec_keyword_function: "spec_when at_keyword G 1 1 1 expr_params (started start) (parse_keyword_function G kw start)"
  unfolding parse_keyword_function_def by (rule specI, intro vcg; auto simp: span_simps)

lemma run_try_predicate [vcg]:
  assumes "Q None j S ts" "d \<le> j + 1" "e \<le> j"
    and "\<And>x T ts'. T = S \<union> expr_params x \<Longrightarrow> started start x ts ts' \<Longrightarrow> ts_input ts = ts_input a \<Longrightarrow> ts_current_pos ts \<le> ts_current_pos ts' \<Longrightarrow> ts_current_pos ts' \<le> input_len a \<Longrightarrow>
      ts_input ts' = ts_input a \<Longrightarrow> Q (Some x) (j + 1) T ts'"
  shows "run G d e a j S (try_parse_pattern_predicate G start) Q ts"
  unfolding try_parse_pattern_predicate_def
  by (intro run_bind run_clone spec_call [OF spec_node_pattern] run_seeing run_ret run_if spec_call [OF spec_g_pattern_any [where d = 1]] assms(1,4))
     (use assms(2,3) in \<open>auto simp: span_simps\<close>)

lemmas [vcg] = spec_count_block [THEN spec_call] spec_reduce [THEN spec_call] spec_shortest_path [THEN spec_call] spec_keyword_function [THEN spec_call]

lemma spec_parenthesized:
  "spec_when (\<lambda>ts. ts_peek ts = Some TLParen) G 1 0 1 expr_params (started start) (parse_parenthesized G start)"
  unfolding parse_parenthesized_def by (rule specI, intro vcg; auto simp: span_simps)

lemma spec_literal:
  "spec_when (\<lambda>ts. ts_peek ts \<noteq> None \<and> (\<forall>s. tok_params (the (ts_peek ts)) = expr_params (mk s)) \<and>
      (\<forall>s. span_within (input_len ts) s \<longrightarrow> expr_valid (input_len ts) (mk s)) \<and> (\<forall>s. expr_span (mk s) = s)) G 1 0 1 expr_params
     (\<lambda>e a b. expr_valid (input_len a) e \<and> span_from_to e a b) (parse_literal mk)"
  unfolding parse_literal_def by (rule specI, intro vcg; auto simp: span_simps)

lemma run_peek_int:
  assumes "peek_int ts = None \<Longrightarrow> run G d e a j S p Q ts"
    and "\<And>n. ts_peek ts = Some (TIntLit n) \<Longrightarrow> 0 \<le> n \<Longrightarrow> run G d e a j S (q n) Q ts"
  shows "run G d e a j S (case peek_int ts of None \<Rightarrow> p | Some n \<Rightarrow> q n) Q ts"
proof (rule run_context)
  assume "reached a j S ts"
  then have "list_all (\<lambda>(_, tok, _). case int_of tok of None \<Rightarrow> True | Some n \<Rightarrow> 0 \<le> n) (ts_tokens ts)"
    by (simp add: reached_def good_stream_def)
  then have "case int_of (fst (snd (ts_tokens ts ! ts_pos ts))) of None \<Rightarrow> True | Some n \<Rightarrow> 0 \<le> n" if "ts_pos ts < length (ts_tokens ts)"
    using that by (simp add: list_all_length case_prod_beta)
  then have "0 \<le> n" if "ts_peek ts = Some (TIntLit n)" for n
    using that by (simp add: peek_Some int_of_def)
  moreover have "ts_peek ts = Some (TIntLit n)" if "peek_int ts = Some n" for n using that by simp
  ultimately show ?thesis using assms by (cases "peek_int ts") (simp_all del: peek_simps)
qed

lemma spec_negation:
  "spec_when (\<lambda>ts. ts_peek ts = Some TMinus) G 1 1 1 expr_params (started start) (parse_negation G start)"
  unfolding parse_negation_def by (rule specI, intro run_peek_int vcg; auto simp: span_simps)

lemmas [vcg] = spec_parenthesized [THEN spec_call] spec_negation [THEN spec_call] spec_literal [THEN spec_call]

abbreviation at_start :: "nat \<Rightarrow> 'f tok \<Rightarrow> 'f token_stream \<Rightarrow> bool" where
  "at_start start tok ts \<equiv> ts_peek ts = Some tok \<and> start = ts_current_pos ts"

lemma spec_prefix_keyword:
  "spec_when (at_start start (TKeyword kw)) G 1 0 1 expr_params (started start) (parse_prefix_keyword G kw start)"
  unfolding parse_prefix_keyword_def by (rule specI, intro vcg; auto simp: span_simps)

lemmas [vcg] = spec_prefix_keyword [THEN spec_call]

lemma spec_prefix_tok:
  "spec_when (at_start start tok) G 1 0 1 expr_params (started start) (parse_prefix_tok G tok start)"
  by (cases tok; simp only: parse_prefix_tok_def tok.case; rule specI; intro vcg; auto simp: span_simps)

lemmas [vcg] = spec_prefix_tok [THEN spec_call]

lemma spec_prefix:
  "spec G 1 0 1 expr_params (\<lambda>e a b. expr_valid (input_len a) e \<and> span_from_to e a b) (parse_prefix G)"
  unfolding parse_prefix_def by (rule specI, intro vcg; auto simp: Let_def span_simps error_within_def parse_error_new_def)

section \<open>Infix forms\<close>

lemmas [vcg] = spec_prefix [THEN spec_call]

lemma run_weaken: "run G d e a j S p P ts \<Longrightarrow> (\<And>x j S ts. P x j S ts \<Longrightarrow> Q x j S ts) \<Longrightarrow> run G d e a j S p Q ts"
  by (fastforce simp: run_def split: option.splits sum.splits)

text \<open>An expression over all tokens from a stream on.\<close>

definition whole :: "'f token_stream \<Rightarrow> 'f exp \<Rightarrow> ustring set \<Rightarrow> 'f token_stream \<Rightarrow> bool" where
  "whole a x S ts \<longleftrightarrow> S = expr_params x \<and> expr_valid (input_len a) x \<and> fst (expr_span x) = ts_current_pos a \<and>
     snd (expr_span x) \<le> ts_current_pos ts \<and> later a (ts_current_pos a) ts"

lemma expr_valid_span: "expr_valid n e \<Longrightarrow> span_within n (expr_span e)"
  by (cases e) (simp_all, rename_tac q, case_tac q, simp)

lemma comparison_tail_part: "comparison_tail e = Some t \<Longrightarrow> expr_params t \<subseteq> expr_params e \<and> (expr_valid n e \<longrightarrow> expr_valid n t)"
  by (induction e rule: comparison_tail.induct) (auto split: if_splits)

lemma chain_tail_part: "comparison_chain_tail e op = Some t \<Longrightarrow> expr_params t \<subseteq> expr_params e \<and> (expr_valid n e \<longrightarrow> expr_valid n t)"
  by (auto simp: comparison_chain_tail_def comparison_tail_part simp del: insert_iff split: if_splits)

lemma run_binary:
  assumes "whole a lhs S ts" "ts_peek ts = Some tok" "tok_params tok = {}" "d \<le> j + 1" "e \<le> j + 1"
  shows "run G d e a j S (parse_binary G lhs op kind r_bp (fst (expr_span lhs))) (\<lambda>x j' T ts'. j < j' \<and> whole a x T ts') ts"
  unfolding parse_binary_def Let_def
  by (intro vcg; use assms in \<open>auto simp: whole_def span_simps later_def dest: expr_valid_span chain_tail_part [of _ _ _ "input_len a"]\<close>)

lemma run_operand:
  assumes "whole a lhs S ts" "ts_peek ts = Some tok" "tok_params tok = {}" "d \<le> j + 1" "e \<le> j + 1"
    and "\<And>rhs s. expr_params (mk rhs s) = expr_params lhs \<union> expr_params rhs" "\<And>rhs s. expr_span (mk rhs s) = s"
      "\<And>rhs s. expr_valid (input_len a) (mk rhs s) \<longleftrightarrow> span_within (input_len a) s \<and> expr_valid (input_len a) lhs \<and> expr_valid (input_len a) rhs"
  shows "run G d e a j S (parse_operand G r_bp (fst (expr_span lhs)) mk) (\<lambda>x j' T ts'. j < j' \<and> whole a x T ts') ts"
  unfolding parse_operand_def
  by (intro vcg; use assms in \<open>auto simp: whole_def span_simps later_def dest: expr_valid_span\<close>)

lemma run_null_predicate:
  assumes "whole a lhs S ts" "ts_peek ts = Some tok" "tok_params tok = {}"
  shows "run G d e a j S (parse_null_predicate lhs negated (fst (expr_span lhs))) (\<lambda>x j' T ts'. j < j' \<and> whole a x T ts') ts"
  unfolding parse_null_predicate_def
  by (intro vcg; use assms in \<open>auto simp: whole_def span_simps later_def\<close>)

lemma run_property:
  assumes "whole a lhs S ts" "ts_peek ts = Some tok" "tok_params tok = {}"
  shows "run G d e a j S (parse_property G lhs (fst (expr_span lhs))) (\<lambda>x j' T ts'. j < j' \<and> whole a x T ts') ts"
  unfolding parse_property_def
  by (intro vcg; use assms in \<open>auto simp: whole_def span_simps later_def\<close>)

lemma run_label_predicate:
  assumes "whole a lhs S ts" "ts_peek ts = Some tok" "tok_params tok = {}"
  shows "run G d e a j S (parse_label_predicate G lhs (fst (expr_span lhs))) (\<lambda>x j' T ts'. j < j' \<and> whole a x T ts') ts"
  by (cases lhs; simp only: parse_label_predicate_def expr.case; intro vcg; use assms in \<open>auto simp: whole_def span_simps later_def error_within_def parse_error_new_def\<close>)

lemma run_subscript:
  assumes "whole a lhs S ts" "ts_peek ts = Some tok" "tok_params tok = {}" "d \<le> j + 1" "e \<le> j + 1"
  shows "run G d e a j S (parse_subscript G lhs (fst (expr_span lhs))) (\<lambda>x j' T ts'. j < j' \<and> whole a x T ts') ts"
  unfolding parse_subscript_def
  by (intro vcg; use assms in \<open>auto simp: whole_def span_simps later_def\<close>)

lemmas run_infix_forms = run_binary run_operand run_null_predicate run_property run_label_predicate run_subscript

lemma peek_infix_params: "peek_infix_op ts = Some op \<Longrightarrow> \<exists>tok. ts_peek ts = Some tok \<and> tok_params tok = {}"
  by (auto simp: peek_infix_op_def bind_eq_Some_conv tok_params_def infix_table_def split: if_splits)

lemma run_infix:
  assumes "whole a lhs S ts" "peek_infix_op ts = Some op" "d \<le> j + 1" "e \<le> j + 1"
  shows "run G d e a j S (parse_infix G lhs op r_bp) (\<lambda>x j' T ts'. j < j' \<and> whole a x T ts') ts"
proof -
  from peek_infix_params [OF assms(2)] obtain tok where tok: "ts_peek ts = Some tok" "tok_params tok = {}" by blast
  note forms = run_infix_forms [OF assms(1) tok] assms(3,4)
  show ?thesis unfolding parse_infix_def Let_def
    by (intro run_option run_if forms; simp)
qed

lemma run_infix_loop:
  assumes "whole a lhs S ts" "0 < j" "d \<le> 1" "e \<le> 1"
  shows "run G d e a j S (parse_infix_loop G min_bp lhs) (\<lambda>x j' T ts'. 0 < j' \<and> whole a x T ts') ts"
  unfolding parse_infix_loop_def
proof (rule run_loop [where Inv = "\<lambda>x j S ts. 0 < j \<and> whole a x S ts"], goal_cases)
  case (2 x j S ts)
  then show ?case using assms(3,4)
    by (intro run_seeing run_option run_prod run_if run_bind run_weaken [OF run_infix] run_ret) auto
qed (use assms in simp)

lemma spec_expr_inner:
  "spec G 1 0 1 expr_params (\<lambda>e a b. expr_valid (input_len a) e \<and> span_from_to e a b) (parse_expr_inner G min_bp)"
  unfolding parse_expr_inner_def
  by (rule specI, intro vcg run_weaken [OF run_infix_loop]; auto simp: whole_def span_simps later_def)

end
