(* ===== verification/Clause_Specs.thy ===== *)
theory Clause_Specs
  imports Expr_Specs
begin

text \<open>
  The contracts of the parsers of clauses and queries.
\<close>

section \<open>Clauses\<close>

lemma spec_clause_ident: "spec G d e 1 no_params anything (clause_eat_ident G)"
  unfolding clause_eat_ident_def by (rule specI, intro vcg; simp)

lemma spec_clause_ident_span: "spec G d e 1 no_params (\<lambda>(_, s) a b. span_within (input_len a) s) (clause_eat_ident_with_span G)"
  unfolding clause_eat_ident_with_span_def by (rule specI, intro vcg; auto simp: span_simps)

lemma alias_params: "tok_as_alias_str tok = Some s \<Longrightarrow> tok_params tok = {}"
  by (auto simp: tok_as_alias_str_def bind_eq_Some_conv token_contents)

lemma spec_alias: "spec G d e 1 no_params anything (eat_alias G)"
  unfolding eat_alias_def by (rule spec_eat_name [OF alias_params])

lemma spec_clause_label: "spec G d e 1 no_params anything (clause_eat_label_name G)"
  unfolding clause_eat_label_name_def by (rule spec_eat_name [OF alias_params])

lemma spec_label_names: "spec G d e 0 no_params anything (eat_label_names G)"
  unfolding eat_label_names_def
  by (rule specI, intro vcg run_while_eat [OF spec_clause_label [where d = d and e = e]]; simp)

lemmas [vcg] = spec_clause_ident [THEN spec_leaf_call] spec_clause_ident_span [THEN spec_leaf_call] spec_alias [THEN spec_leaf_call]
  spec_label_names [THEN spec_leaf_call]

text \<open>A parser of a node of the tree, with what the node holds.\<close>

abbreviation node_spec where
  "node_spec G d k spans exprs \<equiv> spec G d d k (\<lambda>x. parts_params (exprs x)) (\<lambda>x a b. parts_valid (input_len a) (spans x) (exprs x))"

lemma spec_return_item: "node_spec G 0 1 set1_return_item set2_return_item (parse_one_return_item G)"
  unfolding parse_one_return_item_def by (rule specI, intro vcg; auto simp: span_simps)

lemma node_comma:
  assumes "node_spec G 0 1 spans exprs p"
  shows "node_spec G 0 1 (\<lambda>xs. \<Union> (spans ` set xs)) (\<lambda>xs. \<Union> (exprs ` set xs)) (comma_separated p)"
proof -
  have "spec G 0 0 1 (\<lambda>xs. \<Union> ((\<lambda>x. parts_params (exprs x)) ` set xs)) (\<lambda>xs a b. xs \<noteq> [] \<and> list_all (\<lambda>x. parts_valid (input_len a) (spans x) (exprs x)) xs)
      (comma_separated p)"
    by (rule spec_comma [where P = "\<lambda>n x. parts_valid n (spans x) (exprs x)", OF assms])
  then show ?thesis using spec_weaken by (force simp: list_all_iff)
qed

lemma spec_return_items: "node_spec G 0 1 (\<lambda>xs. \<Union> (set1_return_item ` set xs)) (\<lambda>xs. \<Union> (set2_return_item ` set xs)) (parse_return_items G)"
  unfolding parse_return_items_def by (rule node_comma [OF spec_return_item])

lemma spec_sort_item: "node_spec G 0 1 set1_sort_item set2_sort_item (parse_sort_item G)"
  unfolding parse_sort_item_def by (rule specI, intro vcg; auto simp: span_simps peek_keyword_in_eq)

lemmas [vcg] = spec_return_items [THEN spec_call] spec_sort_item [THEN node_comma, THEN spec_call]

lemma spec_order_by:
  "node_spec G 0 0 (\<lambda>x. \<Union> (set1_order_by_clause ` set_option x)) (\<lambda>x. \<Union> (set2_order_by_clause ` set_option x)) (parse_opt_order_by G)"
  unfolding parse_opt_order_by_def by (rule specI, intro vcg; auto simp: span_simps)

lemma spec_count: "node_spec G 0 0 (\<lambda>x. {}) set_option (parse_opt_count G kw)"
  unfolding parse_opt_count_def by (rule specI, intro vcg; auto)

lemma spec_where: "node_spec G 0 1 set1_where_clause set2_where_clause (parse_where_clause G)"
  unfolding parse_where_clause_def by (rule specI, intro vcg; auto simp: span_simps)

lemmas [vcg] = spec_order_by [THEN spec_call] spec_count [THEN spec_call] spec_where [THEN spec_call]

lemma spec_opt_where:
  "node_spec G 0 0 (\<lambda>x. \<Union> (set1_where_clause ` set_option x)) (\<lambda>x. \<Union> (set2_where_clause ` set_option x)) (parse_opt_where G)"
  unfolding parse_opt_where_def by (rule specI, intro vcg; auto simp: span_simps)

lemmas [vcg] = spec_opt_where [THEN spec_call]

lemma spec_patterns:
  "spec G 0 0 1 (\<lambda>ps. parts_params (\<Union> (set2_path_pattern ` set ps)))
     (\<lambda>ps a b. list_all (\<lambda>p. alternates (p_elements p)) ps \<and> parts_valid (input_len a) (\<Union> (set1_path_pattern ` set ps)) (\<Union> (set2_path_pattern ` set ps)))
     (parse_pattern_list_inner G)"
proof -
  have "spec G 0 0 1 (\<lambda>ps. \<Union> ((\<lambda>p. parts_params (set2_path_pattern p)) ` set ps))
      (\<lambda>ps a b. ps \<noteq> [] \<and> list_all (\<lambda>p. alternates (p_elements p) \<and> parts_valid (input_len a) (set1_path_pattern p) (set2_path_pattern p)) ps)
      (parse_pattern_list_inner G)"
    unfolding parse_pattern_list_inner_def
    by (rule spec_comma [where P = "\<lambda>n p. alternates (p_elements p) \<and> parts_valid n (set1_path_pattern p) (set2_path_pattern p)", OF spec_g_pattern])
  then show ?thesis unfolding parts_simps by (rule spec_weaken) (auto simp: list_all_iff)
qed

lemmas [vcg] = spec_patterns [THEN spec_call]

lemma spec_match:
  "spec G 1 1 1 (\<lambda>c. parts_params (set2_match_clause c))
     (\<lambda>c a b. list_all (\<lambda>p. alternates (p_elements p)) (m_patterns c) \<and> parts_valid (input_len a) (set1_match_clause c) (set2_match_clause c))
     (parse_match_clause G optional)"
  unfolding parse_match_clause_def by (rule specI, intro vcg; auto simp: span_simps)

lemma spec_return: "node_spec G 1 1 set1_return_clause set2_return_clause (parse_return_clause G)"
  unfolding parse_return_clause_def by (rule specI, intro vcg; auto simp: span_simps)

lemma spec_with: "node_spec G 1 1 set1_with_clause set2_with_clause (parse_with_clause G)"
  unfolding parse_with_clause_def by (rule specI, intro vcg; auto simp: span_simps)

lemma spec_unwind: "node_spec G 1 1 set1_unwind_clause set2_unwind_clause (parse_unwind_clause G)"
  unfolding parse_unwind_clause_def by (rule specI, intro vcg; auto simp: span_simps)

lemma spec_union: "spec G 1 1 1 no_params (\<lambda>c a b. spans_valid (input_len a) (set_union_clause c)) (parse_union_clause G)"
  unfolding parse_union_clause_def by (rule specI, intro vcg; auto simp: span_simps)

lemma pattern_rels_span:
  "rel \<in> set (pattern_rels ps) \<Longrightarrow> spans_valid n (\<Union> (set1_path_pattern ` set ps)) \<Longrightarrow> span_within n (r_span rel)"
  by (cases rel) (fastforce simp: pattern_rels_def split: path_element.splits)

lemma run_check_types [vcg]:
  assumes "spans_valid (input_len a) (\<Union> (set1_path_pattern ` set ps))" "Q () j S ts"
  shows "run G d e a j S (check_create_types ps) Q ts"
proof -
  have "span_within (input_len a) (r_span rel)" if "filter (\<lambda>rel. 1 < length (r_types rel)) (pattern_rels ps) = rel # rels" for rel rels
    using pattern_rels_span [OF _ assms(1), of rel] that by (auto simp: filter_eq_Cons_iff)
  then show ?thesis unfolding check_create_types_def using assms(2)
    by (auto simp: run_ret run_fail error_within_def span_within_def parse_error_new_def split: list.split)
qed

lemma spec_create:
  "spec G 1 1 1 (\<lambda>c. parts_params (set2_create_clause c))
     (\<lambda>c a b. list_all (\<lambda>p. alternates (p_elements p)) (cr_patterns c) \<and> parts_valid (input_len a) (set1_create_clause c) (set2_create_clause c))
     (parse_create_clause G)"
  unfolding parse_create_clause_def by (rule specI, intro vcg; auto simp: span_simps)

lemma spec_set_item: "node_spec G 0 1 set1_set_item set2_set_item (parse_set_item G)"
  unfolding parse_set_item_def by (rule specI, intro vcg; auto simp: span_simps)

lemma spec_set_items: "node_spec G 0 1 (\<lambda>xs. \<Union> (set1_set_item ` set xs)) (\<lambda>xs. \<Union> (set2_set_item ` set xs)) (parse_set_items G)"
  unfolding parse_set_items_def by (rule node_comma [OF spec_set_item])

lemmas [vcg] = spec_set_items [THEN spec_call]

lemma spec_set: "node_spec G 1 1 set1_set_clause set2_set_clause (parse_set_clause G)"
  unfolding parse_set_clause_def by (rule specI, intro vcg; auto simp: span_simps)

abbreviation action_spans :: "(span, 'f exp) set_item list \<times> (span, 'f exp) set_item list \<Rightarrow> span set" where
  "action_spans x \<equiv> \<Union> (set1_set_item ` set (fst x)) \<union> \<Union> (set1_set_item ` set (snd x))"

abbreviation action_exprs :: "(span, 'f exp) set_item list \<times> (span, 'f exp) set_item list \<Rightarrow> 'f exp set" where
  "action_exprs x \<equiv> \<Union> (set2_set_item ` set (fst x)) \<union> \<Union> (set2_set_item ` set (snd x))"

lemma spec_merge_actions: "node_spec G 0 0 action_spans action_exprs (parse_merge_actions G)"
proof (rule specI)
  fix a :: "'a token_stream"
  show "run G 0 0 a 0 {} (parse_merge_actions G)
     (\<lambda>x j S ts. 0 \<le> j \<and> S = parts_params (action_exprs x) \<and> parts_valid (input_len a) (action_spans x) (action_exprs x)) a"
    unfolding parse_merge_actions_def
    by (rule run_loop [where Inv = "\<lambda>x j S ts. S = parts_params (action_exprs x) \<and> parts_valid (input_len a) (action_spans x) (action_exprs x)"],
        simp, intro vcg; auto)
qed

lemmas [vcg] = spec_merge_actions [THEN spec_call]

lemma spec_merge:
  "spec G 1 1 1 (\<lambda>c. parts_params (set2_merge_clause c))
     (\<lambda>c a b. alternates (p_elements (mg_pattern c)) \<and> parts_valid (input_len a) (set1_merge_clause c) (set2_merge_clause c)) (parse_merge_clause G)"
  unfolding parse_merge_clause_def by (rule specI, intro vcg; auto simp: span_simps)

lemma spec_remove_item: "node_spec G 0 1 set1_remove_item set2_remove_item (parse_remove_item G)"
  unfolding parse_remove_item_def by (rule specI, intro vcg; auto simp: span_simps)

lemma spec_remove_items: "node_spec G 0 1 (\<lambda>xs. \<Union> (set1_remove_item ` set xs)) (\<lambda>xs. \<Union> (set2_remove_item ` set xs)) (parse_remove_items G)"
  unfolding parse_remove_items_def by (rule node_comma [OF spec_remove_item])

lemmas [vcg] = spec_remove_items [THEN spec_call]

lemma spec_remove: "node_spec G 1 1 set1_remove_clause set2_remove_clause (parse_remove_clause G)"
  unfolding parse_remove_clause_def by (rule specI, intro vcg; auto simp: span_simps)

lemma spec_delete: "node_spec G 1 1 set1_delete_clause set2_delete_clause (parse_delete_clause G detach)"
  unfolding parse_delete_clause_def by (rule specI, intro vcg; auto simp: span_simps)

lemma spec_procedure_name: "spec G d e 1 no_params anything (parse_procedure_name G)"
  unfolding parse_procedure_name_def
  by (rule specI, intro vcg run_while_eat [OF spec_clause_ident [where d = d and e = e]]; simp)

lemma spec_yield: "node_spec G 0 0 (\<lambda>xs. \<Union> (set1_return_item ` set xs)) (\<lambda>xs. \<Union> (set2_return_item ` set xs)) (parse_opt_yield G)"
  unfolding parse_opt_yield_def by (rule specI, intro vcg; auto)

lemma spec_call_args:
  "spec_when (\<lambda>ts. ts_peek ts = Some TLParen) G 1 1 1 (\<lambda>es. parts_params (set es)) (\<lambda>es a b. exprs_valid (input_len a) (set es)) (parse_call_args G)"
  unfolding parse_call_args_def by (rule specI, intro vcg; auto)

lemmas [vcg] = spec_procedure_name [THEN spec_leaf_call] spec_yield [THEN spec_call] spec_call_args [THEN spec_call]

lemma spec_call_clause: "node_spec G 1 1 set1_call_clause set2_call_clause (parse_call_clause G)"
  unfolding parse_call_clause_def by (rule specI, intro vcg; auto simp: span_simps)

section \<open>Queries\<close>

lemmas [vcg] = spec_match [THEN spec_call] spec_return [THEN spec_call] spec_with [THEN spec_call] spec_unwind [THEN spec_call]
  spec_union [THEN spec_call] spec_create [THEN spec_call] spec_set [THEN spec_call] spec_merge [THEN spec_call]
  spec_remove [THEN spec_call] spec_delete [THEN spec_call] spec_call_clause [THEN spec_call]

lemma spec_clause:
  "spec G 1 1 1 (\<lambda>c. parts_params (set2_ast_clause c))
     (\<lambda>c a b. list_all (\<lambda>p. alternates (p_elements p)) (clause_paths c) \<and> parts_valid (input_len a) (set1_ast_clause c) (set2_ast_clause c))
     (parse_clause G kw)"
  unfolding parse_clause_def by (rule specI, intro vcg; auto)

lemmas [vcg] = spec_clause [THEN spec_call]

definition clauses_ok :: "nat \<Rightarrow> 'f clause list \<Rightarrow> bool" where
  "clauses_ok n cs \<longleftrightarrow> list_all (\<lambda>c. list_all (\<lambda>p. alternates (p_elements p)) (clause_paths c) \<and>
     parts_valid n (set1_ast_clause c) (set2_ast_clause c)) cs"

lemma run_clauses [vcg]:
  fixes G :: "'f grammar"
  assumes "d \<le> j + 1" "e \<le> j + 1"
    and "\<And>cs j' T ts'. T = S \<union> parts_params (\<Union> (set2_ast_clause ` set cs)) \<Longrightarrow> clauses_ok (input_len a) cs \<Longrightarrow> (cs = [] \<Longrightarrow> ts' = ts) \<Longrightarrow>
      ts_peek ts' = None \<or> stop \<and> ts_peek ts' = Some TRBrace \<Longrightarrow> later a (ts_current_pos ts) ts' \<Longrightarrow> Q cs j' T ts'"
  shows "run G d e a j S (parse_clauses G stop []) Q ts"
proof (rule run_context)
  assume r: "reached a j S ts"
  let ?Inv = "\<lambda>(cs :: 'f clause list) j' T ts'. j \<le> j' \<and> T = S \<union> parts_params (\<Union> (set2_ast_clause ` set cs)) \<and> clauses_ok (input_len a) cs \<and>
    (cs = [] \<longrightarrow> ts' = ts) \<and> later a (ts_current_pos ts) ts'"
  show ?thesis unfolding parse_clauses_def
  proof (rule run_loop [where Inv = ?Inv])
    show "?Inv [] j S ts" using later_start [OF r] by (simp add: clauses_ok_def)
    fix cs j' T ts'
    assume i: "?Inv cs j' T ts'"
    show "run G d e a j' T (seeing ts_peek (\<lambda>t. if t = None \<or> t = Some TRBrace \<and> stop then ret (Inr cs)
       else bindp (parse_clause G (Option.bind t keyword_of)) (\<lambda>c. ret (Inl (cs @ [c])))))
      (\<lambda>r j'' S'' ts''. case r of Inl y \<Rightarrow> j' < j'' \<and> ?Inv y j'' S'' ts'' | Inr y \<Rightarrow> Q y j'' S'' ts'') ts'"
      by (intro vcg) (use i assms(1,2) in \<open>auto simp: clauses_ok_def later_def intro!: assms(3)\<close>)
  qed
qed

lemma spec_query_until:
  "spec G 1 1 0 (\<lambda>q. parts_params (set2_ast_query q))
     (\<lambda>q a b. query_ok q \<and> parts_valid (input_len a) (set1_ast_query q) (set2_ast_query q) \<and>
        (q_clauses q = [] \<longrightarrow> ts_peek a = None \<or> stop \<and> ts_peek a = Some TRBrace) \<and> (ts_peek b = None \<or> stop \<and> ts_peek b = Some TRBrace))
     (parse_query_until G stop)"
  unfolding parse_query_until_def
  by (rule specI, intro vcg; auto simp: span_simps query_ok_def query_paths_def clauses_ok_def list_all_iff later_def)

end
