(* ===== verification/Cypher_Parser.thy ===== *)
theory Cypher_Parser
  imports Clause_Specs
begin

text \<open>
  The recursion of the parser and its properties. \<open>recursive_parsers\<close> is the interface through which the parsers of
  expressions, patterns and subqueries call each other, and \<open>nested_grammar\<close> its interpretation. The stream that the lexer gives
  is good, so the parser returns on every input.
\<close>

section \<open>The recursion\<close>

definition remaining :: "'f token_stream \<Rightarrow> nat" where
  "remaining ts = length (ts_tokens ts) - ts_pos ts"

lemma reached_remaining: "reached a j S b \<Longrightarrow> good_stream b \<and> remaining b + j \<le> remaining a"
  by (auto simp: reached_def good_stream_def remaining_def)

text \<open>
  The interface of the recursive functions: what they promise on every stream with few enough tokens left. Any set of
  functions that keeps it can be called by the next ones.
\<close>

locale recursive_parsers =
  fixes G :: "'f grammar" and n :: nat
  assumes expr_ready: "good_stream ts \<Longrightarrow> 2 * remaining ts + 2 \<le> n \<Longrightarrow> expr_outcome (g_expr G bp) ts"
    and pattern_ready: "good_stream ts \<Longrightarrow> 2 * remaining ts + 1 \<le> n \<Longrightarrow> path_outcome (g_pattern G) ts"
    and subquery_ready: "good_stream ts \<Longrightarrow> 2 * remaining ts + 1 \<le> n \<Longrightarrow> query_outcome (g_subquery G) ts"
begin

lemma callable_expr: "2 * remaining ts + 1 \<le> n \<Longrightarrow> callable G 1 0 ts"
  unfolding callable_def by (auto dest!: reached_remaining intro!: expr_ready pattern_ready subquery_ready)

lemma callable_rest: "2 * remaining ts \<le> n \<Longrightarrow> callable G 1 1 ts"
  unfolding callable_def by (auto dest!: reached_remaining intro!: expr_ready pattern_ready subquery_ready)

lemma next_expr: "good_stream ts \<Longrightarrow> 2 * remaining ts + 1 \<le> n \<Longrightarrow> expr_outcome (parse_expr_inner G bp) ts"
  using spec_expr_inner [of G bp] callable_expr [of ts] by (simp add: spec_when_def expr_outcome_def)

lemma next_pattern: "good_stream ts \<Longrightarrow> 2 * remaining ts \<le> n \<Longrightarrow> path_outcome (parse_pattern_inner G) ts"
  using spec_pattern [of G] callable_rest [of ts] by (simp add: spec_when_def path_outcome_def)

lemma next_subquery: "good_stream ts \<Longrightarrow> 2 * remaining ts \<le> n \<Longrightarrow> query_outcome (parse_subquery G) ts"
  using spec_query_until [of G True] callable_rest [of ts] unfolding spec_when_def query_outcome_def parse_subquery_def parse_outcome_def
  by (force split: option.splits sum.splits)

lemma top_query:
  assumes "good_stream ts" "2 * remaining ts \<le> n"
  shows "parse_outcome 0 (\<lambda>q. parts_params (set2_ast_query q))
     (\<lambda>q a b. query_ok q \<and> parts_valid (input_len a) (set1_ast_query q) (set2_ast_query q) \<and> ts_peek b = None \<and> ts_unsupported b = None)
     (parse_query G) ts"
proof -
  have "spec G 1 1 0 (\<lambda>q. parts_params (set2_ast_query q)) (\<lambda>q a b. query_ok q \<and> parts_valid (input_len a) (set1_ast_query q) (set2_ast_query q) \<and>
     ts_peek b = None) (parse_query_until G False)"
    by (rule spec_weaken [OF spec_query_until]) simp
  then have "parse_outcome 0 (\<lambda>q. parts_params (set2_ast_query q)) (\<lambda>q a b. query_ok q \<and> parts_valid (input_len a) (set1_ast_query q) (set2_ast_query q) \<and>
     ts_peek b = None) (parse_query_until G False) ts"
    using callable_rest [OF assms(2)] assms(1) by (simp add: spec_when_def)
  then show ?thesis
    by (auto simp: parse_query_def parse_outcome_def bindp_def finish_supported_def reached_def good_stream_def split: option.splits sum.splits)
qed

end

lemma grammar_ready: "recursive_parsers (nested_grammar fmt n) n"
proof (induction n)
  case (Suc n)
  show ?case
    by unfold_locales
      (use recursive_parsers.next_expr [OF Suc] recursive_parsers.next_pattern [OF Suc] recursive_parsers.next_subquery [OF Suc] in \<open>auto simp: Let_def\<close>)
qed (unfold_locales, simp_all)

interpretation tied: recursive_parsers "nested_grammar fmt n" n for fmt :: "'f fmt_text" and n
  by (rule grammar_ready)

section \<open>The stream of the lexer\<close>

lemma from_str_radix_nonneg: "from_str_radix lo hi radix s = Some v \<Longrightarrow> list_all (\<lambda>c. c \<noteq> cp CHR ''-'') s \<Longrightarrow> 0 \<le> v"
  by (auto simp: from_str_radix_def Let_def split: list.splits if_splits)

lemma parse_int_nonneg:
  "parse_int radix name start digits s lx = Inr (TIntLit n, lx') \<Longrightarrow> list_all (\<lambda>c. c \<noteq> cp CHR ''-'') digits \<Longrightarrow> 0 \<le> n"
  by (auto simp: parse_int_def i128_from_str_radix_def dest: from_str_radix_nonneg split: option.splits)

lemma no_int: "parse_float std start s lx \<noteq> Inr (TIntLit n, lx')" "read_parameter std start lx \<noteq> Inr (TIntLit n, lx')"
  "read_leading_dot_float std start lx \<noteq> Inr (TIntLit n, lx')" "read_word std c lx \<noteq> (TIntLit n, lx')"
  "map_of single_tokens c \<noteq> Some (TIntLit n)"
  by (auto simp: parse_float_def read_parameter_def read_leading_dot_float_def read_word_def single_tokens_def Let_def
      split: option.splits prod.splits if_splits)

lemma digit_sign: "is_digit c \<or> to_digit radix c \<noteq> None \<Longrightarrow> radix \<le> 36 \<Longrightarrow> c \<noteq> cp CHR ''-''"
  by (auto simp: is_digit_def to_digit_def Let_def split: if_splits)

lemma read_number_nonneg:
  assumes "read_number std first lx = Inr (TIntLit n, lx')" "is_digit first"
  shows "0 \<le> n"
proof -
  have d: "0 \<le> n" if "read_decimal std start first lx = Inr (TIntLit n, lx')" for start
  proof -
    obtain ds lx1 where ds: "advance_while is_digit lx = (ds, lx1)" by (cases "advance_while is_digit lx")
    from consumes_while [OF ds] assms(2) have "list_all (\<lambda>c. c \<noteq> cp CHR ''-'') (first # ds)" using digit_sign [of _ 10] by (auto simp: list_all_iff)
    with that ds show ?thesis by (auto simp: read_decimal_def Let_def no_int dest: parse_int_nonneg split: option.splits prod.splits if_splits)
  qed
  have r: "0 \<le> n" if "read_radix radix name (\<lambda>c. to_digit radix c \<noteq> None) start x lx1 = Inr (TIntLit n, lx')" "radix \<le> 36" for radix name start x lx1
  proof -
    obtain ds lx2 where ds: "advance_while (\<lambda>c. to_digit radix c \<noteq> None) lx1 = (ds, lx2)" by (cases "advance_while (\<lambda>c. to_digit radix c \<noteq> None) lx1")
    from consumes_while [OF ds] have "list_all (\<lambda>c. c \<noteq> cp CHR ''-'') ds" using digit_sign [OF _ that(2)] by (auto simp: list_all_iff)
    with that(1) ds show ?thesis by (auto simp: read_radix_def dest: parse_int_nonneg)
  qed
  show ?thesis using assms(1) d r [where radix = 16] r [where radix = 8]
    by (auto simp: read_number_def Let_def split: option.splits prod.splits if_splits)
qed

lemma operator_no_int: "read_operator std c start lx \<noteq> Inr (TIntLit n, lx')"
  unfolding read_operator_def by (simp only: if_split_eq1 no_int Inr_Inl_False Inl_Inr_False) simp

lemma read_token_nonneg: "read_token std c start lx = Inr (TIntLit n, lx') \<Longrightarrow> 0 \<le> n"
  unfolding read_token_def
  by (cases "map_of single_tokens c :: 'a tok option"; cases "is_digit c")
     (auto simp: no_int operator_no_int and_then_Inr simp del: set_map dest: read_number_nonneg split: if_splits)

lemma lexer_next_nonneg: "lexer_next std lx = Some (Inr ((start, TIntLit n, stop), lx')) \<Longrightarrow> 0 \<le> n"
  by (auto simp: lexer_next_def and_then_Inr Let_def dest: read_token_nonneg split: sum.splits option.splits prod.splits)

lemma tiles_nonneg: "tiles std s pos ts \<Longrightarrow> list_all (\<lambda>(_, tok, _). case int_of tok of None \<Rightarrow> True | Some n \<Rightarrow> 0 \<le> n) ts"
  by (induction rule: tiles.induct) (auto simp: token_contents dest: lexer_next_nonneg split: option.split)

lemma new_stream:
  "case token_stream_new std input of
     Inl e \<Rightarrow> error_within 0 (utf8_len input) e
   | Inr ts \<Rightarrow> good_stream ts \<and> ts_pos ts = 0 \<and> ts_input ts = input \<and> ts_unsupported ts = None \<and>
       Inr (ts_tokens ts) = collect_tokens std (lexer_new input)"
  using collect_result [where std = std and lx = "lexer_new input"] tiles_sorted [where std = std and s = input and pos = 0]
    tiles_nonneg [where std = std and s = input and pos = 0]
  by (auto simp: token_stream_new_def and_then_def lexer_new_def input_end_def good_stream_def list_all_iff split: sum.splits)

section \<open>The whole parser\<close>

definition token_params :: "(nat \<times> 'f tok \<times> nat) list \<Rightarrow> ustring set" where
  "token_params tokens = \<Union> ((\<lambda>(_, tok, _). tok_params tok) ` set tokens)"

definition query_params :: "'f query \<Rightarrow> ustring set" where
  "query_params q = parts_params (set2_ast_query q)"

definition query_valid :: "nat \<Rightarrow> 'f query \<Rightarrow> bool" where
  "query_valid n q \<longleftrightarrow> query_ok q \<and> parts_valid n (set1_ast_query q) (set2_ast_query q)"

lemma parse_result:
  "case parse fmt input of
     None \<Rightarrow> False
   | Some (Inl e) \<Rightarrow> error_within 0 (utf8_len input) e
   | Some (Inr q) \<Rightarrow> query_valid (utf8_len input) q \<and>
       (\<exists>tokens. collect_tokens fmt (lexer_new input) = Inr tokens \<and> query_params q = token_params tokens)"
proof (cases "token_stream_new fmt input")
  case (Inl e)
  with new_stream [where std = fmt and input = input] show ?thesis by (simp add: parse_def)
next
  case (Inr ts)
  with new_stream [where std = fmt and input = input] have ts: "good_stream ts" "ts_pos ts = 0" "ts_input ts = input" "ts_unsupported ts = None"
      "collect_tokens fmt (lexer_new input) = Inr (ts_tokens ts)" by auto
  have "2 * remaining ts \<le> 2 * length (ts_tokens ts) + 2" by (simp add: remaining_def)
  note top = tied.top_query [OF ts(1) this, of fmt]
  have "S = token_params (ts_tokens ts)" if "reached ts 0 S b" "ts_peek b = None" "ts_unsupported b = None" for S b
    using that ts(2) by (auto simp: reached_def peek_Some seen_params_def token_params_def)
  with top ts(3,5) Inr show ?thesis
    by (auto simp: parse_def grammar_for_def parse_outcome_def query_valid_def query_params_def simp del: nested_grammar.simps split: option.splits sum.splits)
qed

text \<open>C8. Parsing returns on every text, with a query or with an error. No input makes a loop or the recursion run
  on, or unwraps a token that is not there, and the span of an error lies within the text.\<close>

theorem parse_total:
  "case parse fmt input of
     None \<Rightarrow> False
   | Some (Inl e) \<Rightarrow> error_within 0 (utf8_len input) e
   | Some (Inr q) \<Rightarrow> True"
  using parse_result [where fmt = fmt and input = input] by (auto split: option.splits sum.splits)

text \<open>C10. The tree of an accepted query is well formed. Every span lies within the text; every path alternates nodes
  and relationships and starts and ends with a node; integer literals are in the range of \<open>i64\<close> and hop counts in that
  of \<open>u32\<close>; the keys of a map literal are distinct and have one span each; a function has a name, a star call has no
  arguments, a label predicate has a label and a full existential subquery a clause.\<close>

theorem parse_well_formed:
  "case parse fmt input of Some (Inr q) \<Rightarrow> query_valid (utf8_len input) q | _ \<Rightarrow> True"
  using parse_result [where fmt = fmt and input = input] by (auto split: option.splits sum.splits)

text \<open>C11. The parameters of the tree of an accepted query are exactly the parameter tokens of its text. The parser goes
  over every token and keeps what it goes over: a construct whose content is dropped is recorded as unsupported, and then
  the query is not accepted.\<close>

theorem parse_parameters:
  "case parse fmt input of
     Some (Inr q) \<Rightarrow> \<exists>tokens. collect_tokens fmt (lexer_new input) = Inr tokens \<and> query_params q = token_params tokens
   | _ \<Rightarrow> True"
  using parse_result [where fmt = fmt and input = input] by (auto split: option.splits sum.splits)


end
