(* ===== verification/Read_Only.thy ===== *)
theory Read_Only
  imports Cypher_Parser
begin

text \<open>
  \<open>crates/graphforge-cypher/src/read_only.rs\<close>: admission of read queries by their syntax, with the names of their parameters.
  The visitors take the set of names found so far and return it extended, or the error. The visitors of patterns and queries
  take the visitor of expressions as an argument, since each calls the other.
\<close>

section \<open>Errors\<close>

definition kind_str :: "parse_error_kind \<Rightarrow> ustring" where
  "kind_str kind =
     (case kind of
        UnsupportedFeature feature \<Rightarrow> lit (description feature) @ lit '' is not supported''
      | UnexpectedChar \<Rightarrow> lit ''unexpected character''
      | UnexpectedToken found _ \<Rightarrow> lit ''unexpected token '' @ [39] @ found @ [39]
      | UnterminatedString \<Rightarrow> lit ''unterminated string''
      | UnterminatedBlockComment \<Rightarrow> lit ''unterminated block comment''
      | InvalidNumericLiteral \<Rightarrow> lit ''invalid numeric literal''
      | InvalidParameter \<Rightarrow> lit ''invalid parameter''
      | UnexpectedEof _ \<Rightarrow> lit ''unexpected end of input'')"

definition span_text :: "span \<Rightarrow> ustring" where
  "span_text s = decimal_digits (fst s) @ lit ''..'' @ decimal_digits (snd s)"

definition parse_error_text :: "parse_error \<Rightarrow> ustring" where
  "parse_error_text e = kind_str (e_kind e) @ lit '' at '' @ span_text (e_span e)"

datatype gf_error = GfValidation ustring

type_synonym visitor = "ustring set \<Rightarrow> gf_error + ustring set"

definition refused :: "gf_error" where
  "refused = GfValidation (lit ''saved queries require read-only Cypher without procedure calls'')"

definition empty_query :: "gf_error" where
  "empty_query = GfValidation (lit ''saved queries require a nonempty query'')"

section \<open>Visitors\<close>

primrec visit_each :: "('a \<Rightarrow> visitor) \<Rightarrow> 'a list \<Rightarrow> visitor" where
  "visit_each v [] ps = Inr ps"
| "visit_each v (x # xs) ps = and_then (v x ps) (visit_each v xs)"

definition visit_opt :: "('a \<Rightarrow> visitor) \<Rightarrow> 'a option \<Rightarrow> visitor" where
  "visit_opt v x ps = (case x of None \<Rightarrow> Inr ps | Some y \<Rightarrow> v y ps)"

definition visit_pattern :: "('e \<Rightarrow> visitor) \<Rightarrow> ('s, 'e) path_pattern \<Rightarrow> visitor" where
  "visit_pattern visit_expr pattern =
     visit_each (\<lambda>element. visit_opt visit_expr (case element of PNode node \<Rightarrow> n_properties node | PRel rel \<Rightarrow> r_properties rel))
       (p_elements pattern)"

definition visit_projection ::
  "('e \<Rightarrow> visitor) \<Rightarrow> ('s, 'e) return_item list \<Rightarrow> ('s, 'e) order_by_clause option \<Rightarrow> 'e option \<Rightarrow> 'e option \<Rightarrow> visitor" where
  "visit_projection visit_expr items order_by skip limit ps =
     and_then (visit_each (\<lambda>item. visit_expr (ri_expr item)) items ps) (\<lambda>ps.
     and_then (visit_opt (\<lambda>order. visit_each (\<lambda>item. visit_expr (so_expr item)) (ob_items order)) order_by ps) (\<lambda>ps.
     and_then (visit_opt visit_expr skip ps) (\<lambda>ps.
     visit_opt visit_expr limit ps)))"

definition visit_match :: "('e \<Rightarrow> visitor) \<Rightarrow> ('s, 'e) match_clause \<Rightarrow> visitor" where
  "visit_match visit_expr c ps =
     and_then (visit_each (visit_pattern visit_expr) (m_patterns c) ps) (\<lambda>ps.
     visit_opt (\<lambda>w. visit_expr (wh_predicate w)) (m_where_clause c) ps)"

definition visit_clause :: "('e \<Rightarrow> visitor) \<Rightarrow> ('s, 'e) ast_clause \<Rightarrow> visitor" where
  "visit_clause visit_expr clause ps =
     (case clause of
        CMatch c \<Rightarrow> visit_match visit_expr c ps
      | COptionalMatch c \<Rightarrow> visit_match visit_expr c ps
      | CWhere c \<Rightarrow> visit_expr (wh_predicate c) ps
      | CWith c \<Rightarrow>
          and_then (visit_projection visit_expr (w_items c) (w_order_by c) (w_skip c) (w_limit c) ps) (\<lambda>ps.
          visit_opt (\<lambda>w. visit_expr (wh_predicate w)) (w_where_clause c) ps)
      | CReturn c \<Rightarrow> visit_projection visit_expr (rt_items c) (rt_order_by c) (rt_skip c) (rt_limit c) ps
      | CUnwind c \<Rightarrow> visit_expr (uw_expr c) ps
      | CUnion _ \<Rightarrow> Inr ps
      | _ \<Rightarrow> Inl refused)"

definition visit_query :: "('e \<Rightarrow> visitor) \<Rightarrow> ('s, 'e) ast_query \<Rightarrow> visitor" where
  "visit_query visit_expr query ps =
     (if q_clauses query = [] then Inl empty_query else visit_each (visit_clause visit_expr) (q_clauses query) ps)"

text \<open>A visit goes over the expressions of a pattern or of a reading clause in a fixed order.\<close>

definition opt_list :: "'a option \<Rightarrow> 'a list" where
  "opt_list x = (case x of None \<Rightarrow> [] | Some y \<Rightarrow> [y])"

definition pattern_exprs :: "('s, 'e) path_pattern \<Rightarrow> 'e list" where
  "pattern_exprs p =
     concat (map (\<lambda>element. opt_list (case element of PNode node \<Rightarrow> n_properties node | PRel rel \<Rightarrow> r_properties rel)) (p_elements p))"

definition match_exprs :: "('s, 'e) match_clause \<Rightarrow> 'e list" where
  "match_exprs c = concat (map pattern_exprs (m_patterns c)) @ map wh_predicate (opt_list (m_where_clause c))"

definition projection_exprs :: "('s, 'e) return_item list \<Rightarrow> ('s, 'e) order_by_clause option \<Rightarrow> 'e option \<Rightarrow> 'e option \<Rightarrow> 'e list" where
  "projection_exprs items order_by skip limit =
     map ri_expr items @ concat (map (\<lambda>order. map so_expr (ob_items order)) (opt_list order_by)) @ opt_list skip @ opt_list limit"

fun clause_exprs :: "('s, 'e) ast_clause \<Rightarrow> 'e list option" where
  "clause_exprs (CMatch c) = Some (match_exprs c)"
| "clause_exprs (COptionalMatch c) = Some (match_exprs c)"
| "clause_exprs (CWhere c) = Some [wh_predicate c]"
| "clause_exprs (CWith c) =
     Some (projection_exprs (w_items c) (w_order_by c) (w_skip c) (w_limit c) @ map wh_predicate (opt_list (w_where_clause c)))"
| "clause_exprs (CReturn c) = Some (projection_exprs (rt_items c) (rt_order_by c) (rt_skip c) (rt_limit c))"
| "clause_exprs (CUnwind c) = Some [uw_expr c]"
| "clause_exprs (CUnion c) = Some []"
| "clause_exprs _ = None"

lemma visit_each_append: "visit_each v (xs @ ys) = (\<lambda>ps. and_then (visit_each v xs ps) (visit_each v ys))"
proof
  fix ps
  show "visit_each v (xs @ ys) ps = and_then (visit_each v xs ps) (visit_each v ys)"
    by (induction xs arbitrary: ps) (auto simp: and_then_def split: sum.splits)
qed

lemma visit_each_concat: "visit_each (\<lambda>x. visit_each v (f x)) xs = visit_each v (concat (map f xs))"
proof
  fix ps
  show "visit_each (\<lambda>x. visit_each v (f x)) xs ps = visit_each v (concat (map f xs)) ps"
    by (induction xs arbitrary: ps) (simp_all add: visit_each_append and_then_def split: sum.splits)
qed

lemma visit_each_single: "v x = visit_each v [x]"
  by (rule ext) (simp add: and_then_def split: sum.split)

lemma visit_each_map: "visit_each (\<lambda>x. v (f x)) xs = visit_each v (map f xs)"
  by (subst (1) visit_each_single [of v]) (simp only: visit_each_concat, simp add: concat_map_singleton)

lemma visit_opt_list: "visit_opt v x = visit_each v (opt_list x)"
  by (rule ext, cases x) (simp_all add: visit_opt_def opt_list_def and_then_def split: sum.split)

lemma visit_pattern_exprs: "visit_pattern v p = visit_each v (pattern_exprs p)"
  unfolding visit_pattern_def pattern_exprs_def by (simp only: visit_opt_list visit_each_concat)

lemma visit_match_exprs: "visit_match v c ps = visit_each v (match_exprs c) ps"
proof -
  have p: "visit_pattern v = (\<lambda>p. visit_each v (pattern_exprs p))" by (rule ext) (rule visit_pattern_exprs)
  show ?thesis unfolding visit_match_def match_exprs_def p
    by (simp only: visit_opt_list visit_each_concat visit_each_append visit_each_map)
qed

lemma visit_projection_exprs: "visit_projection v items order_by skip limit ps = visit_each v (projection_exprs items order_by skip limit) ps"
  unfolding visit_projection_def projection_exprs_def
  by (simp only: visit_opt_list visit_each_concat visit_each_append visit_each_map)

lemma visit_clause_exprs: "visit_clause v c ps = (case clause_exprs c of None \<Rightarrow> Inl refused | Some es \<Rightarrow> visit_each v es ps)"
  by (cases c) (simp_all only: visit_clause_def ast_clause.case clause_exprs.simps option.case visit_match_exprs visit_projection_exprs
      visit_each_append visit_opt_list visit_each_map, simp_all add: and_then_def split: sum.splits)

text \<open>These expressions are the direct parts.\<close>

lemma opt_list_set [simp]: "set (opt_list x) = set_option x"
  by (cases x) (simp_all add: opt_list_def)

lemma path_element_exprs: "set_option (case el of PNode node \<Rightarrow> n_properties node | PRel rel \<Rightarrow> r_properties rel) = set2_path_element el"
  by (cases el) (rename_tac x, case_tac x, simp)+

lemma pattern_exprs_set: "set (pattern_exprs p) = set2_path_pattern p"
  by (cases p) (simp add: pattern_exprs_def path_element_exprs)

lemma single_exprs:
  "set2_where_clause w = {wh_predicate w}" "set2_return_item item = {ri_expr item}" "set2_sort_item key = {so_expr key}"
  "set2_when_clause branch = {wn_condition branch, wn_result branch}"
  by (cases w, simp) (cases item, simp, cases key, simp, cases branch, simp)

lemma order_exprs: "set2_order_by_clause order = so_expr ` set (ob_items order)"
  by (cases order) (auto simp: single_exprs)

lemma match_exprs_set: "set (match_exprs c) = set2_match_clause c"
  by (cases c) (auto simp: match_exprs_def pattern_exprs_set single_exprs)

lemma projection_exprs_set:
  "set (projection_exprs items order_by skip limit) =
     \<Union> (set2_return_item ` set items) \<union> \<Union> (set2_order_by_clause ` set_option order_by) \<union> set_option skip \<union> set_option limit"
  by (auto simp: projection_exprs_def single_exprs order_exprs)

lemma clause_exprs_set: "clause_exprs c = Some es \<Longrightarrow> set es = set2_ast_clause c"
proof (cases c)
  case (CWith x)
  moreover assume "clause_exprs c = Some es"
  ultimately show ?thesis by (cases x) (auto simp: projection_exprs_set single_exprs)
next
  case (CReturn x)
  moreover assume "clause_exprs c = Some es"
  ultimately show ?thesis by (cases x) (auto simp: projection_exprs_set)
next
  case (CWhere x)
  moreover assume "clause_exprs c = Some es"
  ultimately show ?thesis by (cases x) (auto simp: single_exprs)
next
  case (CUnwind x)
  moreover assume "clause_exprs c = Some es"
  ultimately show ?thesis by (cases x) (auto simp: single_exprs)
qed (auto simp: match_exprs_set)

lemma and_then_cong [fundef_cong]: "x = y \<Longrightarrow> (\<And>z. y = Inr z \<Longrightarrow> f z = g z) \<Longrightarrow> and_then x f = and_then y g"
  by (simp add: and_then_def split: sum.split)

lemma visit_each_cong [fundef_cong]:
  "xs = ys \<Longrightarrow> ps = qs \<Longrightarrow> (\<And>x ps. x \<in> set ys \<Longrightarrow> v x ps = w x ps) \<Longrightarrow> visit_each v xs ps = visit_each w ys qs"
proof (induction xs arbitrary: ys ps qs)
  case (Cons x xs)
  then show ?case by (cases "w x qs") (auto simp: and_then_def)
qed simp

lemma visit_opt_cong [fundef_cong]:
  "x = y \<Longrightarrow> ps = qs \<Longrightarrow> (\<And>z ps. z \<in> set_option y \<Longrightarrow> v z ps = w z ps) \<Longrightarrow> visit_opt v x ps = visit_opt w y qs"
  by (cases y) (simp_all add: visit_opt_def)

lemma visit_pattern_cong [fundef_cong]:
  "p = q \<Longrightarrow> ps = qs \<Longrightarrow> (\<And>e ps. e \<in> set2_path_pattern q \<Longrightarrow> v e ps = w e ps) \<Longrightarrow> visit_pattern v p ps = visit_pattern w q qs"
  unfolding visit_pattern_exprs by (rule visit_each_cong) (simp_all add: pattern_exprs_set)

lemma visit_query_cong [fundef_cong]:
  assumes "p = q" "ps = qs" and e: "\<And>e ps. e \<in> set2_ast_query q \<Longrightarrow> v e ps = w e ps"
  shows "visit_query v p ps = visit_query w q qs"
proof -
  have "visit_clause v c ps = visit_clause w c ps" if "c \<in> set (q_clauses q)" for c ps
  proof -
    have "set2_ast_clause c \<subseteq> set2_ast_query q" using that by (cases q) auto
    then show ?thesis unfolding visit_clause_exprs
      by (auto split: option.split intro!: visit_each_cong e dest!: clause_exprs_set)
  qed
  then show ?thesis using assms(1,2) by (auto simp: visit_query_def intro!: visit_each_cong)
qed

function visit_expr :: "('s, 'f) expr \<Rightarrow> visitor" where
  "visit_expr (ELiteral _) ps = Inr ps"
| "visit_expr (EVar _ _) ps = Inr ps"
| "visit_expr (ELabelPredicate _ _ _) ps = Inr ps"
| "visit_expr (EParam name _) ps = Inr (insert name ps)"
| "visit_expr (EProperty q) ps = visit_expr (pa_object q) ps"
| "visit_expr (EBinaryOp _ left right _) ps = and_then (visit_expr left ps) (visit_expr right)"
| "visit_expr (EUnaryOp _ e _) ps = visit_expr e ps"
| "visit_expr (EFunctionCall _ _ _ args _) ps = visit_each visit_expr args ps"
| "visit_expr (EList elements _) ps = visit_each visit_expr elements ps"
| "visit_expr (EMap entries _ _) ps = visit_each visit_expr (map snd entries) ps"
| "visit_expr (ECase subject when_clauses else_expr _) ps =
     and_then (visit_opt visit_expr subject ps) (\<lambda>ps.
     and_then (visit_opt visit_expr else_expr ps) (\<lambda>ps.
     visit_each visit_expr (concat (map (\<lambda>branch. [wn_condition branch, wn_result branch]) when_clauses)) ps))"
| "visit_expr (EListComprehension _ list flt projection _) ps =
     and_then (visit_expr list ps) (\<lambda>ps.
     and_then (visit_opt visit_expr flt ps) (\<lambda>ps.
     visit_opt visit_expr projection ps))"
| "visit_expr (EQuantifier _ _ list predicate _) ps = and_then (visit_expr list ps) (visit_expr predicate)"
| "visit_expr (EPatternComprehension _ pattern flt projection _) ps =
     and_then (visit_pattern visit_expr pattern ps) (\<lambda>ps.
     and_then (visit_opt visit_expr flt ps) (\<lambda>ps.
     visit_expr projection ps))"
| "visit_expr (EPatternPredicate pattern _) ps = visit_pattern visit_expr pattern ps"
| "visit_expr (EExistentialSubquery (SimpleBody pattern flt) _) ps =
     and_then (visit_pattern visit_expr pattern ps) (\<lambda>ps.
     visit_opt visit_expr flt ps)"
| "visit_expr (EExistentialSubquery (FullBody query) _) ps = visit_query visit_expr query ps"
| "visit_expr (EIsNull e _ _) ps = visit_expr e ps"
| "visit_expr (EInList e list _ _) ps = and_then (visit_expr e ps) (visit_expr list)"
| "visit_expr (EStringOp e _ pattern _) ps = and_then (visit_expr e ps) (visit_expr pattern)"
| "visit_expr (ERegexMatch e pattern _) ps = and_then (visit_expr e ps) (visit_expr pattern)"
| "visit_expr (EParenthesized inner _) ps = visit_expr inner ps"
  by pat_completeness simp_all

termination visit_expr
proof (relation "inv_image {(x, y). x \<in> expr_parts y} fst")
  show "wf (inv_image {(x, y). x \<in> expr_parts y} fst)" by (rule wf_inv_image [OF wf_expr_parts])
  show "((pa_object q, ps), (EProperty q, ps)) \<in> inv_image {(x, y). x \<in> expr_parts y} fst" for q :: "('s, ('s, 'f) expr) property_access" and ps :: "ustring set"
    by (cases q) simp
qed (auto simp: single_exprs)

definition read_only_query_parameters :: "'f fmt_text \<Rightarrow> ustring \<Rightarrow> (gf_error + ustring set) option" where
  "read_only_query_parameters fmt query =
     map_option (\<lambda>parsed. case parsed of
         Inl e \<Rightarrow> Inl (GfValidation (lit ''invalid query syntax: '' @ parse_error_text e))
       | Inr q \<Rightarrow> visit_query visit_expr q {})
     (parse fmt query)"

section \<open>What is admitted\<close>

fun is_call :: "('s, 'e) ast_clause \<Rightarrow> bool" where
  "is_call (CCall _) = True"
| "is_call _ = False"

text \<open>A query that only reads: no clause of it writes or calls a procedure.\<close>

definition clauses_read :: "('s, 'e) ast_query \<Rightarrow> bool" where
  "clauses_read q \<longleftrightarrow> list_all (\<lambda>c. \<not> is_mutation c \<and> \<not> is_call c) (q_clauses q)"

fun subquery_reads :: "('s, 'f) expr \<Rightarrow> bool" where
  "subquery_reads (EExistentialSubquery (FullBody q) _) = clauses_read q"
| "subquery_reads _ = True"

text \<open>The same for every subquery of an expression.\<close>

function expr_reads :: "('s, 'f) expr \<Rightarrow> bool" where
  "expr_reads e = (subquery_reads e \<and> (\<forall>x\<in>expr_parts e. expr_reads x))"
  by pat_completeness auto

termination expr_reads
  by (relation "{(x, y). x \<in> expr_parts y}") (simp_all add: wf_expr_parts)

declare expr_reads.simps [simp del]

definition query_reads :: "('s, ('s, 'f) expr) ast_query \<Rightarrow> bool" where
  "query_reads q \<longleftrightarrow> clauses_read q \<and> (\<forall>e\<in>set2_ast_query q. expr_reads e)"

lemma clause_exprs_None: "clause_exprs c = None \<longleftrightarrow> is_mutation c \<or> is_call c"
  by (cases c) simp_all

text \<open>A visitor that decides: it refuses, or adds what an expression has.\<close>

definition decides :: "('e \<Rightarrow> visitor) \<Rightarrow> ('e \<Rightarrow> bool) \<Rightarrow> ('e \<Rightarrow> ustring set) \<Rightarrow> 'e \<Rightarrow> bool" where
  "decides v R W x \<longleftrightarrow> (\<forall>ps. v x ps = (if R x then Inr (ps \<union> W x) else Inl refused))"

lemma decides_all:
  "(\<And>x. x \<in> set xs \<Longrightarrow> decides v R W x) \<Longrightarrow> decides (visit_each v) (\<lambda>xs. \<forall>x\<in>set xs. R x) (\<lambda>xs. \<Union> (W ` set xs)) xs"
  by (induction xs) (auto simp: decides_def and_then_def)

lemma decides_list:
  assumes "\<And>x. x \<in> set xs \<Longrightarrow> decides v R W x"
  shows "visit_each v xs ps = (if \<forall>x\<in>set xs. R x then Inr (ps \<union> \<Union> (W ` set xs)) else Inl refused)"
  using decides_all [OF assms] by (simp add: decides_def)

lemma decides_pattern:
  assumes "\<And>e. e \<in> set2_path_pattern p \<Longrightarrow> decides v R W e"
  shows "visit_pattern v p ps = (if \<forall>e\<in>set2_path_pattern p. R e then Inr (ps \<union> \<Union> (W ` set2_path_pattern p)) else Inl refused)"
  using decides_all [of "pattern_exprs p" v R W] assms by (simp add: visit_pattern_exprs pattern_exprs_set decides_def)

lemma decides_opt:
  assumes "\<And>e. e \<in> set_option x \<Longrightarrow> decides v R W e"
  shows "visit_opt v x ps = (if \<forall>e\<in>set_option x. R e then Inr (ps \<union> \<Union> (W ` set_option x)) else Inl refused)"
  using assms by (cases x) (auto simp: visit_opt_def decides_def)

lemma decides_query:
  assumes "\<And>e. e \<in> set2_ast_query q \<Longrightarrow> decides v R W e" "q_clauses q \<noteq> []"
  shows "visit_query v q ps =
    (if clauses_read q \<and> (\<forall>e\<in>set2_ast_query q. R e) then Inr (ps \<union> \<Union> (W ` set2_ast_query q)) else Inl refused)"
proof -
  have parts: "set2_ast_query q = \<Union> (set2_ast_clause ` set (q_clauses q))" by (cases q) simp
  have "decides (visit_clause v) (\<lambda>c. (\<not> is_mutation c \<and> \<not> is_call c) \<and> (\<forall>e\<in>set2_ast_clause c. R e)) (\<lambda>c. \<Union> (W ` set2_ast_clause c)) c"
    if "c \<in> set (q_clauses q)" for c
  proof (cases "clause_exprs c")
    case None
    then show ?thesis using clause_exprs_None [of c] by (auto simp: decides_def visit_clause_exprs)
  next
    case (Some es)
    moreover have "decides (visit_each v) (\<lambda>xs. \<forall>x\<in>set xs. R x) (\<lambda>xs. \<Union> (W ` set xs)) es"
      by (rule decides_all) (use assms(1) clause_exprs_set [OF Some] that in \<open>auto simp: parts\<close>)
    ultimately show ?thesis using clause_exprs_None [of c] clause_exprs_set [OF Some] by (simp add: decides_def visit_clause_exprs)
  qed
  from decides_all [of "q_clauses q", OF this] show ?thesis using assms(2)
    by (auto simp: decides_def visit_query_def parts clauses_read_def list_all_iff)
qed

lemma expr_params_step: "expr_params e = (case e of EParam name _ \<Rightarrow> {name} | _ \<Rightarrow> {}) \<union> parts_params (expr_parts e)"
  by (cases e) auto

lemma expr_ok_parts: "expr_ok e \<Longrightarrow> x \<in> expr_parts e \<Longrightarrow> expr_ok x"
  by (cases e) (auto simp: part_maps simp del: path_pattern_parts)

text \<open>The parts of an expression in the order of the visit; those of a full subquery are visited by its query.\<close>

fun visited :: "('s, 'f) expr \<Rightarrow> ('s, 'f) expr list" where
  "visited (EProperty q) = [pa_object q]"
| "visited (EBinaryOp _ l r _) = [l, r]"
| "visited (EUnaryOp _ e _) = [e]"
| "visited (EFunctionCall _ _ _ args _) = args"
| "visited (EList es _) = es"
| "visited (EMap entries _ _) = map snd entries"
| "visited (ECase subject whens else_expr _) =
     opt_list subject @ opt_list else_expr @ concat (map (\<lambda>branch. [wn_condition branch, wn_result branch]) whens)"
| "visited (EListComprehension _ list flt projection _) = [list] @ opt_list flt @ opt_list projection"
| "visited (EQuantifier _ _ list predicate _) = [list, predicate]"
| "visited (EPatternComprehension _ p flt projection _) = pattern_exprs p @ opt_list flt @ [projection]"
| "visited (EPatternPredicate p _) = pattern_exprs p"
| "visited (EExistentialSubquery (SimpleBody p flt) _) = pattern_exprs p @ opt_list flt"
| "visited (EIsNull e _ _) = [e]"
| "visited (EInList e l _ _) = [e, l]"
| "visited (EStringOp e _ p _) = [e, p]"
| "visited (ERegexMatch e p _) = [e, p]"
| "visited (EParenthesized e _) = [e]"
| "visited _ = []"

lemma visit_each_ends: "and_then x (visit_each v []) = x" "visit_each v [y] = v y"
  by (simp_all add: and_then_def fun_eq_iff split: sum.split)

lemma visited_set: "(\<And>q s. e \<noteq> EExistentialSubquery (FullBody q) s) \<Longrightarrow> set (visited e) = expr_parts e"
proof (cases e)
  case (EProperty q)
  then show ?thesis by (cases q) simp
next
  case (EExistentialSubquery b s)
  moreover assume "\<And>q s. e \<noteq> EExistentialSubquery (FullBody q) s"
  ultimately show ?thesis by (cases b) (auto simp: pattern_exprs_set simp del: path_pattern_parts)
qed (auto simp: pattern_exprs_set single_exprs simp del: path_pattern_parts)

lemma visit_expr_visited:
  assumes "\<And>q s. e \<noteq> EExistentialSubquery (FullBody q) s"
  shows "visit_expr e ps = visit_each visit_expr (visited e) (ps \<union> (case e of EParam name _ \<Rightarrow> {name} | _ \<Rightarrow> {}))"
proof (cases e)
  case (EExistentialSubquery b s)
  with assms obtain p flt where "e = EExistentialSubquery (SimpleBody p flt) s" by (cases b) auto
  then show ?thesis by (simp add: visit_pattern_exprs visit_opt_list visit_each_append)
qed (simp_all add: visit_pattern_exprs visit_opt_list visit_each_append visit_each_ends)

lemma visit_expr_decides: "expr_ok (e :: 'f exp) \<Longrightarrow> decides visit_expr expr_reads expr_params e"
proof (induction e rule: wf_induct_rule [OF wf_expr_parts])
  case (1 e)
  have ih: "decides visit_expr expr_reads expr_params x" if "x \<in> expr_parts e" for x using 1 that expr_ok_parts [of e x] by auto
  note step = expr_reads.simps [of e] expr_params_step [of e]
  show ?case
  proof (cases "\<exists>q s. e = EExistentialSubquery (FullBody q) s")
    case True
    then obtain q s where q: "e = EExistentialSubquery (FullBody q) s" by blast
    have "visit_query visit_expr q ps =
       (if clauses_read q \<and> (\<forall>e\<in>set2_ast_query q. expr_reads e) then Inr (ps \<union> \<Union> (expr_params ` set2_ast_query q)) else Inl refused)" for ps
      by (intro decides_query ih) (use 1(2) q in auto)
    with q step show ?thesis by (simp add: decides_def parts_params_def)
  next
    case False
    then have f: "\<And>q s. e \<noteq> EExistentialSubquery (FullBody q) s" by blast
    then have "subquery_reads e" by (cases e rule: subquery_reads.cases) auto
    moreover have "visit_each visit_expr (visited e) ps =
        (if \<forall>x\<in>expr_parts e. expr_reads x then Inr (ps \<union> \<Union> (expr_params ` expr_parts e)) else Inl refused)" for ps
      using decides_list [of "visited e" visit_expr expr_reads expr_params ps] ih visited_set [OF f] by simp
    ultimately show ?thesis using step by (simp add: decides_def visit_expr_visited [OF f] parts_params_def Un_assoc)
  qed
qed

lemma visit_query_exact:
  assumes "query_valid n q"
  shows "visit_query visit_expr q {} =
    (if q_clauses q = [] then Inl empty_query else if query_reads q then Inr (query_params q) else Inl refused)"
proof (cases "q_clauses q = []")
  case False
  have "decides visit_expr expr_reads expr_params e" if "e \<in> set2_ast_query q" for e
    by (rule visit_expr_decides) (use that assms in \<open>auto simp: query_valid_def exprs_valid_def expr_valid_def\<close>)
  from decides_query [OF this False] False show ?thesis by (simp add: query_reads_def query_params_def parts_params_def)
qed (simp add: visit_query_def)

text \<open>C9. The admission of saved queries is exact. A text is admitted if and only if it parses to a query with at
  least one clause in which no clause writes or calls a procedure, in the query itself and in every existential subquery
  at any depth; and the names returned are the parameter tokens of the text.\<close>

theorem read_only_exact:
  "read_only_query_parameters fmt input = Some (Inr names) \<longleftrightarrow>
   (\<exists>q tokens. parse fmt input = Some (Inr q) \<and> q_clauses q \<noteq> [] \<and> query_reads q \<and>
      collect_tokens fmt (lexer_new input) = Inr tokens \<and> names = token_params tokens)"
proof (cases "parse fmt input")
  case None
  then show ?thesis by (simp add: read_only_query_parameters_def)
next
  case (Some r)
  with parse_result [where fmt = fmt and input = input] show ?thesis
    by (cases r) (auto simp: read_only_query_parameters_def visit_query_exact split: if_splits)
qed

end
