(* ===== verification/Stream_Eval.thy ===== *)
theory Stream_Eval
  imports Parser_Clauses
begin

text \<open>
  Running the parser on known tokens: the tokens ahead in a stream, the stream after some of them, what the operations of
  \<open>Token_Stream\<close> give for them, and the loop that reads a list of items with a separator.
\<close>

section \<open>Running a parser on given tokens\<close>

definition ahead :: "'f token_stream \<Rightarrow> 'f tok list" where
  "ahead ts = map (\<lambda>(_, tok, _). tok) (drop (ts_pos ts) (ts_tokens ts))"

definition skip :: "nat \<Rightarrow> 'f token_stream \<Rightarrow> 'f token_stream" where
  "skip n ts = ts\<lparr>ts_pos := ts_pos ts + n\<rparr>"

lemma skip_simps [simp]:
  "skip 0 ts = ts" "skip m (skip n ts) = skip (n + m) ts" "ts_tokens (skip n ts) = ts_tokens ts" "ts_input (skip n ts) = ts_input ts"
  "ts_unsupported (skip n ts) = ts_unsupported ts" "ahead (skip n ts) = drop n (ahead ts)"
  by (simp_all add: skip_def ahead_def drop_map add.commute add.assoc)

lemma ahead_Cons:
  assumes "ahead ts = tok # toks"
  obtains l r where "ts_pos ts < length (ts_tokens ts)" "ts_tokens ts ! ts_pos ts = (l, tok, r)"
proof -
  have p: "ts_pos ts < length (ts_tokens ts)" using assms by (cases "ts_pos ts < length (ts_tokens ts)") (simp_all add: ahead_def)
  then have "drop (ts_pos ts) (ts_tokens ts) = ts_tokens ts ! ts_pos ts # drop (Suc (ts_pos ts)) (ts_tokens ts)" by (simp add: Cons_nth_drop_Suc)
  with assms have "fst (snd (ts_tokens ts ! ts_pos ts)) = tok" by (simp add: ahead_def case_prod_beta)
  with p that [of "fst (ts_tokens ts ! ts_pos ts)" "snd (snd (ts_tokens ts ! ts_pos ts))"] show thesis by (cases "ts_tokens ts ! ts_pos ts") simp
qed

lemma peek_ahead: "ts_peek ts = (case ahead ts of [] \<Rightarrow> None | tok # _ \<Rightarrow> Some tok)"
proof (cases "ahead ts")
  case Nil
  then show ?thesis by (auto simp: ahead_def ts_peek_def)
next
  case (Cons tok toks)
  from ahead_Cons [OF this] obtain l r where "ts_pos ts < length (ts_tokens ts)" "ts_tokens ts ! ts_pos ts = (l, tok, r)" .
  with Cons show ?thesis by (simp add: ts_peek_def)
qed

lemma peek_n_ahead: "ts_peek_n n ts = (if n < length (ahead ts) then Some (ahead ts ! n) else None)"
  by (auto simp: ts_peek_n_def ahead_def case_prod_beta)

text \<open>A parser takes a number of tokens and gives a value of some kind.\<close>

definition yields :: "('f, 'a) parser \<Rightarrow> 'f token_stream \<Rightarrow> nat \<Rightarrow> ('a \<Rightarrow> bool) \<Rightarrow> bool" where
  "yields p ts n P \<longleftrightarrow> (\<exists>x. p ts = Some (Inr (x, skip n ts)) \<and> P x)"

lemma yields_bind:
  "yields p ts n P \<Longrightarrow> (\<And>x. P x \<Longrightarrow> yields (f x) (skip n ts) m Q) \<Longrightarrow> k = n + m \<Longrightarrow> yields (bindp p f) ts k Q"
  by (fastforce simp: yields_def bindp_def)

lemma yields_eat_if: "ahead ts = tok # toks \<Longrightarrow> yields (ts_eat_if tok) ts 1 (\<lambda>b. b)"
  unfolding yields_def by (rule exI [of _ True]) (simp add: ts_eat_if_def ts_at_def peek_ahead skip_def)

lemma yields_eat_if_not: "(case ahead ts of [] \<Rightarrow> True | t # _ \<Rightarrow> t \<noteq> tok) \<Longrightarrow> yields (ts_eat_if tok) ts 0 (\<lambda>b. \<not> b)"
  by (auto simp: yields_def ts_eat_if_def ts_at_def peek_ahead split: list.splits)

lemma yields_mono: "yields p ts n P \<Longrightarrow> (\<And>x. P x \<Longrightarrow> Q x) \<Longrightarrow> yields p ts n Q"
  by (auto simp: yields_def)

section \<open>Loops\<close>

lemma iterate_more: "iterate k step x ts = Some r \<Longrightarrow> k \<le> m \<Longrightarrow> iterate m step x ts = Some r"
proof (induction k arbitrary: m x ts)
  case (Suc k)
  then obtain m' where m: "m = Suc m'" "k \<le> m'" by (cases m) auto
  show ?case
  proof (cases "step x ts")
    case (Some y)
    with Suc m show ?thesis by (cases y) (auto simp: bindp_def split: sum.splits)
  qed (use Suc in \<open>simp add: bindp_def\<close>)
qed simp

lemma ahead_length: "length (ahead ts) \<le> length (ts_tokens ts)"
  by (simp add: ahead_def)

lemma iterate_loop: "iterate k step x ts = Some r \<Longrightarrow> k \<le> length (ahead ts) + 1 \<Longrightarrow> loop step x ts = Some r"
  unfolding loop_def by (erule iterate_more) (use ahead_length [of ts] in linarith)

text \<open>Items that a parser reads: a list of values and of the tokens of each.\<close>

definition item_tokens :: "'f tok \<Rightarrow> 'f tok list list \<Rightarrow> 'f tok list" where
  "item_tokens sep items = concat (map (Cons sep) items)"

lemma item_tokens_simps [simp]: "item_tokens sep [] = []" "item_tokens sep (t # items) = sep # t @ item_tokens sep items"
  by (simp_all add: item_tokens_def)

lemma yields_while_eat:
  assumes item: "\<And>x ts toks. x \<in> set xs \<Longrightarrow> ahead ts = g x @ toks \<Longrightarrow> (\<exists>t r. toks = t # r \<and> (t = sep \<or> stop t)) \<Longrightarrow> yields item ts (length (g x)) (R x)"
    and a: "ahead ts = item_tokens sep (map g xs) @ t # toks" and t: "stop t" "t \<noteq> sep"
  shows "yields (while_eat sep item acc) ts (length (item_tokens sep (map g xs))) (\<lambda>ys. \<exists>zs. ys = acc @ zs \<and> list_all2 R xs zs)"
proof -
  let ?step = "\<lambda>xs. bindp (ts_eat_if sep) (\<lambda>more. if more then bindp item (\<lambda>x. ret (Inl (xs @ [x]))) else ret (Inr xs))"
  have "yields (iterate (Suc (length xs)) ?step acc) ts (length (item_tokens sep (map g xs))) (\<lambda>ys. \<exists>zs. ys = acc @ zs \<and> list_all2 R xs zs)"
    using item a
  proof (induction xs arbitrary: ts acc)
    case Nil
    from yields_eat_if_not [where ts = ts and tok = sep] Nil(2) t(2) show ?case by (auto simp: yields_def bindp_def ret_def)
  next
    case (Cons x xs)
    have one: "yields item (skip 1 ts) (length (g x)) (R x)"
      by (rule Cons.prems(1) [where toks = "item_tokens sep (map g xs) @ t # toks"]) (use Cons.prems(2) t(1) in \<open>cases xs; simp\<close>)+
    have "yields (ts_eat_if sep) ts 1 (\<lambda>b. b)" by (rule yields_eat_if) (use Cons.prems(2) in simp)
    with one obtain y where y: "?step acc ts = Some (Inr (Inl (acc @ [y]), skip (Suc (length (g x))) ts))" "R x y"
      by (auto simp: yields_def bindp_def ret_def)
    have "yields (iterate (Suc (length xs)) ?step (acc @ [y])) (skip (Suc (length (g x))) ts) (length (item_tokens sep (map g xs)))
        (\<lambda>ys. \<exists>zs. ys = (acc @ [y]) @ zs \<and> list_all2 R xs zs)"
      by (rule Cons.IH) (use Cons.prems in \<open>auto simp del: append_assoc\<close>)
    then obtain zs where "iterate (Suc (length xs)) ?step (acc @ [y]) (skip (Suc (length (g x))) ts) =
        Some (Inr (acc @ y # zs, skip (Suc (length (g x)) + length (item_tokens sep (map g xs))) ts))" "list_all2 R xs zs"
      by (auto simp: yields_def)
    then have "iterate (Suc (length (x # xs))) ?step acc ts = Some (Inr (acc @ y # zs, skip (length (item_tokens sep (map g (x # xs)))) ts))"
      "list_all2 R (x # xs) (y # zs)" using y by (simp_all add: bindp_def)
    then show ?case unfolding yields_def by blast
  qed
  moreover have "length xs \<le> length (item_tokens sep (map g xs))" by (induction xs) auto
  then have "Suc (length xs) \<le> length (ahead ts) + 1" using a by simp
  ultimately show ?thesis unfolding yields_def while_eat_def by (blast dest: iterate_loop)
qed

section \<open>Evaluation on given tokens\<close>

definition here :: "'f token_stream \<Rightarrow> span" where
  "here ts = (fst (ts_tokens ts ! ts_pos ts), snd (snd (ts_tokens ts ! ts_pos ts)))"

lemma ahead_here:
  assumes "ahead ts \<noteq> []"
  shows "ts_pos ts < length (ts_tokens ts)" "ts_tokens ts ! ts_pos ts = (fst (here ts), hd (ahead ts), snd (here ts))"
  using assms by (cases "ahead ts"; auto elim!: ahead_Cons simp: here_def)+

lemma advance_eval: "ahead ts \<noteq> [] \<Longrightarrow> ts_advance ts = Some (Inr (Some (fst (here ts), hd (ahead ts), snd (here ts)), skip 1 ts))"
  by (simp add: ts_advance_def skip_def ahead_here)

lemma eat_eval: "ahead ts \<noteq> [] \<Longrightarrow> hd (ahead ts) = tok \<Longrightarrow> ts_eat fmt tok ts = Some (Inr (here ts, skip 1 ts))"
  by (simp add: ts_eat_def skip_def ahead_here)

lemma eat_fail_eval: "ahead ts \<noteq> [] \<Longrightarrow> hd (ahead ts) \<noteq> tok \<Longrightarrow> \<exists>e. ts_eat fmt tok ts = Some (Inl e)"
  by (simp add: ts_eat_def ahead_here)

lemma eat_if_eval:
  "ahead ts \<noteq> [] \<Longrightarrow> hd (ahead ts) = tok \<Longrightarrow> ts_eat_if tok ts = Some (Inr (True, skip 1 ts))"
  "ahead ts = [] \<or> hd (ahead ts) \<noteq> tok \<Longrightarrow> ts_eat_if tok ts = Some (Inr (False, ts))"
  by (cases "ahead ts"; simp add: ts_eat_if_def ts_at_def peek_ahead skip_def)+

lemma peek_eval:
  "ahead ts \<noteq> [] \<Longrightarrow> ts_peek ts = Some (hd (ahead ts))" "ts_at tok ts \<longleftrightarrow> ahead ts \<noteq> [] \<and> hd (ahead ts) = tok"
  "k < length (ahead ts) \<Longrightarrow> ts_peek_n k ts = Some (ahead ts ! k)"
  by (cases "ahead ts"; simp add: peek_ahead peek_n_ahead ts_at_def)+

lemmas eval_simps = bindp_def seeing_def ret_def advance_eval eat_eval eat_if_eval peek_eval ts_take_def

end
