(* ===== verification/Expr_Print.thy ===== *)
theory Expr_Print
  imports Stream_Eval Lexer_Print
begin

text \<open>
  The tokens of an expression, and the expressions that their tokens determine. The tokens of the operators are
  those of the table of \<open>Parser_Exprs\<close>; their precedence is written out. Spans are a type parameter of expressions; printing does not look at them.
\<close>

section \<open>The tokens of an expression\<close>

text \<open>
  Expressions without patterns and subqueries. The operators are those of the tables of the parser. A name is printed as
  an identifier, and a negative integer with its sign.
\<close>

definition op_token :: "infix_op \<Rightarrow> 'f tok" where
  "op_token op = the (map_of (map (\<lambda>(t, op). (op, t)) infix_table) op)"

definition kind_op :: "binary_op_kind \<Rightarrow> infix_op option" where
  "kind_op kind = map_of (map (\<lambda>(op, kind). (kind, op)) binary_table) kind"

primrec string_op :: "string_op_kind \<Rightarrow> infix_op" where
  "string_op SStartsWith = IStartsWith"
| "string_op SEndsWith = IEndsWith"
| "string_op SContains = IContains"

primrec literal_tokens :: "('s, 'f) literal \<Rightarrow> 'f tok list" where
  "literal_tokens (LInt n _) = (if n < 0 then [TMinus, TIntLit (- n)] else [TIntLit n])"
| "literal_tokens (LFloat f _) = [TFloatLit f]"
| "literal_tokens (LStr s _) = [TStrLit s]"
| "literal_tokens (LBool b _) = [TKeyword (if b then TTrue else TFalse)]"
| "literal_tokens (LNull _) = [TKeyword TNull]"

fun name_tokens :: "ustring list \<Rightarrow> 'f tok list" where
  "name_tokens [] = []"
| "name_tokens (n # ns) = TIdent n # item_tokens TDot (map (\<lambda>n. [TIdent n]) ns)"

fun comma_tokens :: "'f tok list list \<Rightarrow> 'f tok list" where
  "comma_tokens [] = []"
| "comma_tokens (t # ts) = t @ item_tokens TComma ts"

primrec quantifier_tok :: "quantifier_kind \<Rightarrow> keyword_tok" where
  "quantifier_tok QAll = TAll"
| "quantifier_tok QAny = TAny"
| "quantifier_tok QNone = TNone"
| "quantifier_tok QSingle = TSingle"

definition opt_tokens :: "'f tok \<Rightarrow> ('e \<Rightarrow> 'f tok list) \<Rightarrow> 'e option \<Rightarrow> 'f tok list" where
  "opt_tokens tok f x = (case x of None \<Rightarrow> [] | Some e \<Rightarrow> tok # f e)"

lemma opt_tokens_cong [fundef_cong]: "x = y \<Longrightarrow> tok = tok' \<Longrightarrow> (\<And>e. e \<in> set_option y \<Longrightarrow> f e = g e) \<Longrightarrow> opt_tokens tok f x = opt_tokens tok' g y"
  by (simp add: opt_tokens_def split: option.split)

lemma option_map_cong [fundef_cong]: "x = y \<Longrightarrow> (\<And>e. e \<in> set_option y \<Longrightarrow> f e = g e) \<Longrightarrow> map_option f x = map_option g y"
  by (cases y) simp_all

lemma when_clause_exprs: "set2_when_clause w = {wn_condition w, wn_result w}"
  by (cases w) simp

function expr_tokens :: "('s, 'f) expr \<Rightarrow> 'f tok list" where
  "expr_tokens (ELiteral l) = literal_tokens l"
| "expr_tokens (EVar name _) = [TIdent name]"
| "expr_tokens (EParam name _) = [TParam name]"
| "expr_tokens (EProperty q) = expr_tokens (pa_object q) @ [TDot, TIdent (pa_key q)]"
| "expr_tokens (EBinaryOp kind l r _) = expr_tokens l @ op_token (the (kind_op kind)) # expr_tokens r"
| "expr_tokens (EUnaryOp UNot e _) = TKeyword TNot # expr_tokens e"
| "expr_tokens (EUnaryOp UNeg e _) = TMinus # expr_tokens e"
| "expr_tokens (EFunctionCall name dist star args _) =
     name_tokens name @ TLParen # (if star then [TStar] else (if dist then [TKeyword TDistinct] else []) @ comma_tokens (map expr_tokens args)) @ [TRParen]"
| "expr_tokens (EList es _) = TLBracket # comma_tokens (map expr_tokens es) @ [TRBracket]"
| "expr_tokens (EMap entries _ _) = TLBrace # comma_tokens (map (\<lambda>entry. TIdent (fst entry) # TColon # expr_tokens (snd entry)) entries) @ [TRBrace]"
| "expr_tokens (ECase subject whens else_expr _) =
     TKeyword TCase # (case map_option expr_tokens subject of None \<Rightarrow> [] | Some t \<Rightarrow> t) @
     item_tokens (TKeyword TWhen) (map (\<lambda>w. expr_tokens (wn_condition w) @ TKeyword TThen # expr_tokens (wn_result w)) whens) @
     opt_tokens (TKeyword TElse) expr_tokens else_expr @ [TKeyword TEnd]"
| "expr_tokens (EListComprehension var list flt projection _) =
     TLBracket # TIdent var # TKeyword TIn # expr_tokens list @ opt_tokens (TKeyword TWhere) expr_tokens flt @ opt_tokens TPipe expr_tokens projection @ [TRBracket]"
| "expr_tokens (EQuantifier kind var list predicate _) =
     TKeyword (quantifier_tok kind) # TLParen # TIdent var # TKeyword TIn # expr_tokens list @ TKeyword TWhere # expr_tokens predicate @ [TRParen]"
| "expr_tokens (ELabelPredicate var labels _) = TIdent var # item_tokens TColon (map (\<lambda>l. [TIdent l]) labels)"
| "expr_tokens (EIsNull e negated _) = expr_tokens e @ [op_token (if negated then IIsNotNull else IIsNull)]"
| "expr_tokens (EInList e l negated _) = expr_tokens e @ op_token (if negated then INotIn else IIn) # expr_tokens l"
| "expr_tokens (EStringOp e op p _) = expr_tokens e @ op_token (string_op op) # expr_tokens p"
| "expr_tokens (ERegexMatch e p _) = expr_tokens e @ op_token IRegexMatch # expr_tokens p"
| "expr_tokens (EParenthesized e _) = TLParen # expr_tokens e @ [TRParen]"
| "expr_tokens (EPatternComprehension _ _ _ _ _) = []"
| "expr_tokens (EPatternPredicate _ _) = []"
| "expr_tokens (EExistentialSubquery _ _) = []"
  by pat_completeness simp_all

termination expr_tokens
proof (relation "{(x, y). x \<in> expr_parts y}")
  show "wf {(x, y). x \<in> expr_parts y}" by (rule wf_expr_parts)
  show "(pa_object q, EProperty q) \<in> {(x, y). x \<in> expr_parts y}" for q :: "('s, ('s, 'f) expr) property_access" by (cases q) simp
qed (auto simp: when_clause_exprs)

section \<open>Grouping\<close>

text \<open>
  An expression is grouped if its tokens determine it: the operators at the left and the right edge of an operand bind
  tighter than the operator next to it, comparisons are not chained, and a parenthesis or a list does not begin like a
  pattern. The operators have the precedences of openCypher and associate to the left; \<open>NOT\<close> is between the conjunction and
  the comparisons, and the minus sign between the power and the property access.
\<close>

primrec precedence :: "infix_op \<Rightarrow> nat" where
  "precedence IOr = 10"
| "precedence IXor = 20"
| "precedence IAnd = 30"
| "precedence IEq = 40"
| "precedence INeq = 40"
| "precedence ILt = 40"
| "precedence ILte = 40"
| "precedence IGt = 40"
| "precedence IGte = 40"
| "precedence IRegexMatch = 40"
| "precedence IIsNull = 45"
| "precedence IIsNotNull = 45"
| "precedence IIn = 45"
| "precedence INotIn = 45"
| "precedence IStartsWith = 45"
| "precedence IEndsWith = 45"
| "precedence IContains = 45"
| "precedence IAdd = 50"
| "precedence ISub = 50"
| "precedence IMul = 60"
| "precedence IDiv = 60"
| "precedence IMod = 60"
| "precedence IPow = 70"
| "precedence IDot = 80"
| "precedence ISubscript = 80"
| "precedence ILabelPredicate = 80"

lemma infix_powers: "infix_binding_power op = (precedence op, Suc (precedence op))"
  by (cases op) (simp_all add: infix_binding_power_def)

fun infix_parts :: "('s, 'f) expr \<Rightarrow> (('s, 'f) expr \<times> infix_op \<times> ('s, 'f) expr option) option" where
  "infix_parts (EProperty (PropertyAccess l _ _)) = Some (l, IDot, None)"
| "infix_parts (EBinaryOp kind l r _) = Some (l, the (kind_op kind), Some r)"
| "infix_parts (EIsNull l negated _) = Some (l, if negated then IIsNotNull else IIsNull, None)"
| "infix_parts (EInList l r negated _) = Some (l, if negated then INotIn else IIn, Some r)"
| "infix_parts (EStringOp l op r _) = Some (l, string_op op, Some r)"
| "infix_parts (ERegexMatch l r _) = Some (l, IRegexMatch, Some r)"
| "infix_parts _ = None"

fun prefix_part :: "('s, 'f) expr \<Rightarrow> (nat \<times> ('s, 'f) expr) option" where
  "prefix_part (EUnaryOp UNot e _) = Some (35, e)"
| "prefix_part (EUnaryOp UNeg e _) = Some (75, e)"
| "prefix_part _ = None"

lemma infix_parts_parts: "infix_parts e = Some (l, op, r) \<Longrightarrow> l \<in> expr_parts e \<and> set_option r \<subseteq> expr_parts e"
  by (cases e rule: infix_parts.cases) auto

lemma prefix_part_parts: "prefix_part e = Some (n, x) \<Longrightarrow> x \<in> expr_parts e"
  by (cases e rule: prefix_part.cases) auto

function left_edge :: "('s, 'f) expr \<Rightarrow> nat" where
  "left_edge e = (case infix_parts e of
      Some (l, op, _) \<Rightarrow> min (precedence op) (left_edge l)
    | None \<Rightarrow> (case e of ELabelPredicate _ _ _ \<Rightarrow> precedence ILabelPredicate | _ \<Rightarrow> 100))"
  by pat_completeness simp

termination left_edge
  by (relation "{(x, y). x \<in> expr_parts y}") (auto simp: wf_expr_parts dest: infix_parts_parts)

text \<open>The power below which an operator that follows is not taken by an operand at the right edge, and whether that edge is a variable in parentheses.\<close>

function right_edge :: "('s, 'f) expr \<Rightarrow> nat \<times> bool" where
  "right_edge e = (case infix_parts e of
      Some (_, op, Some r) \<Rightarrow> (case right_edge r of (n, b) \<Rightarrow> (min (Suc (precedence op)) n, b))
    | Some (_, _, None) \<Rightarrow> (100, False)
    | None \<Rightarrow> (case prefix_part e of
         Some (m, x) \<Rightarrow> (case right_edge x of (n, b) \<Rightarrow> (min m n, b))
       | None \<Rightarrow> (100, case e of EParenthesized (EVar _ _) _ \<Rightarrow> True | _ \<Rightarrow> False)))"
  by pat_completeness simp

termination right_edge
  by (relation "{(x, y). x \<in> expr_parts y}") (auto simp: wf_expr_parts dest: infix_parts_parts prefix_part_parts)

declare left_edge.simps [simp del] right_edge.simps [simp del]

fun is_comparison :: "('s, 'f) expr \<Rightarrow> bool" where
  "is_comparison (EBinaryOp kind _ _ _) = (kind \<in> {BEq, BNeq, BLt, BLte, BGt, BGte})"
| "is_comparison _ = False"

text \<open>Tokens on which the parser of a node pattern fails without going into an expression.\<close>

definition not_node :: "'f tok list \<Rightarrow> bool" where
  "not_node toks =
     (case toks of
        [] \<Rightarrow> False
      | p # u \<Rightarrow> p \<noteq> TLParen \<or>
          (case u of
             [] \<Rightarrow> False
           | a # v \<Rightarrow> (case ident_of a of
                None \<Rightarrow> a \<notin> {TColon, TLBrace, TRParen}
              | Some _ \<Rightarrow> (case v of [] \<Rightarrow> False | b # _ \<Rightarrow> b \<notin> {TColon, TLBrace, TRParen}))))"

text \<open>Tokens of a first element that do not make a list a comprehension.\<close>

definition plain_element :: "'f tok list \<Rightarrow> bool" where
  "plain_element toks =
     (case toks of
        a # b # u \<Rightarrow>
          if ident_of a \<noteq> None \<and> b = TKeyword TIn then False
          else if ident_of a \<noteq> None \<and> b = TEq then not_node u
          else not_node toks
      | _ \<Rightarrow> not_node toks)"

definition joins :: "('s, 'f) expr \<Rightarrow> infix_op \<Rightarrow> bool" where
  "joins l op \<longleftrightarrow> precedence op < fst (right_edge l) \<and> (op = ISub \<longrightarrow> \<not> snd (right_edge l))"

definition takes :: "infix_op \<Rightarrow> ('s, 'f) expr \<Rightarrow> bool" where
  "takes op r \<longleftrightarrow> Suc (precedence op) \<le> left_edge r"

text \<open>The conditions at one node, and at all nodes of an expression.\<close>

fun grouped_here :: "('s, 'f) expr \<Rightarrow> bool" where
  "grouped_here (ELiteral l) = (case l of LInt n _ \<Rightarrow> - (2 ^ 63) \<le> n \<and> n < 2 ^ 63 | _ \<Rightarrow> True)"
| "grouped_here (EVar _ _) = True"
| "grouped_here (EParam _ _) = True"
| "grouped_here (EProperty q) = joins (pa_object q) IDot"
| "grouped_here (EBinaryOp kind l r _) =
     (case kind_op kind of
        None \<Rightarrow> False
      | Some op \<Rightarrow> joins l op \<and> takes op r \<and> (kind \<in> {BEq, BNeq, BLt, BLte, BGt, BGte} \<longrightarrow> \<not> is_comparison l))"
| "grouped_here (EUnaryOp op e _) =
     (case op of UNot \<Rightarrow> 35 \<le> left_edge e | UNeg \<Rightarrow> 75 \<le> left_edge e \<and> int_of (hd (expr_tokens e)) = None)"
| "grouped_here (EFunctionCall name dist star args _) = (name \<noteq> [] \<and> (star \<longrightarrow> args = [] \<and> \<not> dist))"
| "grouped_here (EList es _) = (es = [] \<or> plain_element (expr_tokens (hd es)))"
| "grouped_here (EMap entries key_spans _) = (distinct (map fst entries) \<and> map fst key_spans = map fst entries)"
| "grouped_here (ECase subject whens _ _) = (subject \<noteq> None \<or> whens \<noteq> [])"
| "grouped_here (EListComprehension _ _ _ _ _) = True"
| "grouped_here (EQuantifier _ _ _ _ _) = True"
| "grouped_here (ELabelPredicate _ labels _) = (labels \<noteq> [])"
| "grouped_here (EIsNull l negated _) = joins l (if negated then IIsNotNull else IIsNull)"
| "grouped_here (EInList l r negated _) = (joins l (if negated then INotIn else IIn) \<and> takes (if negated then INotIn else IIn) r)"
| "grouped_here (EStringOp l op r _) = (joins l (string_op op) \<and> takes (string_op op) r)"
| "grouped_here (ERegexMatch l r _) = (joins l IRegexMatch \<and> takes IRegexMatch r)"
| "grouped_here (EParenthesized e _) = ((case e of EVar _ _ \<Rightarrow> True | _ \<Rightarrow> False) \<or> not_node (TLParen # expr_tokens e))"
| "grouped_here _ = False"

function grouped :: "('s, 'f) expr \<Rightarrow> bool" where
  "grouped e = (grouped_here e \<and> (\<forall>x\<in>expr_parts e. grouped x))"
  by pat_completeness simp

termination grouped
  by (relation "{(x, y). x \<in> expr_parts y}") (simp_all add: wf_expr_parts)

declare grouped.simps [simp del]

section \<open>What may follow\<close>

definition calm :: "'f tok list \<Rightarrow> bool" where
  "calm toks \<longleftrightarrow> (case drop (2 * length (dotted_segments toks)) toks of [] \<Rightarrow> True | t # _ \<Rightarrow> t \<noteq> TLParen)"

definition follows :: "('s, 'f) expr \<Rightarrow> 'f tok list \<Rightarrow> bool" where
  "follows e toks \<longleftrightarrow> calm toks \<and>
     (case toks of
        [] \<Rightarrow> True
      | t # _ \<Rightarrow> (case map_of infix_table t of None \<Rightarrow> True | Some op \<Rightarrow> precedence op < fst (right_edge e)) \<and>
          (is_relationship_start (Some t) \<longrightarrow> \<not> snd (right_edge e)))"

text \<open>A token that ends an operand in every position.\<close>

definition closer :: "'f tok \<Rightarrow> bool" where
  "closer t \<longleftrightarrow> map_of infix_table t = None \<and> \<not> is_relationship_start (Some t) \<and> t \<noteq> TLParen"

lemma calm_plain: "t \<noteq> TLParen \<Longrightarrow> t \<noteq> TDot \<Longrightarrow> calm (t # toks)"
  by (cases toks) (auto simp: calm_def split: option.split)

lemma calm_dot: "calm (TDot # TIdent k # toks) \<longleftrightarrow> calm toks"
  by (simp add: calm_def ident_of_def)

lemma infix_table_ops:
  "map_of infix_table t = Some op \<longleftrightarrow> t = op_token op"
  "map_of infix_table (op_token op) = Some op"
  by (cases op; simp add: infix_table_def op_token_def; fail)+

lemma follows_closer: "closer t \<Longrightarrow> follows e (t # toks)"
  by (auto simp: follows_def closer_def infix_table_def intro!: calm_plain)

end
