(* ===== verification/Expr_Climb.thy ===== *)
theory Expr_Climb
  imports Expr_Print
begin

text \<open>
  The loop of \<open>parse_expr_inner\<close> on the tokens of an expression: \<open>climbs\<close> is what the loop keeps for an
  expression, from its operands to the whole, and it holds for the operands that begin with a name or a literal.
\<close>

section \<open>Climbing the binding powers\<close>

abbreviation plain :: "'f exp \<Rightarrow> (unit, 'f) expr" where
  "plain \<equiv> map_expr (\<lambda>_. ()) id"

definition infix_step :: "'f grammar \<Rightarrow> nat \<Rightarrow> 'f exp \<Rightarrow> ('f, 'f exp + 'f exp) parser" where
  "infix_step G min_bp = (\<lambda>lhs.
     seeing peek_infix_op (\<lambda>t. case t of
       None \<Rightarrow> ret (Inr lhs)
     | Some op \<Rightarrow> (case infix_binding_power op of (l_bp, r_bp) \<Rightarrow>
         if l_bp < min_bp then ret (Inr lhs)
         else bindp (parse_infix G lhs op r_bp) (\<lambda>lhs. ret (Inl lhs)))))"

lemma infix_loop_steps: "parse_infix_loop G min_bp = loop (infix_step G min_bp)"
  by (simp add: parse_infix_loop_def infix_step_def)

text \<open>
  The invariant of the loop: when the tokens of an expression are ahead, the parser gets to the loop that has the
  expression as its left side, with the tokens that follow ahead.
\<close>

definition enters :: "'f grammar \<Rightarrow> nat \<Rightarrow> 'f token_stream \<Rightarrow> parse_error + 'f exp \<times> 'f token_stream \<Rightarrow> bool" where
  "enters G bp ts r \<longleftrightarrow> (\<exists>lhs ts1 k. parse_prefix G ts = Some (Inr (lhs, ts1)) \<and> ts_tokens ts1 = ts_tokens ts \<and>
     k \<le> length (ahead ts) + 1 \<and> iterate k (infix_step G bp) lhs ts1 = Some r)"

definition climbs :: "'f fmt_text \<Rightarrow> (unit, 'f) expr \<Rightarrow> bool" where
  "climbs fmt e \<longleftrightarrow> (\<forall>n ts rest. ahead ts = expr_tokens e @ rest \<longrightarrow> follows e rest \<longrightarrow> length (expr_tokens e) \<le> n \<longrightarrow>
     (\<exists>e'. plain e' = e \<and>
       (\<forall>bp k r. bp \<le> left_edge e \<longrightarrow> k \<le> length rest + 1 \<longrightarrow>
          iterate k (infix_step (nested_grammar fmt n) bp) e' (skip (length (expr_tokens e)) ts) = Some r \<longrightarrow>
          enters (nested_grammar fmt n) bp ts r)))"

lemma climbs_prefix:
  assumes "\<And>n ts rest. ahead ts = expr_tokens e @ rest \<Longrightarrow> follows e rest \<Longrightarrow> length (expr_tokens e) \<le> n \<Longrightarrow>
      yields (parse_prefix (nested_grammar fmt n)) ts (length (expr_tokens e)) (\<lambda>e'. plain e' = e)"
  shows "climbs fmt e"
  unfolding climbs_def
proof (intro allI impI)
  fix n and ts :: "'a token_stream" and rest
  assume a: "ahead ts = expr_tokens e @ rest" "follows e rest" "length (expr_tokens e) \<le> n"
  from assms [OF this] obtain e' where e': "parse_prefix (nested_grammar fmt n) ts = Some (Inr (e', skip (length (expr_tokens e)) ts))" "plain e' = e"
    by (auto simp: yields_def)
  have "enters (nested_grammar fmt n) bp ts r" if "k \<le> length rest + 1" "iterate k (infix_step (nested_grammar fmt n) bp) e' (skip (length (expr_tokens e)) ts) = Some r" for bp k r
    unfolding enters_def using e'(1) that a(1) by (intro exI [of _ e'] exI [of _ "skip (length (expr_tokens e)) ts"] exI [of _ k]) simp
  with e'(2) show "\<exists>e'. plain e' = e \<and> (\<forall>bp k r. bp \<le> left_edge e \<longrightarrow> k \<le> length rest + 1 \<longrightarrow>
      iterate k (infix_step (nested_grammar fmt n) bp) e' (skip (length (expr_tokens e)) ts) = Some r \<longrightarrow>
      enters (nested_grammar fmt n) bp ts r)"
    by (intro exI [of _ e']) simp
qed

lemma step_infix:
  assumes "ahead ts = op_token op # toks" "bp \<le> precedence op" "parse_infix G lhs op (Suc (precedence op)) ts = Some (Inr (e', ts'))"
  shows "infix_step G bp lhs ts = Some (Inr (Inl e', ts'))"
  using assms by (simp add: infix_powers infix_step_def seeing_def peek_infix_op_def peek_ahead infix_table_ops bindp_def ret_def)

lemma climbs_infix:
  assumes l: "climbs fmt l" and toks: "expr_tokens e = expr_tokens l @ op_token op # tail" and edge: "left_edge e = min (precedence op) (left_edge l)"
    and fol: "\<And>rest. follows e rest \<Longrightarrow> follows l (op_token op # tail @ rest)"
    and right: "\<And>n ts rest l'. ahead ts = op_token op # tail @ rest \<Longrightarrow> follows e rest \<Longrightarrow> length tail < n \<Longrightarrow> plain l' = l \<Longrightarrow>
      yields (parse_infix (nested_grammar fmt n) l' op (Suc (precedence op))) ts (Suc (length tail)) (\<lambda>e'. plain e' = e)"
  shows "climbs fmt e"
  unfolding climbs_def
proof (intro allI impI)
  fix n and ts :: "'a token_stream" and rest
  let ?G = "nested_grammar fmt n" and ?ts1 = "skip (length (expr_tokens l)) ts" and ?ts2 = "skip (length (expr_tokens e)) ts"
  assume a: "ahead ts = expr_tokens e @ rest" "follows e rest" "length (expr_tokens e) \<le> n"
  from l [unfolded climbs_def, rule_format, of ts "op_token op # tail @ rest" n] a toks fol
  obtain l' where l': "plain l' = l" and climb: "\<And>bp k r. bp \<le> left_edge l \<Longrightarrow> k \<le> length (op_token op # tail @ rest) + 1 \<Longrightarrow>
      iterate k (infix_step ?G bp) l' ?ts1 = Some r \<Longrightarrow> enters ?G bp ts r"
    by auto
  have t1: "ahead ?ts1 = op_token op # tail @ rest" using a(1) toks by simp
  from right [OF t1 a(2) _ l', of n] a(3) toks obtain e' where e': "parse_infix ?G l' op (Suc (precedence op)) ?ts1 = Some (Inr (e', ?ts2))" "plain e' = e"
    by (auto simp: yields_def)
  have "enters ?G bp ts r"
    if "bp \<le> left_edge e" "k \<le> length rest + 1" "iterate k (infix_step ?G bp) e' ?ts2 = Some r" for bp k r
  proof (rule climb)
    show "bp \<le> left_edge l" "Suc k \<le> length (op_token op # tail @ rest) + 1" using that edge by simp_all
    have "infix_step ?G bp l' ?ts1 = Some (Inr (Inl e', ?ts2))" by (rule step_infix [OF t1 _ e'(1)]) (use that(1) edge in simp)
    with that(3) show "iterate (Suc k) (infix_step ?G bp) l' ?ts1 = Some r" by (simp add: bindp_def)
  qed
  with e'(2) show "\<exists>e'. plain e' = e \<and> (\<forall>bp k r. bp \<le> left_edge e \<longrightarrow> k \<le> length rest + 1 \<longrightarrow>
      iterate k (infix_step ?G bp) e' ?ts2 = Some r \<longrightarrow>
      enters ?G bp ts r)"
    by (intro exI [of _ e']) simp
qed

text \<open>An operand is read exactly when the operator after it does not bind as tight as asked for.\<close>

definition stops :: "nat \<Rightarrow> 'f tok list \<Rightarrow> bool" where
  "stops bp toks \<longleftrightarrow> (case toks of [] \<Rightarrow> True | t # _ \<Rightarrow> (case map_of infix_table t of None \<Rightarrow> True | Some op \<Rightarrow> precedence op < bp))"

lemma peek_infix_ahead: "peek_infix_op ts = (case ahead ts of [] \<Rightarrow> None | t # _ \<Rightarrow> map_of infix_table t)"
  by (simp add: peek_infix_op_def peek_ahead split: list.split)

lemma step_stops:
  assumes "stops bp (ahead ts)"
  shows "infix_step G bp e ts = Some (Inr (Inr e, ts))"
proof (cases "peek_infix_op ts")
  case None
  then show ?thesis by (simp add: infix_step_def seeing_def ret_def)
next
  case (Some op)
  with assms have "precedence op < bp" by (simp add: peek_infix_ahead stops_def split: list.splits)
  with Some show ?thesis by (simp add: infix_powers infix_step_def seeing_def ret_def)
qed

lemma climbs_reads:
  assumes c: "climbs fmt e" and a: "ahead ts = expr_tokens e @ rest" "follows e rest" "length (expr_tokens e) \<le> n" and b: "bp \<le> left_edge e" "stops bp rest"
  shows "yields (parse_expr_inner (nested_grammar fmt n) bp) ts (length (expr_tokens e)) (\<lambda>e'. plain e' = e)"
proof -
  let ?G = "nested_grammar fmt n" and ?ts2 = "skip (length (expr_tokens e)) ts"
  from c [unfolded climbs_def, rule_format, OF a] b(1) obtain e' where e': "plain e' = e" and climb: "\<And>k r. k \<le> length rest + 1 \<Longrightarrow> iterate k (infix_step ?G bp) e' ?ts2 = Some r \<Longrightarrow>
      enters ?G bp ts r"
    by auto
  have "ahead ?ts2 = rest" using a(1) by simp
  with b(2) have "infix_step ?G bp e' ?ts2 = Some (Inr (Inr e', ?ts2))"
    by (intro step_stops) simp
  then have "iterate 1 (infix_step ?G bp) e' ?ts2 = Some (Inr (e', ?ts2))" by (simp add: bindp_def ret_def)
  from climb [OF _ this] obtain lhs ts1 k where p: "parse_prefix ?G ts = Some (Inr (lhs, ts1))" "ts_tokens ts1 = ts_tokens ts"
      "k \<le> length (ahead ts) + 1" "iterate k (infix_step ?G bp) lhs ts1 = Some (Inr (e', ?ts2))"
    by (auto simp: enters_def)
  have "k \<le> length (ts_tokens ts1) + 1" using p(2,3) ahead_length [of ts] by simp
  from iterate_more [OF p(4) this] have "parse_infix_loop ?G bp lhs ts1 = Some (Inr (e', ?ts2))" unfolding infix_loop_steps loop_def .
  with p(1) e' show ?thesis by (simp add: yields_def parse_expr_inner_def bindp_def)
qed

lemma g_expr_nested: "g_expr (nested_grammar fmt (Suc n)) = parse_expr_inner (nested_grammar fmt n)"
  by (simp add: Let_def)

lemma reads_right:
  assumes "climbs fmt e" "ahead ts = expr_tokens e @ rest" "follows e rest" "bp \<le> left_edge e" "stops bp rest" "length (expr_tokens e) < n"
  shows "\<exists>e'. g_expr (nested_grammar fmt n) bp ts = Some (Inr (e', skip (length (expr_tokens e)) ts)) \<and> plain e' = e"
proof -
  from assms(6) obtain m where m: "n = Suc m" "length (expr_tokens e) \<le> m" by (cases n) auto
  from climbs_reads [OF assms(1,2,3) m(2) assms(4,5)] show ?thesis unfolding m(1) g_expr_nested yields_def .
qed

lemma reads_operand:
  assumes "climbs fmt e" "ahead ts = expr_tokens e @ t # toks" "closer t" "length (expr_tokens e) < n"
  shows "\<exists>e'. g_expr (nested_grammar fmt n) 0 ts = Some (Inr (e', skip (length (expr_tokens e)) ts)) \<and> plain e' = e"
  by (rule reads_right [OF assms(1,2) follows_closer [OF assms(3)] _ _ assms(4)]) (use assms(3) in \<open>simp_all add: stops_def closer_def\<close>)

lemma prefix_eval: "ahead ts = tok # toks \<Longrightarrow> parse_prefix G ts = parse_prefix_tok G tok (ts_current_pos ts) ts"
  by (simp add: parse_prefix_def seeing_def peek_eval)

section \<open>Lists of operands\<close>

lemma plain_all2: "list_all2 (\<lambda>e e'. plain e' = e) es es' \<longleftrightarrow> map plain es' = es"
  by (auto simp: list_all2_conv_all_nth intro: nth_equalityI)

lemma item_tokens_le: "x \<in> set xs \<Longrightarrow> length x < length (item_tokens sep xs)"
  by (induction xs) auto

lemma comma_tokens_le: "x \<in> set xs \<Longrightarrow> length x \<le> length (comma_tokens xs)"
  by (cases xs) (auto dest: item_tokens_le [where sep = TComma])

lemma closer_simps [simp]:
  "closer TComma" "closer TRParen" "closer TRBracket" "closer TRBrace" "closer TPipe" "closer (TKeyword TWhere)" "closer (TKeyword TThen)"
  "closer (TKeyword TWhen)" "closer (TKeyword TElse)" "closer (TKeyword TEnd)"
  by (simp_all add: closer_def infix_table_def is_relationship_start_def)

lemma yields_comma:
  assumes item: "\<And>x ts toks. x \<in> set xs \<Longrightarrow> ahead ts = g x @ toks \<Longrightarrow> (\<exists>t r. toks = t # r \<and> (t = TComma \<or> stop t)) \<Longrightarrow> yields item ts (length (g x)) (R x)"
    and a: "ahead ts = comma_tokens (map g xs) @ t # toks" and t: "stop t" "t \<noteq> TComma" and ne: "xs \<noteq> []"
  shows "yields (comma_separated item) ts (length (comma_tokens (map g xs))) (list_all2 R xs)"
proof -
  from ne obtain x ys where xs: "xs = x # ys" by (cases xs) auto
  show ?thesis unfolding comma_separated_def
  proof (rule yields_bind)
    show "yields item ts (length (g x)) (R x)"
      by (rule item [where toks = "item_tokens TComma (map g ys) @ t # toks"]) (use a t xs in \<open>cases ys; simp\<close>)+
    show "yields (while_eat TComma item [y]) (skip (length (g x)) ts) (length (item_tokens TComma (map g ys))) (list_all2 R xs)" if "R x y" for y
      by (rule yields_mono, rule yields_while_eat [where g = g and R = R and xs = ys and stop = stop and t = t and toks = toks, OF item])
        (use a t xs that in auto)
  qed (simp add: xs)
qed

lemma reads_list:
  assumes "\<And>e. e \<in> set es \<Longrightarrow> climbs fmt e" "ahead ts = comma_tokens (map expr_tokens es) @ t # toks" "closer t" "t \<noteq> TComma" "es \<noteq> []"
    "length (comma_tokens (map expr_tokens es)) < n"
  shows "\<exists>es'. comma_separated (g_expr (nested_grammar fmt n) 0) ts = Some (Inr (es', skip (length (comma_tokens (map expr_tokens es))) ts)) \<and> map plain es' = es"
proof -
  have "yields (comma_separated (g_expr (nested_grammar fmt n) 0)) ts (length (comma_tokens (map expr_tokens es))) (list_all2 (\<lambda>e e'. plain e' = e) es)"
  proof (rule yields_comma [where g = expr_tokens and stop = closer])
    fix x and ts :: "'a token_stream" and toks
    assume x: "x \<in> set es" "ahead ts = expr_tokens x @ toks" "\<exists>t r. toks = t # r \<and> (t = TComma \<or> closer t)"
    then have "length (expr_tokens x) < n" using comma_tokens_le [of "expr_tokens x" "map expr_tokens es"] assms(6) by simp
    with x show "yields (g_expr (nested_grammar fmt n) 0) ts (length (expr_tokens x)) (\<lambda>e'. plain e' = x)"
      using reads_operand [OF assms(1) [OF x(1)]] by (auto simp: yields_def)
  qed (use assms in auto)
  then show ?thesis by (auto simp: yields_def plain_all2)
qed

section \<open>Operands of one token\<close>

lemma yields_prefix:
  assumes "ahead ts = tok # toks" "parse_prefix_tok G tok (ts_current_pos ts) ts = Some (Inr (x, skip n ts))" "P x"
  shows "yields (parse_prefix G) ts n P"
  using assms by (auto simp: yields_def prefix_eval)

lemma climbs_literal: "grouped_here (ELiteral l) \<Longrightarrow> climbs fmt (ELiteral l)"
  by (rule climbs_prefix, cases l)
    (force simp: yields_def prefix_eval parse_prefix_tok_def parse_prefix_keyword_def parse_literal_def parse_negation_def eval_simps expr_to_i64_def
      negate_i64_magnitude_def peek_int_def int_of_def split: if_splits)+

lemma climbs_param: "climbs fmt (EParam name s)"
  by (rule climbs_prefix) (simp add: yields_def prefix_eval parse_prefix_tok_def parse_literal_def eval_simps)

section \<open>Variables and calls\<close>

lemma calm_tokens:
  assumes "calm (ahead ts)"
  shows "ahead ts = [] \<or> hd (ahead ts) \<noteq> TLParen" "namespaced_call_segments name ts = None"
proof -
  show "ahead ts = [] \<or> hd (ahead ts) \<noteq> TLParen"
  proof (cases "ahead ts")
    case (Cons t toks)
    then show ?thesis using assms by (cases toks) (auto simp: calm_def split: option.splits)
  qed simp
  let ?k = "2 * length (dotted_segments (ahead ts))"
  have "\<not> (?k < length (ahead ts) \<and> ahead ts ! ?k = TLParen)"
    using assms by (auto simp: calm_def Cons_nth_drop_Suc [symmetric])
  then show "namespaced_call_segments name ts = None"
    by (simp add: namespaced_call_segments_def ahead_def [symmetric] peek_n_ahead Let_def)
qed

lemma climbs_var: "climbs fmt (EVar name s)"
proof (rule climbs_prefix)
  fix n and ts :: "'a token_stream" and rest
  assume a: "ahead ts = expr_tokens (EVar name s) @ rest" "follows (EVar name s) rest"
  then have "calm (ahead (skip 1 ts))" by (simp add: follows_def)
  from calm_tokens [OF this] a(1) show "yields (parse_prefix (nested_grammar fmt n)) ts (length (expr_tokens (EVar name s))) (\<lambda>e'. plain e' = EVar name s)"
    by (simp add: yields_def prefix_eval parse_prefix_tok_def parse_identifier_def eval_simps)
qed

lemma advance_n_eval: "k \<le> length (ahead ts) \<Longrightarrow> ts_advance_n k ts = Some (Inr ((), skip k ts))"
proof (induction k arbitrary: ts)
  case (Suc k)
  then have "ahead ts \<noteq> []" by auto
  with Suc show ?case by (simp add: bindp_def advance_eval)
qed (simp add: ret_def)

definition starter :: "'f tok \<Rightarrow> bool" where
  "starter t \<longleftrightarrow> (case t of TKeyword kw \<Rightarrow> kw \<in> {TTrue, TFalse, TNull, TNot, TCase, TAll, TAny, TNone, TSingle}
     | TIntLit _ \<Rightarrow> True | TFloatLit _ \<Rightarrow> True | TStrLit _ \<Rightarrow> True | TParam _ \<Rightarrow> True | TIdent _ \<Rightarrow> True
     | TMinus \<Rightarrow> True | TLParen \<Rightarrow> True | TLBracket \<Rightarrow> True | TLBrace \<Rightarrow> True | _ \<Rightarrow> False)"

lemma quantifier_toks: "quantifier_of (quantifier_tok k) = k" "quantifier_tok k \<in> {TAll, TAny, TNone, TSingle}"
  by (cases k; simp add: quantifier_of_def)+

lemma expr_starts: "grouped e \<Longrightarrow> \<exists>t toks. expr_tokens e = t # toks \<and> starter t"
proof (induction e rule: wf_induct_rule [OF wf_expr_parts])
  case (1 e)
  then have g: "grouped_here e" "\<And>x. x \<in> expr_parts e \<Longrightarrow> \<exists>t toks. expr_tokens x = t # toks \<and> starter t"
    by (auto simp: grouped.simps [of e])
  show ?case
  proof (cases "infix_parts e")
    case (Some p)
    then obtain l op r where p: "infix_parts e = Some (l, op, r)" by (cases p) auto
    with g(2) infix_parts_parts obtain t toks where "expr_tokens l = t # toks" "starter t" by blast
    moreover obtain toks' where "expr_tokens e = expr_tokens l @ toks'" using p by (cases e rule: infix_parts.cases) auto
    ultimately show ?thesis by simp
  next
    case None
    with g(1) show ?thesis
      using quantifier_toks(2) by (cases e) (auto simp: starter_def neq_Nil_conv split: literal.splits unary_op_kind.splits elim: infix_parts.elims)
  qed
qed

lemma dotted_name: "dotted_segments (item_tokens TDot (map (\<lambda>n. [TIdent n]) ns) @ TLParen # r) = ns"
proof (induction ns)
  case Nil
  show ?case by (cases r) (simp_all split: option.split)
qed (simp add: ident_of_def)

lemma name_length: "length (item_tokens TDot (map (\<lambda>n. [TIdent n]) ns)) = 2 * length ns"
  by (induction ns) simp_all

lemma first_argument:
  assumes "grouped (hd es)" "es \<noteq> []"
  obtains t toks where "comma_tokens (map expr_tokens es) = t # toks" "starter t"
  using assms expr_starts by (cases es) fastforce+

lemma call_args:
  assumes es: "\<And>e. e \<in> set es \<Longrightarrow> climbs fmt e \<and> grouped e" and star: "star \<longrightarrow> es = [] \<and> \<not> dist"
    and toks: "toks = (if star then [TStar] else (if dist then [TKeyword TDistinct] else []) @ comma_tokens (map expr_tokens es)) @ [TRParen]"
    and a: "ahead ts = toks @ rest" "length toks \<le> n"
  shows "\<exists>e'. parse_function_call_args (nested_grammar fmt n) name start ts = Some (Inr (e', skip (length toks) ts)) \<and> plain e' = EFunctionCall name dist star es ()"
proof (cases "star \<or> es = []")
  case True
  with star toks a show ?thesis by (auto simp: parse_function_call_args_def eval_simps)
next
  case False
  let ?d = "if dist then [TKeyword TDistinct] else [] :: 'a tok list" and ?c = "comma_tokens (map expr_tokens es)"
  have c: "ahead (skip (length ?d) ts) = ?c @ TRParen # rest" using a(1) toks False by simp
  have len: "length ?c < n" using a(2) toks False by simp
  have "\<exists>es'. comma_separated (g_expr (nested_grammar fmt n) 0) (skip (length ?d) ts) = Some (Inr (es', skip (length ?c) (skip (length ?d) ts))) \<and> map plain es' = es"
    by (rule reads_list [OF _ c _ _ _ len]) (use es False in simp_all)
  then obtain es' where es': "comma_separated (g_expr (nested_grammar fmt n) 0) (skip (length ?d) ts) = Some (Inr (es', skip (length ?c) (skip (length ?d) ts)))" "map plain es' = es"
    by blast
  from es False have "grouped (hd es)" by simp
  from first_argument [OF this] False obtain t u where u: "?c = t # u" "starter t" by blast
  then have t: "t \<noteq> TStar" "t \<noteq> TRParen" "t \<noteq> TKeyword TDistinct" by (auto simp: starter_def)
  have close: "ahead (skip (length ?d + length ?c) ts) = TRParen # rest" using arg_cong [OF c, of "drop (length ?c)"] by (cases dist) simp_all
  have len: "length toks = Suc (length ?d + length ?c)" using toks False by simp
  show ?thesis
  proof (cases dist)
    case True
    with a(1) toks False c t u(1) es' close len show ?thesis by (simp add: parse_function_call_args_def eval_simps)
  next
    case False
    with a(1) toks \<open>\<not> (star \<or> es = [])\<close> c t u(1) es' close len show ?thesis by (simp add: parse_function_call_args_def eval_simps)
  qed
qed

lemma climbs_call:
  assumes es: "\<And>e. e \<in> set es \<Longrightarrow> climbs fmt e \<and> grouped e" and g: "grouped_here (EFunctionCall name dist star es s)"
  shows "climbs fmt (EFunctionCall name dist star es s)"
proof (rule climbs_prefix)
  fix n and ts :: "'a token_stream" and rest
  let ?e = "EFunctionCall name dist star es s"
  let ?args = "(if star then [TStar] else (if dist then [TKeyword TDistinct] else []) @ comma_tokens (map expr_tokens es)) @ [TRParen]"
  assume a: "ahead ts = expr_tokens ?e @ rest" "length (expr_tokens ?e) \<le> n"
  from g obtain first ns where name: "name = first # ns" by (cases name) simp_all
  let ?k = "Suc (Suc (2 * length ns))"
  have len: "length (expr_tokens ?e) = ?k + length ?args" by (simp add: name name_length)
  have dots: "ahead (skip 1 ts) = item_tokens TDot (map (\<lambda>n. [TIdent n]) ns) @ TLParen # ?args @ rest" using a(1) name by simp
  have "ahead (skip ?k ts) = ?args @ rest"
    using arg_cong [OF dots, of "drop (Suc (2 * length ns))"] by (simp add: name_length)
  from call_args [OF es _ refl this, of n name "ts_current_pos ts"] g a(2) len obtain e'
    where e': "parse_function_call_args (nested_grammar fmt n) name (ts_current_pos ts) (skip ?k ts) = Some (Inr (e', skip (length (expr_tokens ?e)) ts))" "plain e' = ?e"
    by auto
  show "yields (parse_prefix (nested_grammar fmt n)) ts (length (expr_tokens ?e)) (\<lambda>e'. plain e' = ?e)"
  proof (rule yields_prefix)
    show "ahead ts = TIdent first # item_tokens TDot (map (\<lambda>n. [TIdent n]) ns) @ TLParen # ?args @ rest" using a(1) name by simp
    have "parse_identifier (nested_grammar fmt n) first (ts_current_pos ts) ts = parse_function_call_args (nested_grammar fmt n) name (ts_current_pos ts) (skip ?k ts)"
    proof (cases ns)
      case Nil
      with a(1) name show ?thesis by (simp add: parse_identifier_def eval_simps)
    next
      case (Cons m ms)
      let ?ts = "skip 1 ts"
      have "namespaced_call_segments first ?ts = Some name"
        unfolding namespaced_call_segments_def ahead_def [symmetric] dots dotted_name Let_def peek_n_ahead
        using Cons name by (simp add: name_length nth_append)
      moreover have "ts_advance_n (2 * (length name - 1)) ?ts = Some (Inr ((), skip (Suc (2 * length ns)) ts))"
        by (subst advance_n_eval) (unfold dots, simp_all add: name name_length)
      moreover have "ahead (skip (Suc (2 * length ns)) ts) = TLParen # ?args @ rest"
        using arg_cong [OF dots, of "drop (2 * length ns)"] by (simp add: name_length)
      moreover have "ahead ts \<noteq> []" "ahead ?ts \<noteq> []" "hd (ahead ?ts) = TDot" unfolding dots using Cons a(1) name by auto
      ultimately show ?thesis by (simp add: parse_identifier_def eval_simps)
    qed
    with e'(1) show "parse_prefix_tok (nested_grammar fmt n) (TIdent first) (ts_current_pos ts) ts = Some (Inr (e', skip (length (expr_tokens ?e)) ts))"
      by (simp add: parse_prefix_tok_def)
  qed (rule e'(2))
qed

end
