(* ===== verification/Expr_Forms.thy ===== *)
theory Expr_Forms
  imports Expr_Climb
begin

text \<open>
  The other forms of expressions: prefix and infix operators, lists, comprehensions, quantifiers, cases and maps, with the
  attempts of the parser at a pattern that come to nothing; and the induction over all of them.
\<close>

section \<open>Prefix operators, lists and maps\<close>

lemma follows_prefix:
  assumes "prefix_part e = Some (m, x)" "follows e rest" "infix_parts e = None"
  shows "follows x rest" "stops m rest"
  using assms by (auto simp: follows_def stops_def right_edge.simps [of e] case_prod_beta split: list.splits option.splits)

lemma climbs_not:
  assumes "climbs fmt e" "grouped_here (EUnaryOp UNot e s)"
  shows "climbs fmt (EUnaryOp UNot e s)"
proof (rule climbs_prefix)
  fix n and ts :: "'a token_stream" and rest
  let ?e = "EUnaryOp UNot e s"
  assume a: "ahead ts = expr_tokens ?e @ rest" "follows ?e rest" "length (expr_tokens ?e) \<le> n"
  have "\<exists>e'. g_expr (nested_grammar fmt n) 35 (skip 1 ts) = Some (Inr (e', skip (length (expr_tokens e)) (skip 1 ts))) \<and> plain e' = e"
    by (rule reads_right [OF assms(1)]) (use a assms(2) follows_prefix [of ?e 35 e rest] in simp_all)
  then show "yields (parse_prefix (nested_grammar fmt n)) ts (length (expr_tokens ?e)) (\<lambda>e'. plain e' = ?e)"
    using a(1) by (auto simp: yields_def prefix_eval parse_prefix_tok_def parse_prefix_keyword_def eval_simps)
qed

lemma climbs_neg:
  assumes "climbs fmt e" "grouped_here (EUnaryOp UNeg e s)" "grouped e"
  shows "climbs fmt (EUnaryOp UNeg e s)"
proof (rule climbs_prefix)
  fix n and ts :: "'a token_stream" and rest
  let ?e = "EUnaryOp UNeg e s"
  assume a: "ahead ts = expr_tokens ?e @ rest" "follows ?e rest" "length (expr_tokens ?e) \<le> n"
  have "\<exists>e'. g_expr (nested_grammar fmt n) 75 (skip 1 ts) = Some (Inr (e', skip (length (expr_tokens e)) (skip 1 ts))) \<and> plain e' = e"
    by (rule reads_right [OF assms(1)]) (use a assms(2) follows_prefix [of ?e 75 e rest] in simp_all)
  moreover have "peek_int (skip 1 ts) = None" using a(1) assms(2) expr_starts [OF assms(3)] by (auto simp: peek_int_def peek_eval)
  ultimately show "yields (parse_prefix (nested_grammar fmt n)) ts (length (expr_tokens ?e)) (\<lambda>e'. plain e' = ?e)"
    using a(1) by (auto simp: yields_def prefix_eval parse_prefix_tok_def parse_negation_def eval_simps)
qed

text \<open>The attempts at a pattern come to nothing.\<close>

lemma node_fails:
  assumes "not_node (ahead ts)"
  shows "\<exists>e. parse_node_pattern_inner G ts = Some (Inl e)"
proof -
  obtain p u where p: "ahead ts = p # u" using assms by (cases "ahead ts") (simp_all add: not_node_def)
  show ?thesis
  proof (cases "p = TLParen")
    case False
    with p eat_fail_eval [of ts TLParen "g_fmt G"] show ?thesis by (auto simp: parse_node_pattern_inner_def seeing_def bindp_def)
  next
    case True
    with assms p obtain a v where u: "u = a # v" by (cases u) (simp_all add: not_node_def)
    let ?ts = "if ident_of a = None then skip 1 ts else skip 2 ts"
    have "opt_var G (skip 1 ts) = Some (Inr (ident_of a, ?ts))"
      using p u True by (cases "ident_of a") (simp_all add: opt_var_def peek_ident_def pattern_eat_ident_def eval_simps numeral_2_eq_2)
    moreover have h: "ahead ?ts \<noteq> []" "hd (ahead ?ts) \<notin> {TColon, TLBrace, TRParen}"
      using assms p u True by (auto simp: not_node_def split: option.splits list.splits)
    moreover have "while_eat TColon (pattern_eat_label_name G) [] ?ts = Some (Inr ([], ?ts))"
      using h by (simp add: while_eat_def loop_def bindp_def eat_if_eval ret_def)
    moreover have "opt_properties G ?ts = Some (Inr (None, ?ts))" using h by (simp add: opt_properties_def eval_simps)
    moreover obtain e where "ts_eat (g_fmt G) TRParen ?ts = Some (Inl e)" using eat_fail_eval [of ?ts TRParen] h by auto
    ultimately show ?thesis using p True by (simp add: parse_node_pattern_inner_def eval_simps del: if_split)
  qed
qed

lemma no_pattern_comprehension:
  assumes "plain_element (ahead ts) \<or> (\<exists>x u. ahead ts = TIdent x # TKeyword TIn # u)"
  shows "try_parse_pattern_comprehension G start ts = Some (Inr (None, ts))"
proof (cases "peek_ident 0 ts \<noteq> None \<and> ts_peek_n 1 ts = Some TEq")
  case True
  then obtain x u where u: "ahead ts = TIdent x # TEq # u"
    by (cases "ahead ts"; cases "tl (ahead ts)") (auto simp: peek_ident_def peek_n_ahead token_contents split: if_splits)
  with assms have "not_node (ahead (skip 2 ts))" by (simp add: plain_element_def ident_of_def numeral_2_eq_2)
  from node_fails [OF this] obtain e where "parse_node_pattern_inner G (skip 2 ts) = Some (Inl e)" by blast
  with True u show ?thesis
    by (auto simp: try_parse_pattern_comprehension_def on_clone_def seeing_def bindp_def ret_def advance_eval numeral_2_eq_2)
next
  case False
  with assms have "not_node (ahead ts)"
    by (cases "ahead ts"; cases "tl (ahead ts)")
      (auto simp: plain_element_def peek_ident_def peek_n_ahead not_node_def split: if_splits)
  from node_fails [OF this] obtain e where "parse_node_pattern_inner G ts = Some (Inl e)" by blast
  with False show ?thesis
    by (auto simp: try_parse_pattern_comprehension_def on_clone_def seeing_def bindp_def ret_def)
qed

lemma not_node_append: "not_node toks \<Longrightarrow> not_node (toks @ r)"
  by (auto simp: not_node_def split: list.splits option.splits)

lemma plain_element_append:
  assumes "plain_element toks" "closer t"
  shows "plain_element (toks @ t # r)" "at_var_in ts \<Longrightarrow> ahead ts \<noteq> toks @ t # r"
proof -
  have t: "t \<noteq> TEq" "t \<noteq> TKeyword TIn" using assms(2) by (auto simp: closer_def infix_table_def)
  show "plain_element (toks @ t # r)"
  proof (cases "\<exists>a b u. toks = a # b # u")
    case True
    with assms(1) show ?thesis by (auto simp: plain_element_def intro: not_node_append not_node_append [of "_ # _ # _", simplified] split: if_splits)
  next
    case False
    then obtain a where "toks = [] \<or> toks = [a]" by (metis list.exhaust)
    with assms(1) t show ?thesis by (auto simp: plain_element_def not_node_def)
  qed
  then show "at_var_in ts \<Longrightarrow> ahead ts \<noteq> toks @ t # r"
    using t assms(1) by (cases toks; cases "tl toks") (auto simp: plain_element_def not_node_def at_var_in_def peek_ident_def peek_n_ahead)
qed

lemma first_operand:
  assumes "es \<noteq> []" "closer t"
  shows "\<exists>t' u. comma_tokens (map expr_tokens es) @ t # r = expr_tokens (hd es) @ t' # u \<and> closer t'"
proof -
  from assms(1) obtain e fs where es: "es = e # fs" by (cases es) auto
  show ?thesis by (cases fs) (use es assms(2) in auto)
qed

lemma climbs_list:
  assumes es: "\<And>e. e \<in> set es \<Longrightarrow> climbs fmt e \<and> grouped e" and g: "grouped_here (EList es s)"
  shows "climbs fmt (EList es s)"
proof (rule climbs_prefix)
  fix n and ts :: "'a token_stream" and rest
  let ?e = "EList es s" and ?c = "comma_tokens (map expr_tokens es)"
  assume a: "ahead ts = expr_tokens ?e @ rest" "length (expr_tokens ?e) \<le> n"
  then have c: "ahead (skip 1 ts) = ?c @ TRBracket # rest" and len: "length ?c < n" by simp_all
  show "yields (parse_prefix (nested_grammar fmt n)) ts (length (expr_tokens ?e)) (\<lambda>e'. plain e' = ?e)"
  proof (cases "es = []")
    case True
    with a(1) show ?thesis by (simp add: yields_def prefix_eval parse_prefix_tok_def parse_list_or_comprehension_def eval_simps)
  next
    case False
    have "\<exists>es'. comma_separated (g_expr (nested_grammar fmt n) 0) (skip 1 ts) = Some (Inr (es', skip (length ?c) (skip 1 ts))) \<and> map plain es' = es"
      by (rule reads_list [OF _ c _ _ _ len]) (use es False in simp_all)
    then obtain es' where es': "comma_separated (g_expr (nested_grammar fmt n) 0) (skip 1 ts) = Some (Inr (es', skip (length ?c) (skip 1 ts)))" "map plain es' = es"
      by blast
    obtain t u where u: "ahead (skip 1 ts) = expr_tokens (hd es) @ t # u" "closer t" using first_operand [OF False, of TRBracket rest] c by auto
    have pe: "plain_element (expr_tokens (hd es))" using g False by simp
    have p: "plain_element (ahead (skip 1 ts))" unfolding u(1) by (rule plain_element_append [OF pe u(2)])
    have "\<not> at_var_in (skip 1 ts)" using plain_element_append(2) [OF pe u(2)] u(1) by blast
    moreover obtain h v where "expr_tokens (hd es) = h # v" "starter h" using expr_starts es False by (metis hd_in_set)
    then have "hd (ahead (skip 1 ts)) \<noteq> TRBracket" "ahead (skip 1 ts) \<noteq> []" using u(1) by (auto simp: starter_def)
    ultimately show ?thesis using a(1) es' no_pattern_comprehension [OF disjI1 [OF p]]
      by (simp add: yields_def prefix_eval parse_prefix_tok_def parse_list_or_comprehension_def eval_simps)
  qed
qed

section \<open>Operators between operands\<close>

lemma op_tokens: "op_token op \<noteq> TLParen" "op_token op = TDot \<longleftrightarrow> op = IDot" "is_relationship_start (Some (op_token op)) \<longleftrightarrow> op = ISub"
  by (cases op; simp add: op_token_def infix_table_def is_relationship_start_def; fail)+

lemma follows_joins: "joins l op \<Longrightarrow> op \<noteq> IDot \<Longrightarrow> follows l (op_token op # toks)"
  by (simp add: follows_def joins_def infix_table_ops op_tokens calm_plain)

lemma op_token_names: "op_token IDot = TDot" "op_token ILabelPredicate = TColon"
  by (simp_all add: op_token_def infix_table_def)

lemma follows_dot: "joins l IDot \<Longrightarrow> calm rest \<Longrightarrow> follows l (TDot # TIdent k # rest)"
  by (simp add: follows_def joins_def calm_dot infix_table_def is_relationship_start_def)

lemma follows_right:
  assumes "infix_parts e = Some (l, op, Some r)" "follows e rest"
  shows "follows r rest" "stops (Suc (precedence op)) rest"
  using assms by (auto simp: follows_def stops_def right_edge.simps [of e] case_prod_beta split: list.splits option.splits)

lemma reads_infix_right:
  assumes "climbs fmt r" "infix_parts e = Some (l, op, Some r)" "takes op r"
    and "ahead ts = tok # expr_tokens r @ rest" "follows e rest" "length (expr_tokens r) < n"
  shows "\<exists>r'. g_expr (nested_grammar fmt n) (Suc (precedence op)) (skip 1 ts) = Some (Inr (r', skip (length (expr_tokens r)) (skip 1 ts))) \<and> plain r' = r"
  by (rule reads_right [OF assms(1)]) (use assms follows_right [OF assms(2,5)] in \<open>simp_all add: takes_def\<close>)

lemma climbs_between:
  assumes l: "climbs fmt l" and r: "climbs fmt r" and e: "infix_parts e = Some (l, op, Some r)" "joins l op" "takes op r" "op \<noteq> IDot"
    and toks: "expr_tokens e = expr_tokens l @ op_token op # expr_tokens r"
    and build: "\<And>n ts l' r' ts'. plain l' = l \<Longrightarrow> plain r' = r \<Longrightarrow> ahead ts \<noteq> [] \<Longrightarrow>
      g_expr (nested_grammar fmt n) (Suc (precedence op)) (skip 1 ts) = Some (Inr (r', ts')) \<Longrightarrow>
      \<exists>e'. parse_infix (nested_grammar fmt n) l' op (Suc (precedence op)) ts = Some (Inr (e', ts')) \<and> plain e' = e"
  shows "climbs fmt e"
proof (rule climbs_infix [OF l toks])
  show "left_edge e = min (precedence op) (left_edge l)" using e(1) by (simp add: left_edge.simps [of e])
  show "follows l (op_token op # expr_tokens r @ rest)" for rest by (rule follows_joins [OF e(2,4)])
  fix n and ts :: "'a token_stream" and rest l'
  assume a: "ahead ts = op_token op # expr_tokens r @ rest" "follows e rest" "length (expr_tokens r) < n" "plain l' = l"
  from reads_infix_right [OF r e(1,3) a(1-3)] obtain r'
    where r': "g_expr (nested_grammar fmt n) (Suc (precedence op)) (skip 1 ts) = Some (Inr (r', skip (Suc (length (expr_tokens r))) ts))" "plain r' = r" by auto
  from build [OF a(4) r'(2) _ r'(1)] a(1) show "yields (parse_infix (nested_grammar fmt n) l' op (Suc (precedence op))) ts (Suc (length (expr_tokens r))) (\<lambda>e'. plain e' = e)"
    by (simp add: yields_def)
qed

lemma kind_ops:
  assumes "kind_op kind = Some op"
  shows "infix_op_to_binary_kind op = Some kind" "op \<noteq> IDot" "op \<in> {IEq, INeq, ILt, ILte, IGt, IGte} \<longleftrightarrow> kind \<in> {BEq, BNeq, BLt, BLte, BGt, BGte}"
    "op \<in> {IEq, INeq, ILt, ILte, IGt, IGte} \<Longrightarrow> precedence op = 40"
  using assms by (cases kind; simp add: kind_op_def binary_table_def infix_op_to_binary_kind_def; fastforce)+

text \<open>A comparison to the left of a comparison would be a chain.\<close>

lemma no_chain:
  assumes "plain l' = l" "joins l op" "kind_op kind = Some op" "kind \<in> {BEq, BNeq, BLt, BLte, BGt, BGte} \<longrightarrow> \<not> is_comparison l"
  shows "comparison_chain_tail l' op = None"
proof (cases "op \<in> {IEq, INeq, ILt, ILte, IGt, IGte}")
  case True
  with assms kind_ops [OF assms(3)] have l: "\<not> is_comparison l" "40 < fst (right_edge l)" by (auto simp: joins_def)
  show ?thesis
  proof (cases l')
    case (EBinaryOp k a b s)
    with assms(1) have "l = EBinaryOp k (plain a) (plain b) ()" by auto
    with l EBinaryOp show ?thesis
      by (cases k) (auto simp: comparison_chain_tail_def right_edge.simps [of "EBinaryOp _ _ _ _"] kind_op_def binary_table_def case_prod_beta)
  qed (simp_all add: comparison_chain_tail_def)
qed (simp add: comparison_chain_tail_def)

lemma climbs_binary:
  assumes "climbs fmt l" "climbs fmt r" "grouped_here (EBinaryOp kind l r s)"
  shows "climbs fmt (EBinaryOp kind l r s)"
proof -
  from assms(3) obtain op where op: "kind_op kind = Some op" "joins l op" "takes op r" "kind \<in> {BEq, BNeq, BLt, BLte, BGt, BGte} \<longrightarrow> \<not> is_comparison l"
    by (auto split: option.splits)
  show ?thesis
  proof (rule climbs_between [OF assms(1,2) _ op(2,3) kind_ops(2) [OF op(1)]])
    fix n and ts ts' :: "'a token_stream" and l' r'
    assume a: "plain l' = l" "plain r' = r" "ahead ts \<noteq> []" "g_expr (nested_grammar fmt n) (Suc (precedence op)) (skip 1 ts) = Some (Inr (r', ts'))"
    with no_chain [OF a(1) op(2,1,4)] kind_ops(1) [OF op(1)]
    show "\<exists>e'. parse_infix (nested_grammar fmt n) l' op (Suc (precedence op)) ts = Some (Inr (e', ts')) \<and> plain e' = EBinaryOp kind l r s"
      by (simp add: parse_infix_def parse_binary_def Let_def eval_simps)
  qed (simp_all add: op(1))
qed

lemma climbs_predicates:
  assumes "climbs fmt l" "climbs fmt r"
  shows "grouped_here (EInList l r neg s) \<Longrightarrow> climbs fmt (EInList l r neg s)" "grouped_here (EStringOp l k r s) \<Longrightarrow> climbs fmt (EStringOp l k r s)"
    "grouped_here (ERegexMatch l r s) \<Longrightarrow> climbs fmt (ERegexMatch l r s)"
proof -
  show "climbs fmt (EInList l r neg s)" if "grouped_here (EInList l r neg s)"
    by (rule climbs_between [OF assms, where op = "if neg then INotIn else IIn"])
      (use that in \<open>auto simp: parse_infix_def infix_op_to_binary_kind_def binary_table_def parse_operand_def eval_simps\<close>)
  show "climbs fmt (EStringOp l k r s)" if "grouped_here (EStringOp l k r s)"
    by (rule climbs_between [OF assms, where op = "string_op k"]; cases k)
      (use that in \<open>auto simp: parse_infix_def infix_op_to_binary_kind_def binary_table_def parse_operand_def eval_simps\<close>)
  show "climbs fmt (ERegexMatch l r s)" if "grouped_here (ERegexMatch l r s)"
    by (rule climbs_between [OF assms, where op = IRegexMatch])
      (use that in \<open>auto simp: parse_infix_def infix_op_to_binary_kind_def binary_table_def parse_operand_def eval_simps\<close>)
qed

lemma eat_ident_eval: "ahead ts = TIdent k # toks \<Longrightarrow> eat_ident_with_span G ts = Some (Inr ((k, here ts), skip 1 ts))"
  by (simp add: eat_ident_with_span_def eval_simps ident_of_def)

lemma climbs_property:
  assumes "climbs fmt (pa_object q)" "grouped_here (EProperty q)"
  shows "climbs fmt (EProperty q)"
proof (cases q)
  case (PropertyAccess l k s)
  show ?thesis unfolding PropertyAccess
  proof (rule climbs_infix [where l = l and op = IDot and tail = "[TIdent k]"])
    show "follows l (op_token IDot # [TIdent k] @ rest)" if "follows (EProperty (PropertyAccess l k s)) rest" for rest
      using that assms(2) PropertyAccess by (auto simp: op_token_names follows_def [of "EProperty _"] intro: follows_dot)
    fix n and ts :: "'a token_stream" and rest l'
    assume a: "ahead ts = op_token IDot # [TIdent k] @ rest" "plain l' = l"
    then show "yields (parse_infix (nested_grammar fmt n) l' IDot (Suc (precedence IDot))) ts (Suc (length [TIdent k])) (\<lambda>e'. plain e' = EProperty (PropertyAccess l k s))"
      by (simp add: yields_def parse_infix_def infix_op_to_binary_kind_def binary_table_def parse_property_def eat_ident_def eval_simps eat_ident_eval)
  qed (use assms PropertyAccess in \<open>simp_all add: op_token_names left_edge.simps [of "EProperty _"]\<close>)
qed

lemma climbs_null:
  assumes "climbs fmt l" "grouped_here (EIsNull l neg s)"
  shows "climbs fmt (EIsNull l neg s)"
proof (rule climbs_infix [OF assms(1), where op = "if neg then IIsNotNull else IIsNull" and tail = "[]"])
  let ?op = "if neg then IIsNotNull else IIsNull"
  show "follows l (op_token ?op # [] @ rest)" for rest by (rule follows_joins) (use assms(2) in simp_all)
  show "yields (parse_infix (nested_grammar fmt n) l' ?op (Suc (precedence ?op))) ts (Suc (length [])) (\<lambda>e'. plain e' = EIsNull l neg s)"
    if "ahead ts = op_token ?op # [] @ rest" "plain l' = l" for n l' and ts :: "'a token_stream" and rest
    using that by (auto simp: yields_def parse_infix_def infix_op_to_binary_kind_def binary_table_def parse_null_predicate_def eval_simps)
qed (simp_all add: left_edge.simps [of "EIsNull _ _ _"])

lemma climbs_label_step:
  assumes l: "climbs fmt l" "l = EVar x u \<and> ls = [] \<or> l = ELabelPredicate x ls u"
  shows "climbs fmt (ELabelPredicate x (ls @ [k]) s)"
proof (rule climbs_infix [OF l(1), where op = ILabelPredicate and tail = "[TIdent k]"])
  show "follows l (op_token ILabelPredicate # [TIdent k] @ rest)" for rest
    by (rule follows_joins) (use l(2) in \<open>auto simp: joins_def right_edge.simps [of l]\<close>)
  show "yields (parse_infix (nested_grammar fmt n) l' ILabelPredicate (Suc (precedence ILabelPredicate))) ts (Suc (length [TIdent k])) (\<lambda>e'. plain e' = ELabelPredicate x (ls @ [k]) s)"
    if "ahead ts = op_token ILabelPredicate # [TIdent k] @ rest" "plain l' = l" for n l' and ts :: "'a token_stream" and rest
    using that l(2) by (cases l')
      (auto simp: yields_def parse_infix_def infix_op_to_binary_kind_def binary_table_def parse_label_predicate_def eat_ident_def eval_simps eat_ident_eval)
qed (use l(2) in \<open>auto simp: op_token_names left_edge.simps item_tokens_def\<close>)

lemma climbs_labels: "ls \<noteq> [] \<Longrightarrow> climbs fmt (ELabelPredicate x ls s)"
proof (induction ls rule: rev_induct)
  case (snoc k ls)
  show ?case by (cases "ls = []") (use snoc climbs_var climbs_label_step in blast)+
qed simp

section \<open>Parentheses, comprehensions and cases\<close>

lemma no_pattern_predicate:
  assumes "not_node (ahead ts) \<or> (\<exists>x rest. ahead ts = TLParen # TIdent x # TRParen # rest \<and> (rest = [] \<or> \<not> is_relationship_start (Some (hd rest))))"
  shows "try_parse_pattern_predicate G start ts = Some (Inr (None, ts))"
  using assms
proof
  assume "not_node (ahead ts)"
  from node_fails [OF this, of G] obtain e where "parse_node_pattern_inner G ts = Some (Inl e)" ..
  then show ?thesis by (simp add: try_parse_pattern_predicate_def on_clone_def bindp_def ret_def)
next
  assume "\<exists>x rest. ahead ts = TLParen # TIdent x # TRParen # rest \<and> (rest = [] \<or> \<not> is_relationship_start (Some (hd rest)))"
  then obtain x rest where a: "ahead ts = TLParen # TIdent x # TRParen # rest" "rest = [] \<or> \<not> is_relationship_start (Some (hd rest))" by blast
  then have w: "while_eat TColon (pattern_eat_label_name G) [] (skip 2 ts) = Some (Inr ([], skip 2 ts))"
    by (simp add: while_eat_def loop_def bindp_def eat_if_eval ret_def numeral_2_eq_2)
  have "\<exists>node. parse_node_pattern_inner G ts = Some (Inr (node, skip 3 ts))"
    using a(1) w by (simp add: parse_node_pattern_inner_def opt_var_def opt_properties_def pattern_eat_ident_def peek_ident_def ident_of_def eval_simps numeral_2_eq_2 numeral_3_eq_3 case_prod_beta)
  then obtain node where "parse_node_pattern_inner G ts = Some (Inr (node, skip 3 ts))" ..
  moreover have "\<not> is_relationship_start (ts_peek (skip 3 ts))"
    using a by (cases rest) (simp_all add: peek_ahead numeral_3_eq_3 is_relationship_start_def)
  ultimately show ?thesis by (simp add: try_parse_pattern_predicate_def on_clone_def bindp_def ret_def seeing_def)
qed

lemma climbs_parenthesized:
  assumes "climbs fmt e" "grouped_here (EParenthesized e s)"
  shows "climbs fmt (EParenthesized e s)"
proof (rule climbs_prefix)
  fix n and ts :: "'a token_stream" and rest
  let ?e = "EParenthesized e s"
  assume a: "ahead ts = expr_tokens ?e @ rest" "follows ?e rest" "length (expr_tokens ?e) \<le> n"
  have "\<exists>e'. g_expr (nested_grammar fmt n) 0 (skip 1 ts) = Some (Inr (e', skip (length (expr_tokens e)) (skip 1 ts))) \<and> plain e' = e"
    by (rule reads_operand [OF assms(1), where t = TRParen and toks = rest]) (use a in simp_all)
  moreover have "try_parse_pattern_predicate (nested_grammar fmt n) (ts_current_pos ts) ts = Some (Inr (None, ts))"
  proof (rule no_pattern_predicate, cases "\<exists>x u. e = EVar x u")
    case True
    with a show "not_node (ahead ts) \<or> (\<exists>x rest. ahead ts = TLParen # TIdent x # TRParen # rest \<and> (rest = [] \<or> \<not> is_relationship_start (Some (hd rest))))"
      by (cases rest) (auto simp: follows_def right_edge.simps [of "EParenthesized _ _"])
  next
    case False
    with assms(2) have "not_node (TLParen # expr_tokens e)" by (auto split: expr.splits)
    from not_node_append [OF this, of "TRParen # rest"] a(1) show "not_node (ahead ts) \<or> (\<exists>x rest. ahead ts = TLParen # TIdent x # TRParen # rest \<and> (rest = [] \<or> \<not> is_relationship_start (Some (hd rest))))"
      by simp
  qed
  ultimately show "yields (parse_prefix (nested_grammar fmt n)) ts (length (expr_tokens ?e)) (\<lambda>e'. plain e' = ?e)"
    using a(1) by (auto simp: yields_def prefix_eval parse_prefix_tok_def parse_parenthesized_def eval_simps)
qed

lemma reads_opt:
  assumes "\<And>e. x = Some e \<Longrightarrow> climbs fmt e" "ahead ts = opt_tokens tok expr_tokens x @ t # r" "closer t" "t \<noteq> tok" "length (opt_tokens tok expr_tokens x) \<le> n"
  shows "\<exists>x'. opt_after (nested_grammar fmt n) tok ts = Some (Inr (x', skip (length (opt_tokens tok expr_tokens x)) ts)) \<and> map_option plain x' = x"
proof (cases x)
  case None
  with assms show ?thesis by (auto simp: opt_after_def opt_tokens_def eval_simps)
next
  case (Some e)
  have "\<exists>e'. g_expr (nested_grammar fmt n) 0 (skip 1 ts) = Some (Inr (e', skip (length (expr_tokens e)) (skip 1 ts))) \<and> plain e' = e"
    by (rule reads_operand [OF assms(1) [OF Some] _ assms(3), where toks = r]) (use assms Some in \<open>simp_all add: opt_tokens_def\<close>)
  with Some assms(2) show ?thesis by (auto simp: opt_after_def opt_tokens_def eval_simps)
qed

lemma climbs_comprehension:
  assumes "climbs fmt list" "\<And>e. flt = Some e \<Longrightarrow> climbs fmt e" "\<And>e. proj = Some e \<Longrightarrow> climbs fmt e"
  shows "climbs fmt (EListComprehension var list flt proj s)"
proof (rule climbs_prefix)
  fix n and ts :: "'a token_stream" and rest
  let ?e = "EListComprehension var list flt proj s" and ?l = "expr_tokens list" and ?f = "opt_tokens (TKeyword TWhere) expr_tokens flt" and ?p = "opt_tokens TPipe expr_tokens proj"
  let ?G = "nested_grammar fmt n"
  assume a: "ahead ts = expr_tokens ?e @ rest" "follows ?e rest" "length (expr_tokens ?e) \<le> n"
  define k where "k = hd (?f @ ?p @ [TRBracket])"
  have k: "closer k" "?f @ ?p @ TRBracket # rest = k # tl (?f @ ?p @ TRBracket # rest)" by (auto simp: k_def opt_tokens_def split: option.splits)
  have "\<exists>e'. g_expr ?G 0 (skip 3 ts) = Some (Inr (e', skip (length ?l) (skip 3 ts))) \<and> plain e' = list"
    by (rule reads_operand [OF assms(1) _ k(1)]) (use a k(2) in \<open>simp_all add: numeral_3_eq_3\<close>)
  then obtain l' where l': "g_expr ?G 0 (skip 3 ts) = Some (Inr (l', skip (3 + length ?l) ts))" "plain l' = list" by auto
  define m where "m = hd (?p @ [TRBracket])"
  have m: "closer m" "m \<noteq> TKeyword TWhere" "?p @ TRBracket # rest = m # tl (?p @ TRBracket # rest)" by (auto simp: m_def opt_tokens_def split: option.splits)
  have "\<exists>x'. opt_after ?G (TKeyword TWhere) (skip (3 + length ?l) ts) = Some (Inr (x', skip (length ?f) (skip (3 + length ?l) ts))) \<and> map_option plain x' = flt"
    by (rule reads_opt [OF assms(2) _ m(1,2)]) (use a m(3) in \<open>simp_all add: numeral_3_eq_3\<close>)
  then obtain f' where f': "opt_after ?G (TKeyword TWhere) (skip (3 + length ?l) ts) = Some (Inr (f', skip (3 + length ?l + length ?f) ts))" "map_option plain f' = flt" by auto
  have "\<exists>x'. opt_after ?G TPipe (skip (3 + length ?l + length ?f) ts) = Some (Inr (x', skip (length ?p) (skip (3 + length ?l + length ?f) ts))) \<and> map_option plain x' = proj"
    by (rule reads_opt [OF assms(3), where t = TRBracket and r = rest]) (use a in \<open>simp_all add: numeral_3_eq_3\<close>)
  then obtain p' where p': "opt_after ?G TPipe (skip (3 + length ?l + length ?f) ts) = Some (Inr (p', skip (3 + length ?l + length ?f + length ?p) ts))" "map_option plain p' = proj" by auto
  have "at_var_in (skip 1 ts)" "peek_ident 0 (skip 1 ts) = Some var" using a(1) by (simp_all add: at_var_in_def peek_ident_def peek_eval ident_of_def)
  moreover have "try_parse_pattern_comprehension ?G (ts_current_pos ts) (skip 1 ts) = Some (Inr (None, skip 1 ts))"
    by (rule no_pattern_comprehension) (use a(1) in simp)
  ultimately show "yields (parse_prefix ?G) ts (length (expr_tokens ?e)) (\<lambda>e'. plain e' = ?e)"
    using a(1) l' f' p' by (simp add: yields_def prefix_eval parse_prefix_tok_def parse_list_or_comprehension_def eval_simps numeral_3_eq_3 algebra_simps)
qed

lemma climbs_quantifier:
  assumes "climbs fmt list" "climbs fmt pred"
  shows "climbs fmt (EQuantifier kind var list pred s)"
proof (rule climbs_prefix)
  fix n and ts :: "'a token_stream" and rest
  let ?e = "EQuantifier kind var list pred s" and ?l = "expr_tokens list" and ?p = "expr_tokens pred" and ?G = "nested_grammar fmt n"
  assume a: "ahead ts = expr_tokens ?e @ rest" "follows ?e rest" "length (expr_tokens ?e) \<le> n"
  have "\<exists>e'. g_expr ?G 0 (skip 4 ts) = Some (Inr (e', skip (length ?l) (skip 4 ts))) \<and> plain e' = list"
    by (rule reads_operand [OF assms(1), where t = "TKeyword TWhere" and toks = "?p @ TRParen # rest"]) (use a in \<open>simp_all add: eval_nat_numeral\<close>)
  then obtain l' where l': "g_expr ?G 0 (skip 4 ts) = Some (Inr (l', skip (4 + length ?l) ts))" "plain l' = list" by auto
  have "\<exists>e'. g_expr ?G 0 (skip (5 + length ?l) ts) = Some (Inr (e', skip (length ?p) (skip (5 + length ?l) ts))) \<and> plain e' = pred"
    by (rule reads_operand [OF assms(2), where t = TRParen and toks = rest]) (use a in \<open>simp_all add: eval_nat_numeral\<close>)
  then obtain p' where p': "g_expr ?G 0 (skip (5 + length ?l) ts) = Some (Inr (p', skip (5 + length ?l + length ?p) ts))" "plain p' = pred" by auto
  have "at_var_in (skip 2 ts)" "peek_ident 0 (skip 2 ts) = Some var" using a(1) by (simp_all add: at_var_in_def peek_ident_def peek_eval ident_of_def eval_nat_numeral)
  moreover have "quantifier_tok kind \<in> {TAll, TAny, TNone, TSingle}" "quantifier_tok kind \<notin> {TTrue, TFalse, TNull}" using quantifier_toks(2) [of kind] by auto
  ultimately show "yields (parse_prefix ?G) ts (length (expr_tokens ?e)) (\<lambda>e'. plain e' = ?e)"
    using a(1) l' p' by (simp add: yields_def prefix_eval parse_prefix_tok_def parse_prefix_keyword_def parse_quantifier_or_call_def parse_quantifier_def quantifier_toks(1)
      eval_simps eval_nat_numeral)
qed

abbreviation when_tokens :: "(unit, (unit, 'f) expr) when_clause \<Rightarrow> 'f tok list" where
  "when_tokens w \<equiv> expr_tokens (wn_condition w) @ TKeyword TThen # expr_tokens (wn_result w)"

abbreviation plain_when :: "(span, 'f exp) when_clause \<Rightarrow> (unit, (unit, 'f) expr) when_clause" where
  "plain_when \<equiv> map_when_clause (\<lambda>_. ()) plain"

lemma reads_when:
  assumes w: "climbs fmt (wn_condition w)" "climbs fmt (wn_result w)" and a: "ahead ts = when_tokens w @ t # r" "closer t" "length (when_tokens w) \<le> n"
  shows "yields (parse_when_clause (nested_grammar fmt n)) ts (length (when_tokens w)) (\<lambda>w'. plain_when w' = w)"
proof -
  let ?G = "nested_grammar fmt n" and ?c = "expr_tokens (wn_condition w)" and ?r = "expr_tokens (wn_result w)"
  have "\<exists>e'. g_expr ?G 0 ts = Some (Inr (e', skip (length ?c) ts)) \<and> plain e' = wn_condition w"
    by (rule reads_operand [OF w(1), where t = "TKeyword TThen" and toks = "?r @ t # r"]) (use a in simp_all)
  moreover have "\<exists>e'. g_expr ?G 0 (skip (Suc (length ?c)) ts) = Some (Inr (e', skip (length ?r) (skip (Suc (length ?c)) ts))) \<and> plain e' = wn_result w"
    by (rule reads_operand [OF w(2) _ a(2), where toks = r]) (use a in simp_all)
  ultimately show ?thesis using a(1) by (cases w) (auto simp: yields_def parse_when_clause_def eval_simps)
qed

lemma reads_whens:
  assumes w: "\<And>w. w \<in> set ws \<Longrightarrow> climbs fmt (wn_condition w) \<and> climbs fmt (wn_result w)"
    and a: "ahead ts = item_tokens (TKeyword TWhen) (map when_tokens ws) @ t # r" "closer t" "t \<noteq> TKeyword TWhen" "length (item_tokens (TKeyword TWhen) (map when_tokens ws)) \<le> n"
  shows "\<exists>ws'. while_eat (TKeyword TWhen) (parse_when_clause (nested_grammar fmt n)) [] ts = Some (Inr (ws', skip (length (item_tokens (TKeyword TWhen) (map when_tokens ws))) ts))
    \<and> map plain_when ws' = ws"
proof -
  let ?G = "nested_grammar fmt n" and ?toks = "item_tokens (TKeyword TWhen) (map when_tokens ws)"
  have "yields (while_eat (TKeyword TWhen) (parse_when_clause ?G) []) ts (length ?toks) (\<lambda>ys. \<exists>zs. ys = [] @ zs \<and> list_all2 (\<lambda>w w'. plain_when w' = w) ws zs)"
  proof (rule yields_while_eat [where stop = closer])
    fix x and ts :: "'a token_stream" and toks
    assume x: "x \<in> set ws" "ahead ts = when_tokens x @ toks" "\<exists>t r. toks = t # r \<and> (t = TKeyword TWhen \<or> closer t)"
    have "length (when_tokens x) < length ?toks" by (rule item_tokens_le) (use x(1) in simp)
    then show "yields (parse_when_clause ?G) ts (length (when_tokens x)) (\<lambda>w'. plain_when w' = x)"
      using x w a(4) reads_when [of fmt x ts] by fastforce
  qed (use a in auto)
  moreover have "map plain_when zs = ws" if "list_all2 (\<lambda>w w'. plain_when w' = w) ws zs" for zs
    using that by (auto simp: list_all2_conv_all_nth intro: nth_equalityI)
  ultimately show ?thesis by (auto simp: yields_def)
qed

lemma climbs_case:
  assumes subj: "\<And>e. subject = Some e \<Longrightarrow> climbs fmt e \<and> grouped e" and whens: "\<And>w. w \<in> set ws \<Longrightarrow> climbs fmt (wn_condition w) \<and> climbs fmt (wn_result w)"
    and els: "\<And>e. els = Some e \<Longrightarrow> climbs fmt e" and g: "grouped_here (ECase subject ws els s)"
  shows "climbs fmt (ECase subject ws els s)"
proof (rule climbs_prefix)
  fix n and ts :: "'a token_stream" and rest
  let ?e = "ECase subject ws els s"
  define sub where "sub = (case map_option expr_tokens subject of None \<Rightarrow> [] | Some t \<Rightarrow> t)"
  let ?w = "item_tokens (TKeyword TWhen) (map when_tokens ws)" and ?l = "opt_tokens (TKeyword TElse) expr_tokens els" and ?G = "nested_grammar fmt n"
  assume a: "ahead ts = expr_tokens ?e @ rest" "follows ?e rest" "length (expr_tokens ?e) \<le> n"
  have a1: "ahead (skip 1 ts) = sub @ ?w @ ?l @ TKeyword TEnd # rest" and len: "length sub + length ?w + length ?l < n" using a(1,3) by (simp_all add: sub_def)
  define k where "k = hd (?l @ [TKeyword TEnd])"
  have k: "closer k" "k \<noteq> TKeyword TWhen" "?l @ TKeyword TEnd # rest = k # tl (?l @ TKeyword TEnd # rest)" by (auto simp: k_def opt_tokens_def split: option.splits)
  define m where "m = hd (?w @ [k])"
  have m: "closer m" "?w @ ?l @ TKeyword TEnd # rest = m # tl (?w @ ?l @ TKeyword TEnd # rest)" using k by (cases ws; simp add: m_def)+
  have s: "\<exists>x'. (if ts_at (TKeyword TWhen) (skip 1 ts) then ret None else bindp (g_expr ?G 0) (\<lambda>e. ret (Some e))) (skip 1 ts) = Some (Inr (x', skip (Suc (length sub)) ts)) \<and> map_option plain x' = subject"
  proof (cases subject)
    case None
    with g a1 show ?thesis by (cases ws) (auto simp: sub_def peek_eval ret_def)
  next
    case (Some e)
    have "\<exists>e'. g_expr ?G 0 (skip 1 ts) = Some (Inr (e', skip (length (expr_tokens e)) (skip 1 ts))) \<and> plain e' = e"
      by (rule reads_operand [OF _ _ m(1)]) (use subj Some a1 len m(2) in \<open>simp_all add: sub_def\<close>)
    moreover have "\<not> ts_at (TKeyword TWhen) (skip 1 ts)" using a1 Some expr_starts [of e] subj by (auto simp: sub_def peek_eval starter_def)
    ultimately show ?thesis using Some by (auto simp: sub_def bindp_def ret_def)
  qed
  have a2: "ahead (skip (Suc (length sub)) ts) = ?w @ k # tl (?l @ TKeyword TEnd # rest)" using arg_cong [OF a1, of "drop (length sub)"] k(3) by simp
  have w: "\<exists>ws'. while_eat (TKeyword TWhen) (parse_when_clause ?G) [] (skip (Suc (length sub)) ts) = Some (Inr (ws', skip (length ?w) (skip (Suc (length sub)) ts))) \<and> map plain_when ws' = ws"
    by (rule reads_whens [OF whens a2 k(1,2)]) (use len in simp_all)
  have a3: "ahead (skip (Suc (length sub + length ?w)) ts) = ?l @ TKeyword TEnd # rest" using arg_cong [OF a1, of "drop (length sub + length ?w)"] by simp
  have l: "\<exists>x'. opt_after ?G (TKeyword TElse) (skip (Suc (length sub + length ?w)) ts) = Some (Inr (x', skip (length ?l) (skip (Suc (length sub + length ?w)) ts))) \<and> map_option plain x' = els"
    by (rule reads_opt [OF els a3]) (use len in simp_all)
  have "ahead (skip (Suc (length sub + length ?w + length ?l)) ts) = TKeyword TEnd # rest" using arg_cong [OF a1, of "drop (length sub + length ?w + length ?l)"] by simp
  moreover have "length (expr_tokens ?e) = Suc (Suc (length sub + length ?w + length ?l))" by (simp add: sub_def)
  ultimately show "yields (parse_prefix ?G) ts (length (expr_tokens ?e)) (\<lambda>e'. plain e' = ?e)"
    using s w l a(1) by (auto simp: yields_def prefix_eval parse_prefix_tok_def parse_prefix_keyword_def parse_case_expr_def eval_simps add.assoc)
qed

section \<open>Maps\<close>

abbreviation entry_tokens :: "ustring \<times> (unit, 'f) expr \<Rightarrow> 'f tok list" where
  "entry_tokens entry \<equiv> TIdent (fst entry) # TColon # expr_tokens (snd entry)"

definition entry_step :: "'f grammar \<Rightarrow> (ustring \<times> 'f exp) list \<times> (ustring \<times> span) list \<Rightarrow>
    ('f, ((ustring \<times> 'f exp) list \<times> (ustring \<times> span) list) + ((ustring \<times> 'f exp) list \<times> (ustring \<times> span) list)) parser" where
  "entry_step G = (\<lambda>(entries, key_spans).
     bindp (eat_ident_with_span G) (\<lambda>(key, key_span).
     bindp (eat G TColon) (\<lambda>_.
     bindp (g_expr G 0) (\<lambda>val.
     if key \<in> fst ` set entries
     then fail_here (g_fmt G) (lit ''duplicate key '' @ [39] @ key @ [39] @ lit '' in map literal'')
     else
       bindp (ts_eat_if TComma) (\<lambda>more.
       if more then ret (Inl (entries @ [(key, val)], key_spans @ [(key, key_span)]))
       else ret (Inr (entries @ [(key, val)], key_spans @ [(key, key_span)])))))))"

lemma entry_steps: "parse_map_entries G = loop (entry_step G) ([], [])"
  by (simp add: parse_map_entries_def entry_step_def)

lemma one_entry:
  assumes "climbs fmt e" "ahead ts = TIdent k # TColon # expr_tokens e @ t # r" "closer t" "length (expr_tokens e) < n" "k \<notin> fst ` set acc"
  shows "\<exists>e' sp. plain e' = e \<and> entry_step (nested_grammar fmt n) (acc, ks) ts =
    Some (Inr (if t = TComma then (Inl (acc @ [(k, e')], ks @ [(k, sp)]), skip (Suc (Suc (Suc (length (expr_tokens e))))) ts)
      else (Inr (acc @ [(k, e')], ks @ [(k, sp)]), skip (Suc (Suc (length (expr_tokens e)))) ts)))"
proof -
  have "\<exists>e'. g_expr (nested_grammar fmt n) 0 (skip 2 ts) = Some (Inr (e', skip (length (expr_tokens e)) (skip 2 ts))) \<and> plain e' = e"
    by (rule reads_operand [OF assms(1) _ assms(3,4), where toks = r]) (use assms(2) in \<open>simp add: numeral_2_eq_2\<close>)
  with assms(2,5) show ?thesis by (auto simp: entry_step_def eval_simps eat_ident_eval numeral_2_eq_2)
qed

lemma entries_loop:
  assumes "\<And>x. x \<in> set es \<Longrightarrow> climbs fmt (snd x)" "ahead ts = comma_tokens (map entry_tokens es) @ TRBrace # r" "es \<noteq> []" "length (comma_tokens (map entry_tokens es)) < n"
    "distinct (map fst acc @ map fst es)"
  shows "\<exists>es' ks'. iterate (length es) (entry_step (nested_grammar fmt n)) (acc, ks) ts = Some (Inr ((acc @ es', ks @ ks'), skip (length (comma_tokens (map entry_tokens es))) ts))
    \<and> map (map_prod id plain) es' = es \<and> map fst ks' = map fst es"
  using assms
proof (induction es arbitrary: ts acc ks)
  case (Cons x es)
  obtain k e where x: "x = (k, e)" by (cases x)
  let ?G = "nested_grammar fmt n" and ?c = "comma_tokens (map entry_tokens es)"
  have le: "length (expr_tokens e) < n" "k \<notin> fst ` set acc" and e: "climbs fmt e" using Cons.prems Cons.prems(1) [of x] x by (auto simp del: split_paired_All)
  show ?case
  proof (cases "es = []")
    case True
    from one_entry [OF e _ _ le, where t = TRBrace and ts = ts and r = r and ks = ks] Cons.prems(2) True x obtain e' sp
      where "plain e' = e" "entry_step ?G (acc, ks) ts = Some (Inr (Inr (acc @ [(k, e')], ks @ [(k, sp)]), skip (Suc (Suc (length (expr_tokens e)))) ts))" by auto
    with True x show ?thesis by (intro exI [of _ "[(k, e')]"] exI [of _ "[(k, sp)]"]) (simp add: bindp_def ret_def id_def)
  next
    case False
    then have c: "comma_tokens (map entry_tokens (x # es)) = entry_tokens x @ TComma # ?c" by (cases es) simp_all
    let ?ts = "skip (Suc (Suc (Suc (length (expr_tokens e))))) ts"
    from one_entry [OF e _ _ le, where t = TComma and ts = ts and r = "?c @ TRBrace # r" and ks = ks] Cons.prems(2) c x obtain e' sp
      where e': "plain e' = e" "entry_step ?G (acc, ks) ts = Some (Inr (Inl (acc @ [(k, e')], ks @ [(k, sp)]), ?ts))" by auto
    have "\<exists>es' ks'. iterate (length es) (entry_step ?G) (acc @ [(k, e')], ks @ [(k, sp)]) ?ts = Some (Inr (((acc @ [(k, e')]) @ es', (ks @ [(k, sp)]) @ ks'), skip (length ?c) ?ts))
        \<and> map (map_prod id plain) es' = es \<and> map fst ks' = map fst es"
      by (rule Cons.IH) (use Cons.prems c x False in auto)
    then obtain es' ks' where "iterate (length es) (entry_step ?G) (acc @ [(k, e')], ks @ [(k, sp)]) ?ts = Some (Inr (((acc @ [(k, e')]) @ es', (ks @ [(k, sp)]) @ ks'), skip (length ?c) ?ts))"
        "map (map_prod id plain) es' = es" "map fst ks' = map fst es" by blast
    with e' x c show ?thesis by (intro exI [of _ "(k, e') # es'"] exI [of _ "(k, sp) # ks'"]) (simp add: bindp_def id_def)
  qed
qed simp

lemma climbs_map:
  assumes es: "\<And>x. x \<in> set es \<Longrightarrow> climbs fmt (snd x)" and g: "grouped_here (EMap es ks s)"
  shows "climbs fmt (EMap es ks s)"
proof (rule climbs_prefix)
  fix n and ts :: "'a token_stream" and rest
  let ?e = "EMap es ks s" and ?c = "comma_tokens (map entry_tokens es)" and ?G = "nested_grammar fmt n"
  assume a: "ahead ts = expr_tokens ?e @ rest" "follows ?e rest" "length (expr_tokens ?e) \<le> n"
  have keys: "map (map_prod id (\<lambda>_. ())) ks' = ks" if "map fst ks' = map fst es" for ks' :: "(ustring \<times> span) list"
    using that g by (intro nth_equalityI) (auto dest: map_eq_imp_length_eq simp: list_eq_iff_nth_eq prod_eq_iff)
  show "yields (parse_prefix ?G) ts (length (expr_tokens ?e)) (\<lambda>e'. plain e' = ?e)"
  proof (cases "es = []")
    case True
    with a(1) g show ?thesis by (simp add: yields_def prefix_eval parse_prefix_tok_def parse_map_literal_def eval_simps)
  next
    case False
    have a1: "ahead (skip 1 ts) = ?c @ TRBrace # rest" using a(1) by simp
    have "\<exists>es' ks'. iterate (length es) (entry_step ?G) ([], []) (skip 1 ts) = Some (Inr (([] @ es', [] @ ks'), skip (length ?c) (skip 1 ts)))
        \<and> map (map_prod id plain) es' = es \<and> map fst ks' = map fst es"
      by (rule entries_loop [OF es a1]) (use a(3) g False in simp_all)
    then obtain es' ks' where it: "iterate (length es) (entry_step ?G) ([], []) (skip 1 ts) = Some (Inr ((es', ks'), skip (Suc (length ?c)) ts))"
      "map (map_prod id plain) es' = es" "map fst ks' = map fst es" by auto
    have "length es \<le> length ?c" using False by (cases es) (auto simp: item_tokens_def length_concat comp_def sum_list_Suc)
    then have "parse_map_entries ?G (skip 1 ts) = Some (Inr ((es', ks'), skip (Suc (length ?c)) ts))"
      unfolding entry_steps by (intro iterate_loop [OF it(1)]) (use arg_cong [OF a1, of length] in simp)
    moreover have "hd (ahead (skip 1 ts)) \<noteq> TRBrace" using a1 False by (cases es) simp_all
    ultimately show ?thesis using a(1) a1 False it(2) keys [OF it(3)]
      by (simp add: yields_def prefix_eval parse_prefix_tok_def parse_map_literal_def eval_simps)
  qed
qed

section \<open>Every expression\<close>

lemma grouped_climbs: "grouped e \<Longrightarrow> climbs fmt e"
proof (induction e rule: wf_induct_rule [OF wf_expr_parts])
  case (1 e)
  then have g: "grouped_here e" and p: "\<And>x. x \<in> expr_parts e \<Longrightarrow> climbs fmt x \<and> grouped x" by (auto simp: grouped.simps [of e])
  show ?case
  proof (cases e)
    case (EProperty q)
    with p have "climbs fmt (pa_object q)" by (cases q) auto
    with EProperty g climbs_property show ?thesis by blast
  next
    case (EUnaryOp op x s)
    with g p climbs_not climbs_neg show ?thesis by (cases op) auto
  next
    case (ECase subject ws els s)
    show ?thesis unfolding ECase by (rule climbs_case) (use g p ECase in \<open>auto simp: when_clause_exprs\<close>)
  next
    case (EMap es ks s)
    show ?thesis unfolding EMap by (rule climbs_map) (use g p EMap in auto)
  next
    case (EListComprehension var list flt proj s)
    show ?thesis unfolding EListComprehension by (rule climbs_comprehension) (use p EListComprehension in auto)
  qed (use g p in \<open>auto intro: climbs_literal climbs_var climbs_param climbs_binary climbs_call climbs_list climbs_quantifier climbs_labels climbs_null climbs_predicates
    climbs_parenthesized simp del: grouped_here.simps(5) grouped_here.simps(7)\<close>)
qed

end
