(* ===== verification/Expr_Roundtrip.thy ===== *)
theory Expr_Roundtrip
  imports Expr_Forms
begin

text \<open>
  Printing and parsing of expressions: the text of an expression, as the item of a \<open>RETURN\<close> clause, is parsed to
  that expression.
\<close>

section \<open>Texts\<close>












section \<open>Properties\<close>







end
