(* ===== verification/Spec2Isabelle.thy ===== *)
theory Spec2Isabelle
  imports GF_Prelude Calendar Rust_Text Temporal_Text Temporal_Value Duration Canonical
    Ledger Status Cycle_Search Supersession Derivation Preference Topology Components
    Cypher_Lexer Lexer_Tokens Lexer_Print Cypher_Ast Token_Stream Parser_Patterns Parser_Exprs Parser_Clauses
    Ast_Facts Parser_Contract Pattern_Specs Expr_Specs Clause_Specs Cypher_Parser Read_Only
    Stream_Eval Expr_Print Expr_Climb Expr_Forms Expr_Roundtrip
begin

text \<open>
  \<^bold>\<open>A verification library for GraphForge.\<close> GraphForge is an embedded graph engine in Rust: Cypher queries are lowered to
  relational plans, graph algorithms run over an exported topology, and an append-only store keeps what is known about
  assertions and artifacts. The library models five of its parts as executable functions, in the order of the code, and
  proves the contracts they rely on.

  \<^bold>\<open>Parts and theories.\<close> Names of definitions are the names of the code; a prefix tells apart equal names of different
  types.

  \<^item> Cypher temporal values (\<open>crates/graphforge-rel/src\<close>). \<open>Calendar\<close> is \<open>calendar.rs\<close>: dates as day counts, with the
    civil, ordinal and ISO week views. \<open>Rust_Text\<close> holds the string functions of the standard library that are used.
    \<open>Temporal_Text\<close> and \<open>Temporal_Value\<close> are \<open>temporal.rs\<close>: parsing and rendering, then accessors, truncation,
    construction from maps, projection and conversion from the epoch. \<open>Duration\<close> is \<open>temporal/duration.rs\<close>:
    \<open>duration.between\<close> and its variants, addition and rendering.
  \<^item> Canonical encoding (\<open>crates/graphforge-core/src/canonical.rs\<close>). \<open>Canonical\<close> has the writer and the reader of the
    byte format, the preimage of fingerprints and the derived UUIDs.
  \<^item> Knowledge ledgers (\<open>crates/graphforge-knowledge/src\<close>). \<open>Ledger\<close> has the checks and loops the ledgers share and their
    contract; \<open>Status\<close> is \<open>status.rs\<close>, \<open>Supersession\<close> is \<open>supersession.rs\<close>, \<open>Derivation\<close> is \<open>derivation.rs\<close>,
    \<open>Preference\<close> is \<open>artifact_preference.rs\<close> and \<open>retention_dependency.rs\<close>. \<open>Cycle_Search\<close> has the depth-first
    searches of \<open>supersession.rs\<close> and \<open>derivation.rs\<close>. The ledgers call \<open>Canonical\<close> for their fingerprints.
  \<^item> Graph algorithms (\<open>crates/graphforge-exec/src\<close>). \<open>Topology\<close> is \<open>algorithm_graph/topology.rs\<close> with the row loop of
    \<open>export_topology\<close> in \<open>algorithm_graph.rs\<close>; \<open>Components\<close> is \<open>algorithm_cluster/components.rs\<close> and runs on the
    topology.

  \<^item> The Cypher front end (\<open>crates/graphforge-cypher/src\<close>, \<open>crates/graphforge-ast/src\<close>). \<open>Cypher_Lexer\<close> is \<open>lexer.rs\<close>,
    and \<open>Lexer_Tokens\<close> and \<open>Lexer_Print\<close> have its properties. \<open>Cypher_Ast\<close> is \<open>ast.rs\<close>. \<open>Token_Stream\<close> is \<open>parser/mod.rs\<close>
    with the combinators the parsers are written in; \<open>Parser_Patterns\<close>, \<open>Parser_Exprs\<close> and \<open>Parser_Clauses\<close> are the files
    of the same names under \<open>parser\<close>. \<open>Ast_Facts\<close> says what a tree holds, \<open>Parser_Contract\<close> what a parser promises, and
    \<open>Pattern_Specs\<close>, \<open>Expr_Specs\<close> and \<open>Clause_Specs\<close> show that every parser keeps it. \<open>Cypher_Parser\<close> ties the recursion.
    \<open>Expr_Print\<close> gives the tokens of an expression, and \<open>Stream_Eval\<close>, \<open>Expr_Climb\<close>, \<open>Expr_Forms\<close> and \<open>Expr_Roundtrip\<close>
    run the parser on them. \<open>Read_Only\<close> is \<open>read_only.rs\<close>, which runs the parser and visits its tree.

  \<open>GF_Prelude\<close> has the integer types and the arithmetic the theories share.

  \<^bold>\<open>How the code is modelled.\<close> Structures are records, enumerations are datatypes. Fallible functions return an option or
  a sum with the error on the left. Signed machine integers are \<open>int\<close>. The differences and additions of
  durations wrap around at 64 bits as a release build does, and seconds between instants also have an evaluation with the
  overflow checks of a debug build. The calendar computes on unbounded integers: \<open>days_from_civil_chk\<close> and
  \<open>civil_from_days_chk\<close> are its two conversions with overflow checks, and \<open>days_from_civil_no_overflow\<close> gives the ranges
  in which they agree, while the parser of dates takes years beyond them (\<open>overflowing_year_accepted\<close>). \<open>/\<close> and \<open>%\<close> are \<open>sdiv\<close> and \<open>smod\<close>, \<open>div_euclid\<close> and \<open>rem_euclid\<close> are \<open>div\<close> and
  \<open>mod\<close>. Identifiers are 128-bit words, bytes are 8-bit words, indices are \<open>nat\<close> with their bounds written out. A
  chrono operation that panics is the value \<open>Panic\<close>. Union-find searches are partial functions into an option, in which
  \<open>None\<close> is a call that does not return or indexes out of bounds; the theorems show that it does not occur. The two
  cycle searches are total functions whose termination is proved. A parser is a function of the token stream into an
  option, in which \<open>None\<close> is a run that does not end or unwraps a missing token. Its loops have the number of tokens as
  fuel and its recursion twice that number and two: every step of a loop consumes a token, and between two nested
  expressions at least one token is consumed and at most one pattern is entered. \<open>parse_total\<close> shows that this is enough.

  \<^bold>\<open>Parameters.\<close> Code outside the sources is a parameter with its documented behaviour as a hypothesis: chrono's
  constructors and the zone database, SHA-256, the version test of the uuid crate, the success of memory
  reservations, the unstable sort and the answers of the cancellation flag. The UTF-8 check of the standard library is defined. The iteration order of a hash map is the
  parameter \<open>order\<close>, any order of the keys. The lexer and the parser take the Unicode tables, the parser of floats and the
  debug forms that occur in messages as the records \<open>std_text\<close> and \<open>fmt_text\<close>; the properties of the parser assume
  nothing of them, and the two round trips of printed text that the tables are those of ASCII on ASCII.

  \<^bold>\<open>What the theorems show.\<close>

  \<^item> Calendar: the conversions are mutually inverse bijections and count the days of the Gregorian calendar; month
    addition clamps; no overflow for years up to 2e16, and the exact range of days without overflow.
  \<^item> Temporal text and values: every value is read back from its rendering; the accepted times are exactly those in
    range; truncation gives exactly the latest boundary of the unit; projection selects the overridden components and keeps the
    others; changes of zone keep the instant, also from a named zone with changing offsets.
  \<^item> Durations: adding \<open>duration.between\<close> to its start gives its end; \<open>inMonths\<close> is the closest count; \<open>inSeconds\<close> is the
    difference of the instants modulo the width of \<open>i64\<close>, and exact in a range of 5e13 days.
  \<^item> Canonical encoding: what is written is read back; preimages are injective.
  \<^item> Ledgers: the locale \<open>append_ledger\<close> states the laws of a merge and \<open>staged_ledger\<close> those of a ledger whose merge
    stages rows and calls the constructor; from them follow that merges keep all rows with their order and identities,
    that merging rows that are there changes nothing, and that the ledger reached depends on the merged rows only.
    Every ledger is an interpretation. The constructors accept exactly the well-formed
    ledgers; a superseded assertion stays superseded; a merged
    status ledger can be read back unless it supersedes an assertion before an event of the base; fingerprints and the
    identities of derivations bind contents up to collisions of the digest.
  \<^item> Topology: both forms of a node set translate identifiers and ordinals; the export builds exactly the rows of the
    selected nodes; the cursor finds exact ranges.
  \<^item> Components: the locale \<open>union_find\<close> states what a search and a link do to representatives; the array of the serial
    pass and the hash map of a chunk interpret it. The algorithm always returns, each error has its cause, the rows are
    the components of connectivity, and threads and pools do not change them.

  \<^item> Lexer: the tokens tile the input with white space and comments between them, and a printed token list is read back;
    the readers of numbers, parameters and operators interpret the locale \<open>scanner\<close>.
  \<^item> Parser: it returns on every text; an accepted tree is well formed and has exactly the parameters of the text. The
    locale \<open>recursive_parsers\<close> states the contract of the mutually recursive functions. The admission of saved queries is
    exact: no writing or calling clause at any depth, and the names of all parameters. A printed expression is read back:
    the parser groups operands by the precedence and the associativity of the operators.

  This theory holds the properties that span theories: all ledgers together, fingerprints across ledgers, and the
  components of an exported selection.

  \<^bold>\<open>Not modelled.\<close> Arrow batches and Parquet files of the ledgers and of the export; construction and scaling of
  durations, which compute in floating point; the other algorithms; the errors of the
  result sink other than the output limit; the stack depth of recursive calls in the parser, the union-find searches and the
  cycle searches; binding and planning, query execution, storage, the hub
  protocols, bindings and tools, most of which are input and output around third-party engines.
\<close>

section \<open>The ledgers together\<close>

definition collision :: "(byte list \<Rightarrow> byte list) \<Rightarrow> bool" where
  "collision sha256 \<longleftrightarrow> (\<exists>p q. p \<noteq> q \<and> sha256 p = sha256 q)"

lemma preimage_collision:
  "sha256 (preimage_bytes d v p) = sha256 (preimage_bytes d' v' p') \<Longrightarrow> d \<noteq> d' \<or> p \<noteq> p' \<Longrightarrow> collision sha256"
  unfolding collision_def using preimage_bytes_inj by metis

text \<open>C1. All five knowledge ledgers are append-only logs: status events, supersessions, derivations, preferences and
  retention dependencies.\<close>

theorem ledgers_append_only:
  "append_only_log se_status_event_uuid se_recorded_at_micros (status_new is_v7) (status_merge is_v7) \<and>
   append_only_log su_supersession_uuid su_recorded_at_micros (supersession_new is_v7 order) (supersession_merge is_v7 order) \<and>
   append_only_log ad_derivation_uuid ad_recorded_at_micros (derivation_new sha256 subjects) (derivation_merge sha256 subjects) \<and>
   append_only_log ap_preference_event_uuid ap_recorded_at_micros (preference_new is_v7) (preference_merge is_v7) \<and>
   append_only_log rd_dependency_uuid rd_recorded_at_micros (retention_new is_v7) (retention_merge is_v7)"
  by (intro conjI status.append_only supersessions.append_only derivations.append_only preferences.append_only
      retention.append_only)

text \<open>C19. The merges of supersessions, derivations, preferences and retention dependencies are exact partial unions: reusing an
  identity for different content is a conflict, and otherwise the result is the union exactly when the constructor
  accepts the union. So a merged ledger can always be read back.\<close>

theorem merges_are_unions:
  "merges_as_union su_supersession_uuid ''supersession_uuid'' (supersession_new is_v7 order) (supersession_merge is_v7 order) \<and>
   merges_as_union ad_derivation_uuid ''derivation_uuid'' (derivation_new sha256 subjects) (derivation_merge sha256 subjects) \<and>
   merges_as_union ap_preference_event_uuid ''preference_event_uuid'' (preference_new is_v7) (preference_merge is_v7) \<and>
   merges_as_union rd_dependency_uuid ''dependency_uuid'' (retention_new is_v7) (retention_merge is_v7)"
  by (intro conjI supersessions.partial_union derivations.partial_union preferences.partial_union retention.partial_union)

text \<open>C20. The fingerprints of rows bind their contents: different status events, different supersessions, a status event and
  a supersession, or two different preference requests have the same fingerprint only if SHA-256 has a collision.\<close>

theorem fingerprints_bind_rows:
  "(r \<noteq> r' \<and> event_fingerprint_for_row sha256 r = event_fingerprint_for_row sha256 r' \<longrightarrow> collision sha256) \<and>
   (s \<noteq> s' \<and> relation_fingerprint_for_row sha256 s = relation_fingerprint_for_row sha256 s' \<longrightarrow> collision sha256) \<and>
   (event_fingerprint_for_row sha256 r = relation_fingerprint_for_row sha256 s \<longrightarrow> collision sha256) \<and>
   ((e, source, artifact, reason) \<noteq> (e', source', artifact', reason') \<and>
      length reason \<le> MAX_ARTIFACT_PREFERENCE_REASON_BYTES \<and> length reason' \<le> MAX_ARTIFACT_PREFERENCE_REASON_BYTES \<and>
      preference_request_fingerprint sha256 e source artifact reason = preference_request_fingerprint sha256 e' source' artifact' reason'
      \<longrightarrow> collision sha256)"
proof (intro conjI impI; (elim conjE)?)
  show "collision sha256" if "r \<noteq> r'" "event_fingerprint_for_row sha256 r = event_fingerprint_for_row sha256 r'"
    using that preimage_collision [of sha256 AssertionStatus CANONICAL_CONTRACT_VERSION "event_payload r"
      AssertionStatus CANONICAL_CONTRACT_VERSION "event_payload r'"]
    by (simp add: event_fingerprint_eq event_payload_inj)
  show "collision sha256" if "s \<noteq> s'" "relation_fingerprint_for_row sha256 s = relation_fingerprint_for_row sha256 s'"
    using that preimage_collision [of sha256 AssertionSupersession CANONICAL_CONTRACT_VERSION "relation_payload s"
      AssertionSupersession CANONICAL_CONTRACT_VERSION "relation_payload s'"]
    by (simp add: relation_fingerprint_eq relation_payload_inj)
  show "collision sha256" if "event_fingerprint_for_row sha256 r = relation_fingerprint_for_row sha256 s"
    using that preimage_collision [of sha256 AssertionStatus CANONICAL_CONTRACT_VERSION "event_payload r"
      AssertionSupersession CANONICAL_CONTRACT_VERSION "relation_payload s"]
    by (simp add: event_fingerprint_eq relation_fingerprint_eq)
  assume a: "(e, source, artifact, reason) \<noteq> (e', source', artifact', reason')"
    and l: "length reason \<le> MAX_ARTIFACT_PREFERENCE_REASON_BYTES" "length reason' \<le> MAX_ARTIFACT_PREFERENCE_REASON_BYTES"
    and q: "preference_request_fingerprint sha256 e source artifact reason = preference_request_fingerprint sha256 e' source' artifact' reason'"
  have "request_payload e source artifact reason \<noteq> request_payload e' source' artifact' reason'"
    using a l request_payload_inj [of reason reason'] by (auto simp: MAX_ARTIFACT_PREFERENCE_REASON_BYTES_def)
  with q l show "collision sha256"
    using preimage_collision [of sha256 ArtifactPreference CANONICAL_CONTRACT_VERSION "request_payload e source artifact reason"
        ArtifactPreference CANONICAL_CONTRACT_VERSION "request_payload e' source' artifact' reason'"]
    by (simp add: preference_request_fingerprint_eq)
qed

theorem fingerprints_bind_rows_witness:
  "collision (\<lambda>_. [])"
  using fingerprints_bind_rows [of "sample_event 1 2 Supported 3" "sample_event 1 2 Refuted 3" "\<lambda>_. []"]
  by (simp add: event_fingerprint_eq sample_event_def)

section \<open>From adjacency rows to components\<close>

text \<open>The edges of the adjacency rows between nodes of a selection.\<close>

definition selected_edges :: "nat list \<Rightarrow> adjacency_row list \<Rightarrow> (nat \<times> nat) set" where
  "selected_edges ids rows =
     {(x, y). x \<in> set ids \<and> y \<in> set ids \<and> (\<exists>es ys e. (x, es, ys) \<in> set rows \<and> (e, y) \<in> set (zip es ys))}"

lemma sym_conn_map:
  assumes "(i, j) \<in> sym_conn E"
  shows "(f i, f j) \<in> sym_conn (map_prod f f ` E)"
  using assms unfolding sym_conn_def
proof (induction rule: rtrancl_induct)
  case (step j k)
  then have "(f j, f k) \<in> map_prod f f ` E \<union> (map_prod f f ` E)\<inverse>" by (auto intro: rev_image_eqI)
  with step.IH show ?case by (rule rtrancl_into_rtrancl)
qed simp

lemma sym_conn_bijection:
  assumes "\<And>i. i \<in> Field E \<Longrightarrow> g (f i) = i" "g (f i) = i" "g (f j) = j"
  shows "(f i, f j) \<in> sym_conn (map_prod f f ` E) \<longleftrightarrow> (i, j) \<in> sym_conn E"
proof
  have "map_prod g g ` map_prod f f ` E = id ` E"
    unfolding image_image by (rule image_cong [OF refl]) (auto simp: assms(1) FieldI1 FieldI2)
  then show "(i, j) \<in> sym_conn E" if "(f i, f j) \<in> sym_conn (map_prod f f ` E)"
    using sym_conn_map [OF that, of g] assms(2,3) by simp
qed (rule sym_conn_map)

lemma exported_edges:
  assumes r: "represents nodes ids" and l: "length ids \<le> u32_max"
    and x: "export_rows (\<lambda>_. True) nodes entry_hint keep_edge_ids rows = Inr (t_offsets g, t_neighbors g, edge_ids)"
  shows "map_prod ((!) ids) ((!) ids) ` row_edges g [0..<length ids] = selected_edges ids rows"
proof (intro set_eqI iffI)
  let ?s = "selected nodes rows"
  note e = export_rows_neighbors [OF r l x]
  have o: "\<And>y n. ordinal_of nodes y = Some n \<longleftrightarrow> n < length ids \<and> ids ! n = y" using represents_bounded(2) [OF r] l by simp
  have key: "fst (?s ! i) = ids ! i" if "i < length ?s" for i
    using arg_cong [OF e(1), of "\<lambda>xs. xs ! i"] that by simp
  {
    fix z assume "z \<in> map_prod ((!) ids) ((!) ids) ` row_edges g [0..<length ids]"
    then obtain i j where z: "z = (ids ! i, ids ! j)" "i < length ids" "j \<in> set (neighbor_ordinals g i)" by (auto simp: row_edges_def)
    then have i: "i < length ?s" and "j \<in> snd ` set (kept nodes (snd (?s ! i)))" using e(3) [of i] by (auto split: if_splits)
    then obtain a y where y: "(a, y) \<in> set (zip (fst (snd (?s ! i))) (snd (snd (?s ! i))))" "ordinal_of nodes y = Some j"
      by (auto simp: kept_def)
    have "?s ! i \<in> set rows" using nth_mem [OF i] by (simp add: selected_def)
    moreover have "?s ! i = (ids ! i, fst (snd (?s ! i)), snd (snd (?s ! i)))" using key [OF i] by (metis prod.collapse)
    ultimately have "(ids ! i, fst (snd (?s ! i)), snd (snd (?s ! i))) \<in> set rows" by simp
    with y z show "z \<in> selected_edges ids rows" unfolding selected_edges_def o by fastforce
  next
    fix z assume "z \<in> selected_edges ids rows"
    then obtain xx y es ys a where z: "z = (xx, y)" "xx \<in> set ids" "y \<in> set ids" "(xx, es, ys) \<in> set rows" "(a, y) \<in> set (zip es ys)"
      by (auto simp: selected_edges_def)
    from z(3) obtain j where j: "ordinal_of nodes y = Some j" "ids ! j = y" using o by (metis in_set_conv_nth)
    from z(2) obtain k where k: "ordinal_of nodes xx = Some k" using o by (metis in_set_conv_nth)
    with z(4) have "(xx, es, ys) \<in> set ?s" by (simp add: selected_def)
    then obtain i where i: "i < length ?s" "?s ! i = (xx, es, ys)" by (metis in_set_conv_nth)
    have "length ?s \<le> length ids" using arg_cong [OF e(1), of length] by simp
    then have il: "i < length ids" "ids ! i = xx" using i key [OF i(1)] by auto
    have "(a, j) \<in> set (kept nodes (es, ys))" using z(5) j(1) by (force simp: kept_def)
    then have "j \<in> set (neighbor_ordinals g i)" using e(3) [OF il(1)] i by (force simp: image_iff)
    then have "(i, j) \<in> row_edges g [0..<length ids]" using il by (simp add: row_edges_def)
    then show "z \<in> map_prod ((!) ids) ((!) ids) ` row_edges g [0..<length ids]"
      by (rule rev_image_eqI) (simp add: z(1) il(2) j(2))
  }
qed

text \<open>C5. The components of an exported selection: when the export of the adjacency rows succeeds and the run is not cancelled,
  the algorithm returns a row for every selected node in the order of the selection, and two nodes have the same number
  exactly when a chain of edges between selected nodes, followed in either direction, connects them in the rows.\<close>

theorem exported_components:
  assumes "represents nodes ids" and "length ids \<le> u32_max"
    and "export_rows (\<lambda>_. True) nodes entry_hint keep_edge_ids rows = Inr (t_offsets g, t_neighbors g, edge_ids)"
    and "t_nodes g = nodes" and "length (t_uuids g) = length ids"
    and "uncancelled control" and "length ids \<le> c_output_rows control"
  shows "\<exists>number. components_execute g control = Some (Inr (zip (t_uuids g) (map number [0..<length ids]))) \<and>
    (\<forall>i<length ids. \<forall>j<length ids. number i = number j \<longleftrightarrow> (ids ! i, ids ! j) \<in> sym_conn (selected_edges ids rows))"
proof (intro exI conjI allI impI)
  let ?n = "length ids" and ?E = "row_edges g [0..<length ids]"
  have n: "node_count g = ?n" using assms(1,4) by (simp add: node_count_def represents_def)
  have sel: "rows_selected g [0..<?n]"
    unfolding rows_selected_def n using export_rows_neighbors(4) [OF assms(1-3)] by auto
  have small: "\<not> 2 ^ 63 \<le> ?n" using assms(2) by (simp add: u32_max_def)
  have "components_execute g control = Some (Inr (map (\<lambda>i. (t_uuids g ! i, community ?E i)) [0..<?n]))"
  proof -
    obtain r where "components_execute g control = Some r"
      "case r of Inl e \<Rightarrow> stopped control (rows_selected g [0..<?n]) e \<or> numbering_stopped g control e
       | Inr out \<Rightarrow> rows_selected g [0..<?n] \<and> ?n \<le> length (t_uuids g) \<and> ?n \<le> c_output_rows control \<and>
           out = map (\<lambda>i. (t_uuids g ! i, community ?E i)) [0..<?n]"
      using execute_outcome [of g control, unfolded n] by blast
    then show ?thesis using sel small assms(5-7) by (cases r) (auto simp: n stopped_def numbering_stopped_def)
  qed
  also have "map (\<lambda>i. (t_uuids g ! i, community ?E i)) [0..<?n] = zip (t_uuids g) (map (community ?E) [0..<?n])"
    using assms(5) by (intro nth_equalityI) auto
  finally show "components_execute g control = Some (Inr (zip (t_uuids g) (map (community ?E) [0..<?n])))" .
  have inv: "the (ordinal_of nodes (ids ! i)) = i" if "i < ?n" for i using assms(1) that by (simp add: represents_def)
  fix i j assume ij: "i < ?n" "j < ?n"
  have f: "i < ?n" if "i \<in> Field ?E" for i using rows_selected_field [OF sel _ that] n by simp
  show "community ?E i = community ?E j \<longleftrightarrow> (ids ! i, ids ! j) \<in> sym_conn (selected_edges ids rows)"
    unfolding community_eq exported_edges [OF assms(1-3), symmetric]
    by (rule sym_conn_bijection [where g = "\<lambda>x. the (ordinal_of nodes x)", symmetric]) (simp_all add: inv ij f)
qed

theorem exported_components_witness:
  "\<exists>number. components_execute (topology_default\<lparr>t_nodes := Dense 3 3, t_offsets := [0, 1, 1, 2], t_neighbors := [2, 0], t_uuids := [31, 51, 91]\<rparr> :: nat topology_graph)
      \<lparr>c_polls = (\<lambda>_ _. False), c_compute_threads = 4, c_pool_parallel = Some True, c_output_rows = 5\<rparr> =
      Some (Inr (zip [31, 51, 91] (map number [0..<3]))) \<and> number 0 = number 2"
proof -
  let ?g = "topology_default\<lparr>t_nodes := Dense 3 3, t_offsets := [0, 1, 1, 2], t_neighbors := [2, 0], t_uuids := [31, 51, 91]\<rparr> :: nat topology_graph"
  let ?c = "\<lparr>c_polls = (\<lambda>_ _. False), c_compute_threads = 4, c_pool_parallel = Some True, c_output_rows = 5\<rparr>"
  let ?rows = "[(3, [7], [5]), (4, [], []), (5, [7], [3])] :: adjacency_row list"
  have d: "node_set_from_ids [3, 4, 5] 0 = Dense 3 3" by (simp add: node_set_from_ids_def u64_max_def)
  have r: "represents (Dense 3 3) [3, 4, 5]"
    unfolding d [symmetric] by (rule from_ids_represents) (simp_all add: u64_max_def u32_max_def)
  have e: "export_rows (\<lambda>_. True) (Dense 3 3) 4 False ?rows = Inr (t_offsets ?g, t_neighbors ?g, None)"
    by (simp add: export_rows_def builder_new_def walk_rows.simps push_row_def keep_def next_ordinal_def try_u32_def u32_max_def
        builder_finish_def resize_def less_eq_prod_def less_prod_def Let_def topology_default_def)
  have c: "(3, 5) \<in> sym_conn (selected_edges [3, 4, 5] ?rows)"
    by (rule sym_conn_edge) (auto simp: selected_edges_def)
  have l: "length [3, 4, 5 :: nat] \<le> u32_max" by (simp add: u32_max_def)
  obtain number where num: "components_execute ?g ?c = Some (Inr (zip (t_uuids ?g) (map number [0..<length [3, 4, 5 :: nat]])))"
    "\<forall>i<length [3, 4, 5 :: nat]. \<forall>j<length [3, 4, 5 :: nat]. number i = number j \<longleftrightarrow> ([3, 4, 5] ! i, [3, 4, 5] ! j) \<in> sym_conn (selected_edges [3, 4, 5] ?rows)"
    using exported_components [OF r l e, of ?c] by (auto simp: uncancelled_def)
  have "number 0 = number 2" using num(2) [rule_format, of 0 2] c by simp
  with num(1) show ?thesis by (intro exI [of _ number]) (simp add: numeral_3_eq_3)
qed

end
